(* ===== verification/Prelude.thy ===== *)
theory Prelude
  imports Main "HOL-Library.Extended_Nat"
begin

text \<open>
  Shared vocabulary of the maze-solve development.  The JavaScript program keeps its
  tile map, distance field and explored flags as arrays of arrays indexed
  \<^verbatim>\<open>arr[x][y]\<close> (\<^verbatim>\<open>Maze.create2DArray\<close> in \<^verbatim>\<open>src/main.js\<close>); here such a grid is a
  \<open>'a list list\<close>, read and written at integer coordinates by \<open>cell\<close> and
  \<open>set_cell\<close>.  Coordinates are \<open>int\<close> because the code computes \<open>x - 1\<close> and
  then asks \<^verbatim>\<open>inBounds\<close> whether it is \<open>\<ge> 0\<close>.  The theory also holds the counting
  function behind the termination measure of the search (\<open>count_false\<close>), the four
  axis-aligned neighbour candidates in the order the code lists them, and the
  collections \<open>grid_simps\<close> and \<open>inv_defs\<close> that the component proofs share.
\<close>

named_theorems grid_simps "rewrite rules for reading and writing grid cells"
named_theorems inv_defs "definitions of the component invariants"

declare Let_def [simp]

type_synonym coord = "int \<times> int"

text \<open>
  The one kind of exception the core can raise: a property read of \<^verbatim>\<open>undefined\<close>
  (a JavaScript \<^verbatim>\<open>TypeError\<close>), with the expression that is undefined.
\<close>

datatype error = TypeError string
type_synonym 'a grid = "'a list list"

section \<open>Grids\<close>

definition cell :: "'a grid \<Rightarrow> int \<Rightarrow> int \<Rightarrow> 'a" where
  "cell g x y = g ! nat x ! nat y"

definition set_cell :: "'a grid \<Rightarrow> int \<Rightarrow> int \<Rightarrow> 'a \<Rightarrow> 'a grid" where
  "set_cell g x y v = g[nat x := (g ! nat x)[nat y := v]]"

text \<open>A grid of \<open>n\<close> columns of \<open>n\<close> cells, the shape \<^verbatim>\<open>create2DArray(n, ...)\<close> builds.\<close>

definition square :: "nat \<Rightarrow> 'a grid \<Rightarrow> bool" where
  "square n g \<longleftrightarrow> length g = n \<and> list_all (\<lambda>r. length r = n) g"

definition in_range :: "nat \<Rightarrow> int \<Rightarrow> int \<Rightarrow> bool" where
  "in_range n x y \<longleftrightarrow> 0 \<le> x \<and> x < int n \<and> 0 \<le> y \<and> y < int n"

text \<open>Every cell of an \<open>n \<times> n\<close> grid satisfies \<open>P\<close>; executable, by the two index loops.\<close>

definition all_cells :: "nat \<Rightarrow> (int \<Rightarrow> int \<Rightarrow> bool) \<Rightarrow> bool" where
  "all_cells n P \<longleftrightarrow> list_all (\<lambda>i. list_all (\<lambda>j. P (int i) (int j)) [0..<n]) [0..<n]"

text \<open>The candidates \<open>+x, -x, +y, -y\<close>, in the order of \<^verbatim>\<open>potentialNeighbors\<close>.\<close>

definition candidates :: "int \<Rightarrow> int \<Rightarrow> coord list" where
  "candidates x y = [(x + 1, y), (x - 1, y), (x, y + 1), (x, y - 1)]"

definition adjacent :: "coord \<Rightarrow> coord \<Rightarrow> bool" where
  "adjacent p q \<longleftrightarrow> \<bar>fst p - fst q\<bar> + \<bar>snd p - snd q\<bar> = 1"

text \<open>The number of unset flags of a boolean grid.\<close>

definition count_false :: "bool grid \<Rightarrow> nat" where
  "count_false g = sum_list (map (\<lambda>r. length (filter Not r)) g)"

section \<open>Lemmas on grids\<close>

lemma square_length: "square n g \<Longrightarrow> length g = n"
  by (simp add: square_def)

lemma square_row_length:
  "square n g \<Longrightarrow> i < n \<Longrightarrow> length (g ! i) = n"
  by (auto simp: square_def list_all_length)

lemma in_range_nat [simp]:
  assumes "in_range n x y"
  shows "nat x < n" and "nat y < n"
  using assms by (auto simp: in_range_def)

lemma square_set_cell [simp]:
  "square n g \<Longrightarrow> square n (set_cell g x y v)"
  by (cases "nat x < length g")
     (auto simp: square_def set_cell_def list_all_length nth_list_update list_update_beyond)

lemma cell_set_cell [grid_simps]:
  assumes "square n g" "in_range n x y" "in_range n a b"
  shows "cell (set_cell g x y v) a b = (if (a, b) = (x, y) then v else cell g a b)"
proof (cases "a = x")
  case True
  have "nat x < length g" "nat y < length (g ! nat x)"
    using assms(1,2) by (auto simp: square_def list_all_length in_range_def)
  moreover have "nat b = nat y \<longleftrightarrow> b = y"
    using assms(2,3) by (auto simp: in_range_def)
  ultimately show ?thesis
    using True by (auto simp: cell_def set_cell_def nth_list_update_neq)
next
  case False
  then have "nat a \<noteq> nat x"
    using assms(2,3) by (auto simp: in_range_def)
  then show ?thesis
    using False by (simp add: cell_def set_cell_def)
qed

lemma cell_set_cell_same [simp]:
  "square n g \<Longrightarrow> in_range n x y \<Longrightarrow> cell (set_cell g x y v) x y = v"
  by (simp add: cell_set_cell)

lemma set_cell_cell [simp]: "set_cell g x y (cell g x y) = g"
  by (simp add: set_cell_def cell_def)

text \<open>A write leaves every cell either at the value written or at its old value,
  whatever the indices.\<close>

lemma cell_set_cell_cases: "cell (set_cell g x y v) a b = v \<or> cell (set_cell g x y v) a b = cell g a b"
proof (cases "nat x < length g \<and> nat a = nat x")
  case True
  then show ?thesis
    by (cases "nat y < length (g ! nat x)")
       (auto simp: cell_def set_cell_def nth_list_update list_update_beyond)
next
  case False
  then show ?thesis by (auto simp: cell_def set_cell_def nth_list_update_neq list_update_beyond)
qed

lemma map_sum_eq_Inr: "map_sum f g x = Inr y \<longleftrightarrow> (\<exists>z. x = Inr z \<and> y = g z)"
  by (cases x) auto

lemma all_cells_iff: "all_cells n P \<longleftrightarrow> (\<forall>x y. in_range n x y \<longrightarrow> P x y)"
proof
  assume all: "all_cells n P"
  show "\<forall>x y. in_range n x y \<longrightarrow> P x y"
  proof (intro allI impI)
    fix x y
    assume r: "in_range n x y"
    then have "nat x \<in> set [0..<n]" "nat y \<in> set [0..<n]" by auto
    moreover from all have "\<forall>i\<in>set [0..<n]. \<forall>j\<in>set [0..<n]. P (int i) (int j)"
      by (simp only: all_cells_def list_all_iff)
    ultimately have "P (int (nat x)) (int (nat y))" by blast
    with r show "P x y" by (simp add: in_range_def)
  qed
next
  assume "\<forall>x y. in_range n x y \<longrightarrow> P x y"
  then show "all_cells n P"
    by (simp add: all_cells_def in_range_def list_all_iff)
qed

lemma candidates_adjacent: "p \<in> set (candidates x y) \<Longrightarrow> adjacent (x, y) p"
  by (auto simp: candidates_def adjacent_def)

lemma adjacent_sym: "adjacent p q \<longleftrightarrow> adjacent q p"
  by (auto simp: adjacent_def)

lemma candidates_sym: "(a, b) \<in> set (candidates x y) \<longleftrightarrow> (x, y) \<in> set (candidates a b)"
  by (auto simp: candidates_def)

lemma candidates_not_self [simp]: "(x, y) \<notin> set (candidates x y)"
  by (simp add: candidates_def)

lemma candidates_distinct [simp]: "distinct (candidates x y)"
  by (simp add: candidates_def)

lemma length_filter_update:
  "i < length xs \<Longrightarrow>
   length (filter P (xs[i := v])) + (if P (xs ! i) then 1 else 0) =
   length (filter P xs) + (if P v then 1 else 0)"
proof (induction xs arbitrary: i)
  case Nil
  then show ?case by simp
next
  case (Cons a xs)
  then show ?case by (cases i) auto
qed

lemma sum_list_update_nat:
  "i < length xs \<Longrightarrow> sum_list (xs[i := v]) + xs ! i = sum_list xs + (v :: nat)"
proof (induction xs arbitrary: i)
  case Nil
  then show ?case by simp
next
  case (Cons a xs)
  then show ?case by (cases i) auto
qed

text \<open>Setting an unset flag lowers the count by one: the step of the termination measure.\<close>

lemma count_false_set_cell:
  assumes "square n g" "in_range n x y" "\<not> cell g x y"
  shows "count_false (set_cell g x y True) + 1 = count_false g"
proof -
  let ?i = "nat x" and ?j = "nat y"
  let ?f = "\<lambda>r. length (filter Not r)"
  have i: "?i < length g" and j: "?j < length (g ! ?i)"
    using assms(1,2) by (auto simp: square_length square_row_length)
  have row: "?f ((g ! ?i)[?j := True]) + 1 = ?f (g ! ?i)"
    using length_filter_update [OF j, of Not True] assms(3) by (simp add: cell_def)
  have "count_false (set_cell g x y True) + ?f (g ! ?i) =
        count_false g + ?f ((g ! ?i)[?j := True])"
    using sum_list_update_nat [of ?i "map ?f g" "?f ((g ! ?i)[?j := True])"] i
    by (simp add: count_false_def set_cell_def map_update)
  with row show ?thesis by simp
qed

lemma count_false_set_cell_le:
  "count_false (set_cell g x y True) \<le> count_false g"
proof (cases "nat x < length g \<and> nat y < length (g ! nat x)")
  case True
  let ?f = "\<lambda>r. length (filter Not r)"
  have "?f ((g ! nat x)[nat y := True]) \<le> ?f (g ! nat x)"
    using length_filter_update [of "nat y" "g ! nat x" Not True] True by auto
  moreover have "count_false (set_cell g x y True) + ?f (g ! nat x) =
        count_false g + ?f ((g ! nat x)[nat y := True])"
    using sum_list_update_nat [of "nat x" "map ?f g" "?f ((g ! nat x)[nat y := True])"] True
    by (simp add: count_false_def set_cell_def map_update)
  ultimately show ?thesis by simp
next
  case False
  then have "set_cell g x y True = g"
    by (auto simp: set_cell_def list_update_beyond)
  then show ?thesis by simp
qed

text \<open>Two square grids with the same cells are equal.\<close>

lemma grid_eqI:
  assumes "square n g" "square n h" "\<And>x y. in_range n x y \<Longrightarrow> cell g x y = cell h x y"
  shows "g = h"
proof (rule nth_equalityI)
  show "length g = length h" using assms(1,2) by (simp add: square_length)
next
  fix i
  assume i: "i < length g"
  then have in_n: "i < n" using assms(1) by (simp add: square_length)
  show "g ! i = h ! i"
  proof (rule nth_equalityI)
    show "length (g ! i) = length (h ! i)"
      using in_n assms(1,2) by (simp add: square_row_length)
  next
    fix j
    assume "j < length (g ! i)"
    then have "j < n" using in_n assms(1) by (simp add: square_row_length)
    then have "in_range n (int i) (int j)" using in_n by (simp add: in_range_def)
    then show "g ! i ! j = h ! i ! j" using assms(3) [of "int i" "int j"] by (simp add: cell_def)
  qed
qed

end
