(* ===== verification/Maze.thy ===== *)
theory Maze
  imports Prelude
begin

text \<open>
  The \<^verbatim>\<open>Maze\<close> class of \<^verbatim>\<open>src/main.js\<close> (lines 146--255): the tile map, the
  distance field and the explored flags, with \<^verbatim>\<open>setUpMaze\<close>, \<^verbatim>\<open>resetDistances\<close>,
  \<^verbatim>\<open>create2DArray\<close>, \<^verbatim>\<open>getTile\<close>, \<^verbatim>\<open>clearEnds\<close>, \<^verbatim>\<open>solved\<close> and \<^verbatim>\<open>inBounds\<close>.
  Tiles are the numbers \<open>0\<close> (empty), \<open>1\<close> (wall) and \<open>2\<close> (slow) of the source;
  \<^verbatim>\<open>Infinity\<close> in the distance field is \<open>\<infinity>\<close> of \<open>enat\<close>.  \<^verbatim>\<open>Math.random\<close> is
  the argument \<open>rnd\<close>: \<open>rnd k\<close> is the value of its \<open>k\<close>-th call during
  \<^verbatim>\<open>setUpMaze\<close>.  The pixel width \<^verbatim>\<open>width = CANVASSIZE/size\<close> and the off-screen buffer
  are drawing state and are not modelled.  A \<^verbatim>\<open>TypeError\<close> is the value \<open>Inl\<close>;
  the partial updates the source has made before it throws are not kept.
\<close>

datatype tile = Empty | Wall | Slow

record maze =
  maze_size :: nat
  wallFreq :: real
  maze_map :: "tile grid"
  distances :: "enat grid"
  explored :: "bool grid"

section \<open>Operations\<close>

text \<open>\<^verbatim>\<open>create2DArray(size, callback)\<close>: the callback is called once per cell, row by
  row; its \<open>k\<close>-th call is \<open>f k\<close>.\<close>

definition create2DArray :: "nat \<Rightarrow> (nat \<Rightarrow> 'a) \<Rightarrow> 'a grid" where
  "create2DArray n f = map (\<lambda>i. map (\<lambda>j. f (i * n + j)) [0..<n]) [0..<n]"

definition getTile :: "real \<Rightarrow> real \<Rightarrow> tile" where
  "getTile freq r = (if r < freq then Wall else Empty)"

definition clearEnds :: "tile grid \<Rightarrow> error + tile grid" where
  "clearEnds g =
     (if g = [] then Inl (TypeError ''map[0] is undefined'')
      else let n = int (length g) in Inr (set_cell (set_cell g 0 0 Empty) (n - 1) (n - 1) Empty))"

definition resetDistances :: "maze \<Rightarrow> error + maze" where
  "resetDistances m =
     (let n = maze_size m;
          d = create2DArray n (\<lambda>_. \<infinity>);
          e = create2DArray n (\<lambda>_. False)
      in if n = 0 then Inl (TypeError ''explored[0] is undefined'')
         else Inr (m\<lparr>distances := d, explored := set_cell e 0 0 True\<rparr>))"

definition setUpMaze :: "nat \<Rightarrow> real \<Rightarrow> (nat \<Rightarrow> real) \<Rightarrow> maze \<Rightarrow> error + maze" where
  "setUpMaze n freq rnd m =
     (let m1 = m\<lparr>maze_size := n, wallFreq := freq,
                 maze_map := create2DArray n (\<lambda>k. getTile freq (rnd k))\<rparr>
      in case resetDistances m1 of
           Inl e \<Rightarrow> Inl e
         | Inr m2 \<Rightarrow> (case clearEnds (maze_map m2) of
                       Inl e \<Rightarrow> Inl e
                     | Inr g \<Rightarrow> Inr (m2\<lparr>maze_map := g\<rparr>)))"

text \<open>The constructor \<^verbatim>\<open>new Maze(size, wallFreq, buffer)\<close> runs \<^verbatim>\<open>setUpMaze\<close> on a
  fresh object.\<close>

definition new_maze :: "nat \<Rightarrow> real \<Rightarrow> (nat \<Rightarrow> real) \<Rightarrow> error + maze" where
  "new_maze n freq rnd =
     setUpMaze n freq rnd
       \<lparr>maze_size = 0, wallFreq = 0, maze_map = [], distances = [], explored = []\<rparr>"

text \<open>\<^verbatim>\<open>solved()\<close> reads \<^verbatim>\<open>distances[size - 1][size - 1]\<close> with \<open>size\<close> the length of
  the map; on an empty map that is a read of \<^verbatim>\<open>undefined\<close>.\<close>

definition solved :: "maze \<Rightarrow> error + bool" where
  "solved m =
     (let n = length (maze_map m)
      in if n = 0 then Inl (TypeError ''distances[-1] is undefined'')
         else Inr (cell (distances m) (int n - 1) (int n - 1) \<noteq> \<infinity>))"

definition inBounds :: "maze \<Rightarrow> int \<Rightarrow> int \<Rightarrow> bool" where
  "inBounds m x y \<longleftrightarrow> 0 \<le> x \<and> x < int (maze_size m) \<and> 0 \<le> y \<and> y < int (maze_size m)"

section \<open>Well-formed mazes\<close>

text \<open>What every maze the program builds satisfies: a positive size, three square
  grids of that size, and the two ends of the maze free of walls.\<close>

definition wf_maze :: "maze \<Rightarrow> bool" where
  "wf_maze m \<longleftrightarrow>
     (let n = maze_size m in
      0 < n \<and> square n (maze_map m) \<and> square n (distances m) \<and> square n (explored m))"

definition ends_clear :: "maze \<Rightarrow> bool" where
  "ends_clear m \<longleftrightarrow>
     (let n = int (maze_size m) in
      cell (maze_map m) 0 0 = Empty \<and> cell (maze_map m) (n - 1) (n - 1) = Empty)"

text \<open>The distance field and the explored flags as \<^verbatim>\<open>resetDistances\<close> leaves them.\<close>

definition fresh_fields :: "maze \<Rightarrow> bool" where
  "fresh_fields m \<longleftrightarrow>
     all_cells (maze_size m)
       (\<lambda>x y. cell (distances m) x y = \<infinity> \<and> cell (explored m) x y = ((x, y) = (0, 0)))"

text \<open>
  The property of a distance field that \<^verbatim>\<open>PathViewer.draw\<close> relies on: every reached
  cell other than the origin has an in-bounds neighbour with a strictly smaller distance.
  The solver establishes it (theory \<open>Solver\<close>); the path walk consumes it (theory
  \<open>PathViewer\<close>).
\<close>

definition descent :: "maze \<Rightarrow> bool" where
  "descent m \<longleftrightarrow>
     all_cells (maze_size m)
       (\<lambda>x y. (x, y) \<noteq> (0, 0) \<longrightarrow> cell (distances m) x y \<noteq> \<infinity> \<longrightarrow>
          list_ex (\<lambda>(a, b). in_range (maze_size m) a b \<and>
                            cell (distances m) a b < cell (distances m) x y) (candidates x y))"

abbreviation goal :: "maze \<Rightarrow> coord" where
  "goal m \<equiv> (int (maze_size m) - 1, int (maze_size m) - 1)"

section \<open>Lemmas\<close>

lemma inBounds_in_range: "inBounds m x y \<longleftrightarrow> in_range (maze_size m) x y"
  by (simp add: inBounds_def in_range_def)

lemma square_create2DArray [simp]: "square n (create2DArray n f)"
  by (simp add: square_def create2DArray_def list_all_iff)

lemma cell_create2DArray [simp]:
  "in_range n x y \<Longrightarrow> cell (create2DArray n f) x y = f (nat x * n + nat y)"
  by (simp add: cell_def create2DArray_def)

lemma in_range_origin [simp]: "0 < n \<Longrightarrow> in_range n 0 0"
  by (simp add: in_range_def)

lemma in_range_corner [simp]: "0 < n \<Longrightarrow> in_range n (int n - 1) (int n - 1)"
  by (simp add: in_range_def)

lemma wf_maze_squares:
  assumes "wf_maze m"
  shows "0 < maze_size m" "square (maze_size m) (maze_map m)"
    "square (maze_size m) (distances m)" "square (maze_size m) (explored m)"
  using assms by (simp_all add: wf_maze_def Let_def)

lemma solved_wf:
  "wf_maze m \<Longrightarrow> solved m = Inr (cell (distances m) (fst (goal m)) (snd (goal m)) \<noteq> \<infinity>)"
  using wf_maze_squares [of m] by (simp add: solved_def square_length Let_def)

lemma clearEnds_Inr:
  assumes "square n g" "0 < n"
  shows "\<exists>g'. clearEnds g = Inr g' \<and> square n g' \<and>
           cell g' 0 0 = Empty \<and> cell g' (int n - 1) (int n - 1) = Empty \<and>
           (\<forall>x y. in_range n x y \<longrightarrow> (x, y) \<noteq> (0, 0) \<longrightarrow> (x, y) \<noteq> (int n - 1, int n - 1) \<longrightarrow>
              cell g' x y = cell g x y)"
proof -
  have len: "length g = n"
    using assms(1) by (rule square_length)
  then have ne: "g \<noteq> []"
    using assms(2) by auto
  let ?g1 = "set_cell g 0 0 Empty"
  have sq1: "square n ?g1" using assms(1) by simp
  have eq: "clearEnds g = Inr (set_cell ?g1 (int n - 1) (int n - 1) Empty)"
    using ne len by (simp add: clearEnds_def)
  show ?thesis
    using assms by (auto simp: eq cell_set_cell [OF sq1] cell_set_cell [OF assms(1)])
qed

text \<open>On a map whose ends are already empty, \<^verbatim>\<open>clearEnds\<close> changes nothing.\<close>

lemma clearEnds_id:
  assumes "square n g" "0 < n" "cell g 0 0 = Empty" "cell g (int n - 1) (int n - 1) = Empty"
  shows "clearEnds g = Inr g"
proof -
  have "g \<noteq> []" "length g = n" using assms(1,2) by (auto simp: square_def)
  moreover have "set_cell g 0 0 Empty = g"
    using set_cell_cell [of g 0 0] assms(3) by simp
  moreover have "set_cell g (int n - 1) (int n - 1) Empty = g"
    using set_cell_cell [of g "int n - 1" "int n - 1"] assms(4) by simp
  ultimately show ?thesis by (simp add: clearEnds_def)
qed

lemma resetDistances_Inr:
  assumes "0 < maze_size m"
  shows "\<exists>m'. resetDistances m = Inr m' \<and> maze_size m' = maze_size m \<and>
           maze_map m' = maze_map m \<and> wallFreq m' = wallFreq m \<and>
           square (maze_size m) (distances m') \<and> square (maze_size m) (explored m') \<and>
           fresh_fields m'"
proof -
  let ?n = "maze_size m"
  let ?e = "create2DArray ?n (\<lambda>_. False)"
  have sq: "square ?n ?e" by simp
  show ?thesis
    using assms
    by (auto simp: resetDistances_def fresh_fields_def all_cells_iff cell_set_cell [OF sq])
qed

lemma resetDistances_zero:
  "maze_size m = 0 \<Longrightarrow> resetDistances m = Inl (TypeError ''explored[0] is undefined'')"
  by (simp add: resetDistances_def)

lemma setUpMaze_Inr:
  assumes "0 < n"
  shows "\<exists>m'. setUpMaze n freq rnd m = Inr m' \<and> maze_size m' = n \<and> wallFreq m' = freq \<and>
           wf_maze m' \<and> ends_clear m' \<and> fresh_fields m' \<and>
           (\<forall>x y. in_range n x y \<longrightarrow> (x, y) \<noteq> (0, 0) \<longrightarrow> (x, y) \<noteq> (int n - 1, int n - 1) \<longrightarrow>
              cell (maze_map m') x y = getTile freq (rnd (nat x * n + nat y)))"
proof -
  let ?m1 = "m\<lparr>maze_size := n, wallFreq := freq,
                maze_map := create2DArray n (\<lambda>k. getTile freq (rnd k))\<rparr>"
  obtain m2 where r: "resetDistances ?m1 = Inr m2" and m2: "maze_size m2 = n"
      "maze_map m2 = maze_map ?m1" "wallFreq m2 = freq"
      "square n (distances m2)" "square n (explored m2)" "fresh_fields m2"
    using resetDistances_Inr [of ?m1] assms by auto
  have "square n (maze_map m2)" using m2(2) by simp
  then obtain g where c: "clearEnds (maze_map m2) = Inr g" and g: "square n g"
      "cell g 0 0 = Empty" "cell g (int n - 1) (int n - 1) = Empty"
      "\<forall>x y. in_range n x y \<longrightarrow> (x, y) \<noteq> (0, 0) \<longrightarrow> (x, y) \<noteq> (int n - 1, int n - 1) \<longrightarrow>
              cell g x y = cell (maze_map m2) x y"
    using clearEnds_Inr [of n "maze_map m2"] assms by blast
  have eq: "setUpMaze n freq rnd m = Inr (m2\<lparr>maze_map := g\<rparr>)"
    by (simp add: setUpMaze_def r c)
  show ?thesis
    using assms m2 g
    by (auto simp: eq wf_maze_def ends_clear_def fresh_fields_def)
qed

lemma setUpMaze_zero:
  "setUpMaze 0 freq rnd m = Inl (TypeError ''explored[0] is undefined'')"
  by (simp add: setUpMaze_def resetDistances_def)

section \<open>Counting unexplored cells\<close>

lemma count_false_create_False: "count_false (create2DArray n (\<lambda>_. False)) = n * n"
proof -
  have "count_false (create2DArray n (\<lambda>_. False)) = sum_list (map (\<lambda>i. n) [0..<n])"
    by (simp add: count_false_def create2DArray_def comp_def)
  also have "\<dots> = n * n" by (simp add: sum_list_triv)
  finally show ?thesis .
qed

text \<open>Fresh explored flags leave all cells but the origin unexplored.\<close>

lemma fresh_count_false:
  assumes "wf_maze m" "fresh_fields m"
  shows "count_false (explored m) + 1 = maze_size m * maze_size m"
proof -
  let ?n = "maze_size m"
  let ?e = "set_cell (create2DArray ?n (\<lambda>_. False)) 0 0 True"
  have n: "0 < ?n" and sq: "square ?n (explored m)" using wf_maze_squares [OF assms(1)] by simp_all
  have sqc: "square ?n (create2DArray ?n (\<lambda>_. False))" by simp
  have "explored m = ?e"
  proof (rule grid_eqI [OF sq])
    show "square ?n ?e" using sqc by simp
  next
    fix x y
    assume r: "in_range ?n x y"
    then show "cell (explored m) x y = cell ?e x y"
      using assms(2) cell_set_cell [OF sqc in_range_origin [OF n] r]
      by (auto simp: fresh_fields_def all_cells_iff)
  qed
  moreover have "count_false ?e + 1 = count_false (create2DArray ?n (\<lambda>_. False))"
    using count_false_set_cell [OF sqc in_range_origin [OF n]] n by simp
  ultimately show ?thesis by (simp add: count_false_create_False)
qed

end
