(* ===== verification/Queue.thy ===== *)
theory Queue
  imports Prelude
begin

text \<open>
  The \<^verbatim>\<open>Queue\<close> class of \<^verbatim>\<open>src/main.js\<close> (lines 261--277): a FIFO over a JavaScript
  array, \<^verbatim>\<open>push\<close> appending at the tail and \<^verbatim>\<open>pop\<close> calling \<^verbatim>\<open>shift()\<close> at the head.
  \<^verbatim>\<open>shift()\<close> on an empty array returns \<^verbatim>\<open>undefined\<close> and leaves it empty; here that
  is \<open>None\<close>.  The theory shows that the queue is first-in first-out: draining it
  returns the elements in the order they were pushed.
\<close>

record 'a queue =
  elements :: "'a list"

text \<open>\<^verbatim>\<open>constructor(...elements)\<close>: the rest parameter is always an array, so the
  fallback \<^verbatim>\<open>|| []\<close> never applies.\<close>

definition new_queue :: "'a list \<Rightarrow> 'a queue" where
  "new_queue xs = \<lparr>elements = xs\<rparr>"

definition push :: "'a queue \<Rightarrow> 'a \<Rightarrow> 'a queue" where
  "push q e = q\<lparr>elements := elements q @ [e]\<rparr>"

definition pop :: "'a queue \<Rightarrow> 'a option \<times> 'a queue" where
  "pop q = (case elements q of
              [] \<Rightarrow> (None, q)
            | e # es \<Rightarrow> (Some e, q\<lparr>elements := es\<rparr>))"

definition isEmpty :: "'a queue \<Rightarrow> bool" where
  "isEmpty q \<longleftrightarrow> elements q = []"

text \<open>A client that pops \<open>k\<close> times and collects what it gets.\<close>

fun drain :: "nat \<Rightarrow> 'a queue \<Rightarrow> 'a list" where
  "drain 0 q = []"
| "drain (Suc k) q = (case pop q of (None, _) \<Rightarrow> [] | (Some e, q') \<Rightarrow> e # drain k q')"

text \<open>Pushing a whole list, element by element.\<close>

definition push_all :: "'a queue \<Rightarrow> 'a list \<Rightarrow> 'a queue" where
  "push_all q xs = foldl push q xs"

lemma elements_push [simp]: "elements (push q e) = elements q @ [e]"
  by (simp add: push_def)

lemma elements_push_all [simp]: "elements (push_all q xs) = elements q @ xs"
  by (induction xs arbitrary: q) (simp_all add: push_all_def)

lemma pop_Some:
  "elements q = e # es \<Longrightarrow> pop q = (Some e, q\<lparr>elements := es\<rparr>)"
  by (simp add: pop_def)

lemma pop_None: "elements q = [] \<Longrightarrow> pop q = (None, q)"
  by (simp add: pop_def)

lemma isEmpty_pop: "isEmpty q \<longleftrightarrow> fst (pop q) = None"
  by (simp add: isEmpty_def pop_def split: list.split)

lemma drain_elements: "length (elements q) \<le> k \<Longrightarrow> drain k q = elements q"
proof (induction k arbitrary: q)
  case 0
  then show ?case by simp
next
  case (Suc k)
  show ?case
  proof (cases "elements q")
    case Nil
    then show ?thesis by (simp add: pop_None)
  next
    case (Cons e es)
    with Suc.prems have "length (elements (q\<lparr>elements := es\<rparr>)) \<le> k" by simp
    then have "drain k (q\<lparr>elements := es\<rparr>) = es" using Suc.IH by simp
    with Cons show ?thesis by (simp add: pop_Some)
  qed
qed

text \<open>
  C15.  The queue is first-in first-out: after pushing \<open>xs\<close>, popping as many times as
  there are elements returns the old elements and then \<open>xs\<close>, in order.
\<close>

theorem drain_push_all:
  "drain (length (elements q) + length xs) (push_all q xs) = elements q @ xs"
  using drain_elements [of "push_all q xs" "length (elements q) + length xs"] by simp

end
