(* ===== verification/Solver.thy ===== *)
theory Solver
  imports Maze Queue
begin

text \<open>
  The search itself: \<^verbatim>\<open>Node\<close> (lines 282--288) and the stepping half of \<^verbatim>\<open>MazeSolver\<close>
  (lines 293--374 and 403--409 of \<^verbatim>\<open>src/main.js\<close>): \<^verbatim>\<open>reset\<close>, \<^verbatim>\<open>resetQueue\<close>,
  \<^verbatim>\<open>step\<close>, \<^verbatim>\<open>getNeighbors\<close>, \<^verbatim>\<open>testTileFree\<close>, \<^verbatim>\<open>canStep\<close>, \<^verbatim>\<open>play\<close> and
  \<^verbatim>\<open>pause\<close>.  The solver's state is a record holding the maze it shares with the other
  objects, its queue of nodes, the \<^verbatim>\<open>solving\<close> flag and what has been drawn on the
  canvas (or logged to the console) so far, as a list of events.  The theory proves
  the invariant of the search (\<open>solver_inv\<close>) and that each step keeps it and lowers
  the measure \<open>count_false explored + length queue\<close> by one.
\<close>

record node =
  node_x :: int
  node_y :: int
  node_distance :: nat

definition node_pos :: "node \<Rightarrow> coord" where
  "node_pos nd = (node_x nd, node_y nd)"

text \<open>What the core draws: a visited tile (\<^verbatim>\<open>step\<close>), a path tile
  (\<^verbatim>\<open>PathViewer.draw\<close>) and the console message of an unsolvable maze.\<close>

datatype event = Visited int int | PathTile int int | NoSolution

record solver =
  maze :: maze
  queue :: "node queue"
  solving :: bool
  canvas :: "event list"

section \<open>Operations\<close>

definition seed :: node where
  "seed = \<lparr>node_x = 0, node_y = 0, node_distance = 0\<rparr>"

definition resetQueue :: "solver \<Rightarrow> solver" where
  "resetQueue s = s\<lparr>queue := new_queue [seed]\<rparr>"

definition reset :: "solver \<Rightarrow> error + solver" where
  "reset s = (case resetDistances (maze s) of
                Inl e \<Rightarrow> Inl e
              | Inr m \<Rightarrow> Inr (resetQueue (s\<lparr>maze := m\<rparr>)))"

text \<open>The constructor: no queue yet, not solving, then \<^verbatim>\<open>resetQueue\<close>.\<close>

definition new_solver :: "maze \<Rightarrow> solver" where
  "new_solver m = resetQueue \<lparr>maze = m, queue = new_queue [], solving = False, canvas = []\<rparr>"

definition testTileFree :: "maze \<Rightarrow> int \<Rightarrow> int \<Rightarrow> bool" where
  "testTileFree m x y \<longleftrightarrow> cell (maze_map m) x y \<noteq> Wall \<and> cell (explored m) x y = False"

definition getNeighbors :: "maze \<Rightarrow> int \<Rightarrow> int \<Rightarrow> coord list" where
  "getNeighbors m x y =
     filter (\<lambda>(a, b). inBounds m a b \<and> testTileFree m a b) (candidates x y)"

text \<open>The cost chain of \<^verbatim>\<open>step\<close>: \<open>1\<close> for an empty tile, \<open>2\<close> for a slow one, and
  \<^verbatim>\<open>cost\<close> left undefined otherwise (a wall, which \<^verbatim>\<open>getNeighbors\<close> never returns).\<close>

definition tile_cost :: "tile \<Rightarrow> nat" where
  "tile_cost t = (if t = Empty then 1 else if t = Slow then 2 else undefined)"

text \<open>The \<^verbatim>\<open>for\<close> loop of \<^verbatim>\<open>step\<close> over the neighbours: mark each explored and
  enqueue it with the distance of the node plus its cost.\<close>

fun push_neighbors :: "node \<Rightarrow> coord list \<Rightarrow> maze \<Rightarrow> node queue \<Rightarrow> maze \<times> node queue" where
  "push_neighbors nd [] m q = (m, q)"
| "push_neighbors nd ((a, b) # ps) m q =
     (let cost = tile_cost (cell (maze_map m) a b);
          newNode = \<lparr>node_x = a, node_y = b, node_distance = node_distance nd + cost\<rparr>
      in push_neighbors nd ps (m\<lparr>explored := set_cell (explored m) a b True\<rparr>) (push q newNode))"

text \<open>\<^verbatim>\<open>step()\<close>: pop the head node (a read of \<^verbatim>\<open>undefined.x\<close> when the queue is
  empty), finalise its distance, draw it, and push its free neighbours.\<close>

definition step :: "solver \<Rightarrow> error + solver" where
  "step s =
     (case pop (queue s) of
        (None, _) \<Rightarrow> Inl (TypeError ''node is undefined'')
      | (Some nd, q) \<Rightarrow>
          (let m = maze s;
               m1 = m\<lparr>distances := set_cell (distances m) (node_x nd) (node_y nd)
                                                        (enat (node_distance nd))\<rparr>;
               neighbors = getNeighbors m1 (node_x nd) (node_y nd);
               (m2, q2) = push_neighbors nd neighbors m1 q
           in Inr (s\<lparr>maze := m2, queue := q2,
                     canvas := canvas s @ [Visited (node_x nd) (node_y nd)]\<rparr>)))"

definition canStep :: "solver \<Rightarrow> error + bool" where
  "canStep s = (case solved (maze s) of
                  Inl e \<Rightarrow> Inl e
                | Inr b \<Rightarrow> Inr (\<not> b \<and> \<not> isEmpty (queue s)))"

definition play :: "solver \<Rightarrow> solver" where
  "play s = s\<lparr>solving := True\<rparr>"

definition pause :: "solver \<Rightarrow> solver" where
  "pause s = s\<lparr>solving := False\<rparr>"

section \<open>The loop of step, in closed form\<close>

definition mark_all :: "bool grid \<Rightarrow> coord list \<Rightarrow> bool grid" where
  "mark_all g ps = foldl (\<lambda>g (a, b). set_cell g a b True) g ps"

definition new_nodes :: "node \<Rightarrow> maze \<Rightarrow> coord list \<Rightarrow> node list" where
  "new_nodes nd m ps =
     map (\<lambda>(a, b). \<lparr>node_x = a, node_y = b,
                     node_distance = node_distance nd + tile_cost (cell (maze_map m) a b)\<rparr>) ps"

text \<open>The maze after one step from node \<open>nd\<close>.\<close>

definition step_maze :: "maze \<Rightarrow> node \<Rightarrow> maze" where
  "step_maze m nd =
     m\<lparr>distances := set_cell (distances m) (node_x nd) (node_y nd) (enat (node_distance nd)),
       explored := mark_all (explored m) (getNeighbors m (node_x nd) (node_y nd))\<rparr>"

section \<open>The invariant of the search\<close>

text \<open>Every queued node is a distinct in-bounds cell, explored but not yet finalised.\<close>

definition queue_ok :: "maze \<Rightarrow> node list \<Rightarrow> bool" where
  "queue_ok m Q \<longleftrightarrow> distinct (map node_pos Q) \<and>
     list_all (\<lambda>nd. in_range (maze_size m) (node_x nd) (node_y nd) \<and>
                    cell (explored m) (node_x nd) (node_y nd) \<and>
                    cell (distances m) (node_x nd) (node_y nd) = \<infinity>) Q"

text \<open>The origin is explored, and so is every finalised cell.\<close>

definition final_explored :: "maze \<Rightarrow> bool" where
  "final_explored m \<longleftrightarrow> cell (explored m) 0 0 \<and>
     all_cells (maze_size m) (\<lambda>x y. cell (distances m) x y \<noteq> \<infinity> \<longrightarrow> cell (explored m) x y)"

text \<open>A queued node at the origin carries distance 0; any other queued node has a
  finalised neighbour with a smaller distance than the one it carries.\<close>

definition queue_descent :: "maze \<Rightarrow> node list \<Rightarrow> bool" where
  "queue_descent m Q \<longleftrightarrow>
     list_all (\<lambda>nd. if node_pos nd = (0, 0) then node_distance nd = 0
                    else list_ex (\<lambda>(a, b). in_range (maze_size m) a b \<and>
                                  cell (distances m) a b < enat (node_distance nd))
                           (candidates (node_x nd) (node_y nd))) Q"

definition search_inv :: "maze \<Rightarrow> node list \<Rightarrow> bool" where
  "search_inv m Q \<longleftrightarrow>
     wf_maze m \<and> queue_ok m Q \<and> final_explored m \<and> descent m \<and> queue_descent m Q"

text \<open>
  \<^verbatim>\<open>BlockPlacer\<close> takes \<^verbatim>\<open>distances[0][0] === Infinity\<close> to mean that no search
  is under way.  That is sound because of this invariant: while the origin is not
  finalised, the queue holds only the seed and the fields are as
  \<^verbatim>\<open>resetDistances\<close> left them.
\<close>

definition lock_ok :: "maze \<Rightarrow> node list \<Rightarrow> bool" where
  "lock_ok m Q \<longleftrightarrow> (cell (distances m) 0 0 = \<infinity> \<longrightarrow> Q = [seed] \<and> fresh_fields m)"

definition solver_inv :: "solver \<Rightarrow> bool" where
  "solver_inv s \<longleftrightarrow> search_inv (maze s) (elements (queue s)) \<and> lock_ok (maze s) (elements (queue s))"

declare queue_ok_def [inv_defs] final_explored_def [inv_defs] queue_descent_def [inv_defs]
  search_inv_def [inv_defs] solver_inv_def [inv_defs] lock_ok_def [inv_defs]

text \<open>The termination measure of the search loop.\<close>

definition search_measure :: "solver \<Rightarrow> nat" where
  "search_measure s = count_false (explored (maze s)) + length (elements (queue s))"

section \<open>The closed form of step\<close>

lemma push_neighbors_closed:
  "push_neighbors nd ps m q =
     (m\<lparr>explored := mark_all (explored m) ps\<rparr>, push_all q (new_nodes nd m ps))"
proof (induction ps arbitrary: m q)
  case Nil
  then show ?case by (simp add: mark_all_def new_nodes_def push_all_def)
next
  case (Cons p ps)
  obtain a b where p: "p = (a, b)" by fastforce
  show ?case
    by (simp add: p Cons.IH mark_all_def new_nodes_def push_all_def)
qed

lemma square_mark_all [simp]: "square n g \<Longrightarrow> square n (mark_all g ps)"
  by (induction ps arbitrary: g) (auto simp: mark_all_def)

lemma cell_mark_all:
  assumes "square n g" "list_all (\<lambda>(a, b). in_range n a b) ps" "in_range n x y"
  shows "cell (mark_all g ps) x y = (cell g x y \<or> (x, y) \<in> set ps)"
  using assms
proof (induction ps arbitrary: g)
  case Nil
  then show ?case by (simp add: mark_all_def)
next
  case (Cons p ps)
  obtain a b where p: "p = (a, b)" by fastforce
  have sq: "square n (set_cell g a b True)" using Cons.prems(1) by simp
  have "cell (mark_all (set_cell g a b True) ps) x y =
        (cell (set_cell g a b True) x y \<or> (x, y) \<in> set ps)"
    using Cons.IH [OF sq] Cons.prems(2,3) by (simp add: p)
  moreover have "mark_all g (p # ps) = mark_all (set_cell g a b True) ps"
    by (simp add: mark_all_def p)
  ultimately show ?case
    using Cons.prems by (auto simp: p cell_set_cell)
qed

lemma count_false_mark_all:
  assumes "square n g" "distinct ps"
    "list_all (\<lambda>(a, b). in_range n a b \<and> \<not> cell g a b) ps"
  shows "count_false (mark_all g ps) + length ps = count_false g"
  using assms
proof (induction ps arbitrary: g)
  case Nil
  then show ?case by (simp add: mark_all_def)
next
  case (Cons p ps)
  obtain a b where p: "p = (a, b)" by fastforce
  let ?g = "set_cell g a b True"
  have sq: "square n ?g" using Cons.prems(1) by simp
  have ab: "in_range n a b" "\<not> cell g a b" using Cons.prems(3) by (simp_all add: p)
  have rest: "list_all (\<lambda>(c, d). in_range n c d \<and> \<not> cell ?g c d) ps"
  proof -
    have "in_range n c d \<and> \<not> cell ?g c d" if cd: "(c, d) \<in> set ps" for c d
    proof -
      have r: "in_range n c d" "\<not> cell g c d"
        using cd Cons.prems(3) by (auto simp: list_all_iff)
      have "(c, d) \<noteq> (a, b)" using cd Cons.prems(2) p by auto
      then show ?thesis
        using r ab(1) by (simp add: cell_set_cell [OF Cons.prems(1)])
    qed
    then show ?thesis by (auto simp: list_all_iff)
  qed
  have "count_false (mark_all ?g ps) + length ps = count_false ?g"
    using Cons.IH [OF sq _ rest] Cons.prems(2) by simp
  moreover have "count_false ?g + 1 = count_false g"
    using count_false_set_cell [OF Cons.prems(1) ab] .
  ultimately show ?case by (simp add: p mark_all_def)
qed

lemma getNeighbors_mem:
  "(a, b) \<in> set (getNeighbors m x y) \<longleftrightarrow>
     (a, b) \<in> set (candidates x y) \<and> in_range (maze_size m) a b \<and>
     cell (maze_map m) a b \<noteq> Wall \<and> \<not> cell (explored m) a b"
  by (auto simp: getNeighbors_def inBounds_in_range testTileFree_def)

lemma getNeighbors_distinct: "distinct (getNeighbors m x y)"
  by (simp add: getNeighbors_def)

lemma getNeighbors_distances [simp]:
  "getNeighbors (m\<lparr>distances := d\<rparr>) x y = getNeighbors m x y"
  by (simp add: getNeighbors_def inBounds_def testTileFree_def)

lemma new_nodes_distances [simp]: "new_nodes nd (m\<lparr>distances := d\<rparr>) ps = new_nodes nd m ps"
  by (simp add: new_nodes_def)

lemma node_pos_new_nodes [simp]: "map node_pos (new_nodes nd m ps) = ps"
  by (induction ps) (auto simp: new_nodes_def node_pos_def)

lemma tile_cost_pos: "t \<noteq> Wall \<Longrightarrow> 0 < tile_cost t"
  by (cases t) (simp_all add: tile_cost_def)

lemma step_cons:
  assumes "elements (queue s) = nd # rest"
  shows "step s =
    Inr (s\<lparr>maze := step_maze (maze s) nd,
           queue := (queue s)\<lparr>elements := rest @
              new_nodes nd (maze s) (getNeighbors (maze s) (node_x nd) (node_y nd))\<rparr>,
           canvas := canvas s @ [Visited (node_x nd) (node_y nd)]\<rparr>)"
  using assms
  by (simp add: step_def pop_Some push_neighbors_closed step_maze_def)

lemma step_empty:
  "elements (queue s) = [] \<Longrightarrow> step s = Inl (TypeError ''node is undefined'')"
  by (simp add: step_def pop_None)

section \<open>Preservation of the invariant\<close>

subsection \<open>The maze after one step\<close>

lemma step_maze_simps [simp]:
  "maze_size (step_maze m nd) = maze_size m"
  "maze_map (step_maze m nd) = maze_map m"
  "wallFreq (step_maze m nd) = wallFreq m"
  by (simp_all add: step_maze_def)

lemma getNeighbors_in_range:
  "list_all (\<lambda>(a, b). in_range (maze_size m) a b) (getNeighbors m x y)"
  using getNeighbors_mem [of _ _ m x y] by (auto simp: list_all_iff)

lemma step_maze_wf: "wf_maze m \<Longrightarrow> wf_maze (step_maze m nd)"
  by (simp add: wf_maze_def step_maze_def)

lemma step_maze_distances:
  assumes "wf_maze m" "in_range (maze_size m) (node_x nd) (node_y nd)"
    "in_range (maze_size m) a b"
  shows "cell (distances (step_maze m nd)) a b =
           (if (a, b) = node_pos nd then enat (node_distance nd) else cell (distances m) a b)"
  using assms wf_maze_squares [OF assms(1)]
  by (simp add: step_maze_def node_pos_def cell_set_cell)

lemma step_maze_explored:
  assumes "wf_maze m" "in_range (maze_size m) a b"
  shows "cell (explored (step_maze m nd)) a b =
           (cell (explored m) a b \<or> (a, b) \<in> set (getNeighbors m (node_x nd) (node_y nd)))"
  using cell_mark_all [OF wf_maze_squares(4) [OF assms(1)] getNeighbors_in_range assms(2)]
  by (simp add: step_maze_def)

subsection \<open>One step keeps the invariant and lowers the measure\<close>

lemma list_all_new_nodes:
  "list_all (\<lambda>nd'. P (node_x nd') (node_y nd')) (new_nodes nd m ps) = list_all (\<lambda>(a, b). P a b) ps"
  by (induction ps) (auto simp: new_nodes_def)

lemma new_nodes_pos: "r \<in> set (new_nodes nd m ps) \<Longrightarrow> (node_x r, node_y r) \<in> set ps"
  by (auto simp: new_nodes_def)

lemma search_inv_head:
  assumes "search_inv m (nd # rest)"
  shows "wf_maze m" "in_range (maze_size m) (node_x nd) (node_y nd)"
    "cell (explored m) (node_x nd) (node_y nd)" "cell (distances m) (node_x nd) (node_y nd) = \<infinity>"
    "node_pos nd \<notin> set (map node_pos rest)"
  using assms by (simp_all add: search_inv_def queue_ok_def)

lemma unexplored_infinite:
  assumes "final_explored m" "in_range (maze_size m) a b" "\<not> cell (explored m) a b"
  shows "cell (distances m) a b = \<infinity>"
  using assms unfolding final_explored_def all_cells_iff by blast

lemma getNeighbors_fresh:
  assumes "search_inv m (nd # rest)" "(a, b) \<in> set (getNeighbors m (node_x nd) (node_y nd))"
  shows "in_range (maze_size m) a b" "\<not> cell (explored m) a b" "(a, b) \<noteq> node_pos nd"
    "cell (distances m) a b = \<infinity>" "cell (maze_map m) a b \<noteq> Wall" "(a, b) \<noteq> (0, 0)"
    "(a, b) \<in> set (candidates (node_x nd) (node_y nd))"
proof -
  have fe: "final_explored m" using assms(1) by (simp add: search_inv_def)
  show r: "in_range (maze_size m) a b" and u: "\<not> cell (explored m) a b"
    and "cell (maze_map m) a b \<noteq> Wall" and c: "(a, b) \<in> set (candidates (node_x nd) (node_y nd))"
    using assms(2) by (simp_all add: getNeighbors_mem)
  show "(a, b) \<noteq> node_pos nd" using c by (auto simp: node_pos_def)
  show "cell (distances m) a b = \<infinity>" using unexplored_infinite [OF fe r u] .
  show "(a, b) \<noteq> (0, 0)" using fe u by (auto simp: final_explored_def)
qed

lemma step_queue_ok:
  assumes inv: "search_inv m (nd # rest)"
  shows "queue_ok (step_maze m nd) (rest @ new_nodes nd m (getNeighbors m (node_x nd) (node_y nd)))"
proof -
  let ?N = "getNeighbors m (node_x nd) (node_y nd)"
  let ?n = "maze_size m"
  note head = search_inv_head [OF inv]
  have q: "queue_ok m (nd # rest)" using inv by (simp add: search_inv_def)
  have restP: "in_range ?n (node_x r) (node_y r) \<and> cell (explored m) (node_x r) (node_y r)
      \<and> cell (distances m) (node_x r) (node_y r) = \<infinity> \<and> node_pos r \<noteq> node_pos nd"
    if "r \<in> set rest" for r
  proof -
    have "node_pos r \<noteq> node_pos nd"
      using head(5) that by (metis image_eqI list.set_map)
    then show ?thesis
      using q that by (auto simp: queue_ok_def list_all_iff)
  qed
  have disj: "set (map node_pos rest) \<inter> set ?N = {}"
  proof -
    have "node_pos r \<notin> set ?N" if r: "r \<in> set rest" for r
    proof
      assume "node_pos r \<in> set ?N"
      then have "\<not> cell (explored m) (node_x r) (node_y r)"
        using getNeighbors_fresh(2) [OF inv, of "node_x r" "node_y r"] by (simp add: node_pos_def)
      with restP [OF r] show False by simp
    qed
    then show ?thesis by auto
  qed
  have dist: "distinct (map node_pos (rest @ new_nodes nd m ?N))"
    using q disj getNeighbors_distinct [of m] by (simp add: queue_ok_def)
  have old: "list_all (\<lambda>r. in_range ?n (node_x r) (node_y r) \<and>
      cell (explored (step_maze m nd)) (node_x r) (node_y r) \<and>
      cell (distances (step_maze m nd)) (node_x r) (node_y r) = \<infinity>) rest"
    using restP head(1,2)
    by (auto simp: list_all_iff step_maze_distances step_maze_explored node_pos_def)
  have new: "list_all (\<lambda>(a, b). in_range ?n a b \<and>
      cell (explored (step_maze m nd)) a b \<and> cell (distances (step_maze m nd)) a b = \<infinity>) ?N"
    using getNeighbors_fresh [OF inv] head(1,2)
    by (auto simp: list_all_iff step_maze_distances step_maze_explored)
  have new': "list_all (\<lambda>r. in_range ?n (node_x r) (node_y r) \<and>
      cell (explored (step_maze m nd)) (node_x r) (node_y r) \<and>
      cell (distances (step_maze m nd)) (node_x r) (node_y r) = \<infinity>) (new_nodes nd m ?N)"
    using new by (fastforce simp: list_all_iff dest: new_nodes_pos)
  show ?thesis
    using dist old new' by (simp add: queue_ok_def)
qed

lemma step_final_explored:
  assumes inv: "search_inv m (nd # rest)"
  shows "final_explored (step_maze m nd)"
proof -
  note head = search_inv_head [OF inv]
  let ?m' = "step_maze m nd" and ?n = "maze_size m"
  have fe: "final_explored m" using inv by (simp add: search_inv_def)
  have n: "0 < ?n" using wf_maze_squares(1) [OF head(1)] .
  have o: "cell (explored ?m') 0 0"
    using fe n by (simp add: final_explored_def step_maze_explored [OF head(1)])
  have "cell (explored ?m') x y" if r: "in_range ?n x y" and d: "cell (distances ?m') x y \<noteq> \<infinity>" for x y
  proof (cases "(x, y) = node_pos nd")
    case True
    then show ?thesis
      using head(3) r by (simp add: step_maze_explored [OF head(1)] node_pos_def)
  next
    case False
    then have "cell (distances m) x y \<noteq> \<infinity>"
      using d r head(2) by (simp add: step_maze_distances [OF head(1)])
    then have "cell (explored m) x y"
      using fe r unfolding final_explored_def all_cells_iff by blast
    then show ?thesis
      using r by (simp add: step_maze_explored [OF head(1)])
  qed
  with o show ?thesis by (simp add: final_explored_def all_cells_iff)
qed

lemma less_not_infinite: "(a :: enat) < b \<Longrightarrow> a \<noteq> \<infinity>"
  by (cases a) simp_all

lemma step_descent:
  assumes inv: "search_inv m (nd # rest)"
  shows "descent (step_maze m nd)"
proof -
  note head = search_inv_head [OF inv]
  let ?m' = "step_maze m nd" and ?n = "maze_size m"
  let ?d = "distances m" and ?d' = "distances (step_maze m nd)"
  have dm: "descent m" and qd: "queue_descent m (nd # rest)"
    using inv by (simp_all add: search_inv_def)
  have d': "cell ?d' a b = (if (a, b) = node_pos nd then enat (node_distance nd) else cell ?d a b)"
    if "in_range ?n a b" for a b
    using step_maze_distances [OF head(1,2) that] .
  have "\<exists>(a, b)\<in>set (candidates x y). in_range ?n a b \<and> cell ?d' a b < cell ?d' x y"
    if r: "in_range ?n x y" and o: "(x, y) \<noteq> (0, 0)" and f: "cell ?d' x y \<noteq> \<infinity>" for x y
  proof (cases "(x, y) = node_pos nd")
    case True
    then have "node_pos nd \<noteq> (0, 0)" using o by simp
    then obtain a b where ab: "(a, b) \<in> set (candidates x y)" "in_range ?n a b"
        "cell ?d a b < enat (node_distance nd)"
      using qd True by (auto simp: queue_descent_def list_ex_iff node_pos_def)
    have "(a, b) \<noteq> node_pos nd" using ab(1) True by (metis candidates_not_self)
    then show ?thesis
      using ab True r d' by fastforce
  next
    case False
    then have "cell ?d x y \<noteq> \<infinity>" using f r d' by simp
    then obtain a b where ab: "(a, b) \<in> set (candidates x y)" "in_range ?n a b"
        "cell ?d a b < cell ?d x y"
      using dm r o unfolding descent_def all_cells_iff list_ex_iff by blast
    have "(a, b) \<noteq> node_pos nd"
      using less_not_infinite [OF ab(3)] head(4) by (auto simp: node_pos_def)
    then show ?thesis
      using ab False r d' by fastforce
  qed
  then show ?thesis
    by (simp add: descent_def all_cells_iff list_ex_iff)
qed

lemma new_nodes_mem:
  "r \<in> set (new_nodes nd m ps) \<Longrightarrow>
   \<exists>a b. (a, b) \<in> set ps \<and> node_x r = a \<and> node_y r = b \<and>
     node_distance r = node_distance nd + tile_cost (cell (maze_map m) a b)"
  by (auto simp: new_nodes_def)

lemma step_queue_descent:
  assumes inv: "search_inv m (nd # rest)"
  shows "queue_descent (step_maze m nd)
           (rest @ new_nodes nd m (getNeighbors m (node_x nd) (node_y nd)))"
proof -
  note head = search_inv_head [OF inv]
  let ?n = "maze_size m" and ?N = "getNeighbors m (node_x nd) (node_y nd)"
  let ?d = "distances m" and ?d' = "distances (step_maze m nd)"
  have qd: "queue_descent m (nd # rest)" using inv by (simp add: search_inv_def)
  have d': "cell ?d' a b = (if (a, b) = node_pos nd then enat (node_distance nd) else cell ?d a b)"
    if "in_range ?n a b" for a b
    using step_maze_distances [OF head(1,2) that] .
  have old: "\<exists>(a, b)\<in>set (candidates (node_x r) (node_y r)).
               in_range ?n a b \<and> cell ?d' a b < enat (node_distance r)"
    if r: "r \<in> set rest" "node_pos r \<noteq> (0, 0)" for r
  proof -
    have "list_ex (\<lambda>(a, b). in_range ?n a b \<and> cell ?d a b < enat (node_distance r))
            (candidates (node_x r) (node_y r))"
      using qd r by (simp add: queue_descent_def list_all_iff)
    then obtain a b where ab: "(a, b) \<in> set (candidates (node_x r) (node_y r))" "in_range ?n a b"
        "cell ?d a b < enat (node_distance r)"
      by (auto simp: list_ex_iff)
    have "(a, b) \<noteq> node_pos nd"
      using less_not_infinite [OF ab(3)] head(4) by (auto simp: node_pos_def)
    then show ?thesis using ab d' by fastforce
  qed
  have new: "\<exists>(a, b)\<in>set (candidates (node_x r) (node_y r)).
               in_range ?n a b \<and> cell ?d' a b < enat (node_distance r)"
    and new0: "node_pos r \<noteq> (0, 0)"
    if r: "r \<in> set (new_nodes nd m ?N)" for r
  proof -
    obtain a b where ab: "(a, b) \<in> set ?N" "node_x r = a" "node_y r = b"
        "node_distance r = node_distance nd + tile_cost (cell (maze_map m) a b)"
      using new_nodes_mem [OF r] by blast
    note fr = getNeighbors_fresh [OF inv ab(1)]
    show "node_pos r \<noteq> (0, 0)" using fr(6) ab(2,3) by (simp add: node_pos_def)
    have c: "node_pos nd \<in> set (candidates a b)"
      using fr(7) candidates_sym by (simp add: node_pos_def)
    have "0 < tile_cost (cell (maze_map m) a b)" using tile_cost_pos [OF fr(5)] .
    then have "cell ?d' (node_x nd) (node_y nd) < enat (node_distance r)"
      using d' [OF head(2)] ab(4) by (simp add: node_pos_def)
    then show "\<exists>(a, b)\<in>set (candidates (node_x r) (node_y r)).
               in_range ?n a b \<and> cell ?d' a b < enat (node_distance r)"
      using c head(2) ab(2,3) by (auto simp: node_pos_def)
  qed
  have "list_all (\<lambda>r. node_pos r = (0, 0) \<longrightarrow> node_distance r = 0) rest"
    using qd by (auto simp: queue_descent_def list_all_iff)
  then show ?thesis
    using old new new0 by (auto simp: queue_descent_def list_all_iff list_ex_iff)
qed

lemma step_measure:
  assumes inv: "search_inv m (nd # rest)"
  shows "count_false (explored (step_maze m nd)) +
           length (rest @ new_nodes nd m (getNeighbors m (node_x nd) (node_y nd))) + 1 =
         count_false (explored m) + length (nd # rest)"
proof -
  note head = search_inv_head [OF inv]
  let ?N = "getNeighbors m (node_x nd) (node_y nd)"
  have "list_all (\<lambda>(a, b). in_range (maze_size m) a b \<and> \<not> cell (explored m) a b) ?N"
    using getNeighbors_fresh(1,2) [OF inv] by (auto simp: list_all_iff)
  then have "count_false (mark_all (explored m) ?N) + length ?N = count_false (explored m)"
    using count_false_mark_all [OF wf_maze_squares(4) [OF head(1)] getNeighbors_distinct] by blast
  then show ?thesis
    by (simp add: step_maze_def new_nodes_def)
qed

lemma step_search_inv:
  assumes "search_inv m (nd # rest)"
  shows "search_inv (step_maze m nd) (rest @ new_nodes nd m (getNeighbors m (node_x nd) (node_y nd)))"
  using step_queue_ok [OF assms] step_final_explored [OF assms] step_descent [OF assms]
    step_queue_descent [OF assms] step_maze_wf [OF search_inv_head(1) [OF assms]]
  by (simp add: search_inv_def)

text \<open>After a step the origin is finalised: either the step popped the seed, or the
  origin was finalised before and keeps its distance.\<close>

lemma step_origin_final:
  assumes inv: "search_inv m (nd # rest)" and lock: "lock_ok m (nd # rest)"
  shows "cell (distances (step_maze m nd)) 0 0 \<noteq> \<infinity>"
proof -
  note head = search_inv_head [OF inv]
  have o: "in_range (maze_size m) 0 0" using wf_maze_squares(1) [OF head(1)] by simp
  show ?thesis
  proof (cases "cell (distances m) 0 0 = \<infinity>")
    case True
    then have "nd = seed" using lock by (simp add: lock_ok_def)
    then show ?thesis
      using step_maze_distances [OF head(1,2) o] by (simp add: seed_def node_pos_def)
  next
    case False
    then have "node_pos nd \<noteq> (0, 0)" using head(4) by (auto simp: node_pos_def)
    then show ?thesis
      using False step_maze_distances [OF head(1,2) o] by auto
  qed
qed

lemma step_inv:
  assumes "solver_inv s" "\<not> isEmpty (queue s)"
  shows "\<exists>s'. step s = Inr s' \<and> solver_inv s' \<and> search_measure s' + 1 = search_measure s"
proof -
  obtain nd rest where q: "elements (queue s) = nd # rest"
    using assms(2) by (cases "elements (queue s)") (auto simp: isEmpty_def)
  have inv: "search_inv (maze s) (nd # rest)" and lock: "lock_ok (maze s) (nd # rest)"
    using assms(1) q by (simp_all add: solver_inv_def)
  have "lock_ok (step_maze (maze s) nd) l" for l
    using step_origin_final [OF inv lock] unfolding lock_ok_def by blast
  then show ?thesis
    using step_search_inv [OF inv] step_measure [OF inv]
    by (simp add: step_cons [OF q] solver_inv_def search_measure_def q)
qed

section \<open>Properties of a step\<close>

text \<open>
  C1.  From any state satisfying the search invariant with a non-empty queue,
  \<^verbatim>\<open>step()\<close> does not throw; it finalises the head node at the distance the node
  carries, draws it, keeps the invariant and lowers the termination measure.
\<close>

theorem step_keeps_invariant:
  assumes "solver_inv s" "\<not> isEmpty (queue s)"
  shows "\<exists>s'. step s = Inr s' \<and> solver_inv s' \<and> search_measure s' < search_measure s \<and>
           cell (distances (maze s')) (node_x (hd (elements (queue s)))) (node_y (hd (elements (queue s))))
             = enat (node_distance (hd (elements (queue s)))) \<and>
           canvas s' = canvas s @ [Visited (node_x (hd (elements (queue s)))) (node_y (hd (elements (queue s))))]"
proof -
  obtain nd rest where q: "elements (queue s) = nd # rest"
    using assms(2) by (cases "elements (queue s)") (auto simp: isEmpty_def)
  obtain s' where s': "step s = Inr s'" "solver_inv s'" "search_measure s' + 1 = search_measure s"
    using step_inv [OF assms] by blast
  have inv: "search_inv (maze s) (nd # rest)" using assms(1) q by (simp add: solver_inv_def)
  note head = search_inv_head [OF inv]
  have eq: "s' = s\<lparr>maze := step_maze (maze s) nd,
      queue := (queue s)\<lparr>elements := rest @ new_nodes nd (maze s) (getNeighbors (maze s) (node_x nd) (node_y nd))\<rparr>,
      canvas := canvas s @ [Visited (node_x nd) (node_y nd)]\<rparr>"
    using s'(1) by (simp add: step_cons [OF q])
  have "cell (distances (maze s')) (node_x nd) (node_y nd) = enat (node_distance nd)"
    using step_maze_distances [OF head(1,2) head(2)] by (simp add: eq node_pos_def)
  moreover have "canvas s' = canvas s @ [Visited (node_x nd) (node_y nd)]"
    by (simp add: eq)
  ultimately show ?thesis using s' q by auto
qed

text \<open>
  C13.  \<^verbatim>\<open>step()\<close> on an empty queue reads \<^verbatim>\<open>node.x\<close> of \<^verbatim>\<open>undefined\<close> and throws
  a \<^verbatim>\<open>TypeError\<close>; the callers in the source guard it with \<^verbatim>\<open>canStep()\<close>.
\<close>

theorem step_empty_error:
  "isEmpty (queue s) \<Longrightarrow> step s = Inl (TypeError ''node is undefined'')"
  by (simp add: isEmpty_def step_empty)

end
