(* ===== verification/PathViewer.thy ===== *)
theory PathViewer
  imports Maze
begin

text \<open>
  \<^verbatim>\<open>PathViewer.draw\<close> (lines 470--508 of \<^verbatim>\<open>src/main.js\<close>): starting at the goal
  corner it draws the current tile, stops at the origin, and otherwise moves to the
  in-bounds neighbour with the strictly smallest distance, the first one in the order
  \<open>+x, -x, +y, -y\<close> on a tie.  The inner \<^verbatim>\<open>for\<close> loop is \<open>pick_best\<close>; the
  \<^verbatim>\<open>while(true)\<close> loop, which need not end on an arbitrary distance field, is the
  \<^theory_text>\<open>partial_function (option)\<close> \<open>walk\<close>, \<open>None\<close> meaning that it runs forever.
  When no neighbour beats \<^verbatim>\<open>Infinity\<close>, \<^verbatim>\<open>bestCoord\<close> stays \<^verbatim>\<open>undefined\<close> and
  \<^verbatim>\<open>bestCoord.x\<close> throws.  The result is the list of tiles drawn, goal first.
  The theory proves that on a distance field with the property \<open>descent\<close> the walk
  returns, and returns a path down the field from any reached cell to the origin.
\<close>

section \<open>Operations\<close>

fun pick_best :: "maze \<Rightarrow> coord list \<Rightarrow> enat \<Rightarrow> coord option \<Rightarrow> coord option" where
  "pick_best m [] bestDistance bestCoord = bestCoord"
| "pick_best m ((a, b) # ps) bestDistance bestCoord =
     (if inBounds m a b \<and> cell (distances m) a b < bestDistance
      then pick_best m ps (cell (distances m) a b) (Some (a, b))
      else pick_best m ps bestDistance bestCoord)"

partial_function (option) walk :: "maze \<Rightarrow> int \<Rightarrow> int \<Rightarrow> (error + coord list) option" where
  "walk m x y =
     (if x = 0 \<and> y = 0 then Some (Inr [(x, y)])
      else (case pick_best m (candidates x y) \<infinity> None of
              None \<Rightarrow> Some (Inl (TypeError ''bestCoord is undefined''))
            | Some (a, b) \<Rightarrow>
                Option.bind (walk m a b) (\<lambda>r. Some (map_sum id (Cons (x, y)) r))))"

declare walk.simps [code]

definition draw_path :: "maze \<Rightarrow> (error + coord list) option" where
  "draw_path m = walk m (int (maze_size m) - 1) (int (maze_size m) - 1)"

section \<open>Paths down the distance field\<close>

text \<open>Each tile of the path is an axis-aligned neighbour of the one before, with a
  strictly smaller distance.\<close>

fun steps_down :: "maze \<Rightarrow> coord list \<Rightarrow> bool" where
  "steps_down m (p # q # rest) =
     (q \<in> set (candidates (fst p) (snd p)) \<and>
      cell (distances m) (fst q) (snd q) < cell (distances m) (fst p) (snd p) \<and>
      steps_down m (q # rest))"
| "steps_down m _ = True"

definition path_from :: "maze \<Rightarrow> coord \<Rightarrow> coord list \<Rightarrow> bool" where
  "path_from m c p \<longleftrightarrow>
     p \<noteq> [] \<and> hd p = c \<and> last p = (0, 0) \<and> steps_down m p \<and>
     list_all (\<lambda>(a, b). in_range (maze_size m) a b \<and> cell (distances m) a b \<noteq> \<infinity>) p"

section \<open>The walk returns a path down the field\<close>

lemma pick_best_Some:
  "pick_best m ps bd bc = Some r \<Longrightarrow>
     (r \<in> set ps \<and> inBounds m (fst r) (snd r) \<and> cell (distances m) (fst r) (snd r) < bd \<and>
      (\<forall>(a, b)\<in>set ps. inBounds m a b \<longrightarrow> cell (distances m) (fst r) (snd r) \<le> cell (distances m) a b))
   \<or> (bc = Some r \<and> (\<forall>(a, b)\<in>set ps. inBounds m a b \<longrightarrow> bd \<le> cell (distances m) a b))"
proof (induction m ps bd bc rule: pick_best.induct)
  case (1 m bd bc)
  then show ?case by simp
next
  case (2 m a b ps bd bc)
  show ?case
  proof (cases "inBounds m a b \<and> cell (distances m) a b < bd")
    case True
    with "2.prems" have "pick_best m ps (cell (distances m) a b) (Some (a, b)) = Some r" by simp
    with "2.IH"(1) True show ?thesis by (fastforce simp: not_le)
  next
    case False
    with "2.prems" have "pick_best m ps bd bc = Some r" by simp
    with "2.IH"(2) False show ?thesis by (fastforce simp: not_le)
  qed
qed

lemma pick_best_not_None:
  "(\<exists>(a, b)\<in>set ps. inBounds m a b \<and> cell (distances m) a b < bd) \<or> bc \<noteq> None \<Longrightarrow>
   pick_best m ps bd bc \<noteq> None"
proof (induction m ps bd bc rule: pick_best.induct)
  case (1 m bd bc)
  then show ?case by simp
next
  case (2 m a b ps bd bc)
  show ?case
  proof (cases "inBounds m a b \<and> cell (distances m) a b < bd")
    case True
    then show ?thesis using "2.IH"(1) by simp
  next
    case False
    with "2.prems" have "(\<exists>(c, d)\<in>set ps. inBounds m c d \<and> cell (distances m) c d < bd) \<or> bc \<noteq> None"
      by auto
    then have ih: "pick_best m ps bd bc \<noteq> None" using "2.IH"(2) [OF False] by blast
    have "pick_best m ((a, b) # ps) bd bc = pick_best m ps bd bc"
      using False by (simp only: pick_best.simps if_False)
    with ih show ?thesis by (simp del: pick_best.simps)
  qed
qed

lemma path_from_origin: "path_from m (0, 0) [(0, 0)] \<longleftrightarrow>
    in_range (maze_size m) 0 0 \<and> cell (distances m) 0 0 \<noteq> \<infinity>"
  by (simp add: path_from_def)

lemma path_from_Cons:
  assumes "path_from m c p" "c \<in> set (candidates x y)" "in_range (maze_size m) x y"
    "cell (distances m) (fst c) (snd c) < cell (distances m) x y" "cell (distances m) x y \<noteq> \<infinity>"
  shows "path_from m (x, y) ((x, y) # p)"
proof -
  obtain q where p: "p = c # q" using assms(1) by (cases p) (auto simp: path_from_def)
  then show ?thesis using assms by (simp add: path_from_def)
qed

lemma walk_path:
  assumes dm: "descent m" and r: "in_range (maze_size m) x y"
    and k: "cell (distances m) x y = enat k"
  shows "\<exists>p. walk m x y = Some (Inr p) \<and> path_from m (x, y) p"
  using r k
proof (induction k arbitrary: x y rule: less_induct)
  case (less k)
  show ?case
  proof (cases "x = 0 \<and> y = 0")
    case True
    have "walk m 0 0 = Some (Inr [(0, 0)])" by (simp add: walk.simps [of m 0 0])
    then show ?thesis using True less.prems by (simp add: path_from_def)
  next
    case False
    then obtain a b where ab: "(a, b) \<in> set (candidates x y)" "in_range (maze_size m) a b"
        "cell (distances m) a b < enat k"
      using dm less.prems unfolding descent_def all_cells_iff list_ex_iff by fastforce
    then have "pick_best m (candidates x y) \<infinity> None \<noteq> None"
      using pick_best_not_None [of "candidates x y" m \<infinity> None]
      by (fastforce simp: inBounds_in_range)
    then obtain c where pb: "pick_best m (candidates x y) \<infinity> None = Some c" by blast
    have c: "c \<in> set (candidates x y)" "in_range (maze_size m) (fst c) (snd c)"
        "cell (distances m) (fst c) (snd c) \<le> cell (distances m) a b"
      using pick_best_Some [OF pb] ab by (auto simp: inBounds_in_range)
    have lt: "cell (distances m) (fst c) (snd c) < enat k"
      using c(3) ab(3) by (rule le_less_trans)
    then obtain k' where k': "cell (distances m) (fst c) (snd c) = enat k'" "k' < k"
      by (cases "cell (distances m) (fst c) (snd c)") auto
    obtain p where p: "walk m (fst c) (snd c) = Some (Inr p)" "path_from m c p"
      using less.IH [OF k'(2) c(2) k'(1)] by auto
    have "walk m x y = Some (Inr ((x, y) # p))"
      using False pb p(1) by (cases c) (auto simp: walk.simps [of m x y])
    moreover have "path_from m (x, y) ((x, y) # p)"
      using path_from_Cons [OF p(2) c(1) less.prems(1)] k' less.prems(2) by simp
    ultimately show ?thesis by blast
  qed
qed

text \<open>On a well-formed maze whose distance field has the property \<open>descent\<close> and
  whose goal is reached, \<^verbatim>\<open>draw()\<close> returns the path from the goal to the origin.\<close>

lemma draw_path_ok:
  assumes "wf_maze m" "descent m" "solved m = Inr True"
  shows "\<exists>p. draw_path m = Some (Inr p) \<and> path_from m (goal m) p"
proof -
  have n: "0 < maze_size m" using wf_maze_squares(1) [OF assms(1)] .
  obtain k where k: "cell (distances m) (int (maze_size m) - 1) (int (maze_size m) - 1) = enat k"
    using assms(3) solved_wf [OF assms(1)] by auto
  show ?thesis
    using walk_path [OF assms(2) in_range_corner [OF n] k] by (simp add: draw_path_def)
qed

end
