(* ===== verification/SolverLoop.thy ===== *)
theory SolverLoop
  imports Solver PathViewer
begin

text \<open>
  The driving half of \<^verbatim>\<open>MazeSolver\<close> (lines 376--401 of \<^verbatim>\<open>src/main.js\<close>):
  \<^verbatim>\<open>solveLoop\<close>, the timer tick, and \<^verbatim>\<open>skip\<close>, which steps while \<^verbatim>\<open>canStep()\<close>
  holds and then draws the path if the goal was reached.  The \<^verbatim>\<open>while\<close> loop of
  \<^verbatim>\<open>skip\<close> is the \<^theory_text>\<open>partial_function (option)\<close> \<open>skip_loop\<close>; that it returns
  from every state satisfying \<open>solver_inv\<close> is proved by induction on
  \<open>search_measure\<close>.  \<^verbatim>\<open>this.pathViewer.draw()\<close> appends the tiles of the path to
  the canvas, goal first.
\<close>

section \<open>Operations\<close>

definition pathViewer_draw :: "solver \<Rightarrow> (error + solver) option" where
  "pathViewer_draw s =
     map_option (map_sum id (\<lambda>p. s\<lparr>canvas := canvas s @ map (\<lambda>(x, y). PathTile x y) p\<rparr>))
       (draw_path (maze s))"

partial_function (option) skip_loop :: "solver \<Rightarrow> (error + solver) option" where
  "skip_loop s =
     (case canStep s of
        Inl e \<Rightarrow> Some (Inl e)
      | Inr b \<Rightarrow>
          (if b then (case step s of Inl e \<Rightarrow> Some (Inl e) | Inr s' \<Rightarrow> skip_loop s')
           else Some (Inr s)))"

declare skip_loop.simps [code]

definition skip :: "solver \<Rightarrow> (error + solver) option" where
  "skip s =
     Option.bind (skip_loop s)
       (\<lambda>r. case r of
              Inl e \<Rightarrow> Some (Inl e)
            | Inr s' \<Rightarrow> (case solved (maze s') of
                          Inl e \<Rightarrow> Some (Inl e)
                        | Inr b \<Rightarrow> if b then pathViewer_draw s' else Some (Inr s')))"

text \<open>One tick of \<^verbatim>\<open>window.setInterval(mazeSolver.solveLoop, 1)\<close>.\<close>

definition solveLoop :: "solver \<Rightarrow> (error + solver) option" where
  "solveLoop s =
     (if solving s then
        (case solved (maze s) of
           Inl e \<Rightarrow> Some (Inl e)
         | Inr b \<Rightarrow>
             (if b then map_option (map_sum id pause) (pathViewer_draw s)
              else if isEmpty (queue s) then
                Some (Inr (pause (s\<lparr>canvas := canvas s @ [NoSolution]\<rparr>)))
              else Some (step s)))
      else Some (Inr s))"

text \<open>The events a run of steps draws.\<close>

definition visited_events :: "event list \<Rightarrow> bool" where
  "visited_events es \<longleftrightarrow> list_all (\<lambda>e. case e of Visited _ _ \<Rightarrow> True | _ \<Rightarrow> False) es"

section \<open>The loop of skip returns\<close>

lemma solver_inv_wf: "solver_inv s \<Longrightarrow> wf_maze (maze s)"
  by (simp add: solver_inv_def search_inv_def)

lemma canStep_inv:
  "solver_inv s \<Longrightarrow>
   canStep s = Inr (cell (distances (maze s)) (fst (goal (maze s))) (snd (goal (maze s))) = \<infinity> \<and>
                    \<not> isEmpty (queue s))"
  by (simp add: canStep_def solved_wf [OF solver_inv_wf])

lemma step_frame:
  assumes "step s = Inr s'"
  shows "solving s' = solving s" "maze_map (maze s') = maze_map (maze s)"
    "maze_size (maze s') = maze_size (maze s)" "wallFreq (maze s') = wallFreq (maze s)"
    "\<exists>x y. canvas s' = canvas s @ [Visited x y]"
proof -
  obtain nd rest where q: "elements (queue s) = nd # rest"
    using assms by (cases "elements (queue s)") (auto simp: step_empty)
  show "solving s' = solving s" "maze_map (maze s') = maze_map (maze s)"
    "maze_size (maze s') = maze_size (maze s)" "wallFreq (maze s') = wallFreq (maze s)"
    "\<exists>x y. canvas s' = canvas s @ [Visited x y]"
    using assms by (auto simp: step_cons [OF q])
qed

lemma skip_loop_returns:
  assumes "solver_inv s"
  shows "\<exists>s'. skip_loop s = Some (Inr s') \<and> solver_inv s' \<and> canStep s' = Inr False \<and>
           solving s' = solving s \<and> maze_map (maze s') = maze_map (maze s) \<and>
           maze_size (maze s') = maze_size (maze s) \<and> wallFreq (maze s') = wallFreq (maze s) \<and>
           (\<exists>vs. canvas s' = canvas s @ vs \<and> visited_events vs)"
  using assms
proof (induction "search_measure s" arbitrary: s rule: less_induct)
  case less
  show ?case
  proof (cases "canStep s = Inr True")
    case True
    then have ne: "\<not> isEmpty (queue s)" using canStep_inv [OF less.prems] by simp
    obtain s1 where s1: "step s = Inr s1" "solver_inv s1" "search_measure s1 + 1 = search_measure s"
      using step_inv [OF less.prems ne] by blast
    obtain s' where s': "skip_loop s1 = Some (Inr s')" "solver_inv s'" "canStep s' = Inr False"
        "solving s' = solving s1" "maze_map (maze s') = maze_map (maze s1)"
        "maze_size (maze s') = maze_size (maze s1)" "wallFreq (maze s') = wallFreq (maze s1)"
        "\<exists>vs. canvas s' = canvas s1 @ vs \<and> visited_events vs"
      using less.hyps [of s1] s1(2,3) by auto
    have "skip_loop s = skip_loop s1"
      using True s1(1) by (simp add: skip_loop.simps [of s])
    moreover obtain x y where "canvas s1 = canvas s @ [Visited x y]"
      using step_frame(5) [OF s1(1)] by blast
    ultimately show ?thesis
      using s' step_frame(1-4) [OF s1(1)] by (auto simp: visited_events_def)
  next
    case False
    then have "canStep s = Inr False" using canStep_inv [OF less.prems] by simp
    then show ?thesis
      using less.prems by (auto simp: skip_loop.simps [of s] visited_events_def)
  qed
qed

lemma solver_inv_canvas [simp]: "solver_inv (s\<lparr>canvas := c\<rparr>) = solver_inv s"
  by (simp add: solver_inv_def)

lemma solver_inv_solving [simp]: "solver_inv (s\<lparr>solving := b\<rparr>) = solver_inv s"
  by (simp add: solver_inv_def)

lemma solver_inv_descent: "solver_inv s \<Longrightarrow> descent (maze s)"
  by (simp add: solver_inv_def search_inv_def)

lemma pathViewer_draw_ok:
  assumes "solver_inv s" "solved (maze s) = Inr True"
  shows "\<exists>p. pathViewer_draw s = Some (Inr (s\<lparr>canvas := canvas s @ map (\<lambda>(x, y). PathTile x y) p\<rparr>)) \<and>
             path_from (maze s) (goal (maze s)) p"
  using draw_path_ok [OF solver_inv_wf [OF assms(1)] solver_inv_descent [OF assms(1)] assms(2)]
  by (auto simp: pathViewer_draw_def)

lemma skip_returns:
  assumes "solver_inv s"
  shows "\<exists>s1 s'. skip_loop s = Some (Inr s1) \<and> skip s = Some (Inr s') \<and> solver_inv s' \<and>
           maze s' = maze s1 \<and> queue s' = queue s1 \<and> solving s' = solving s \<and>
           (if solved (maze s1) = Inr True
            then \<exists>p. canvas s' = canvas s1 @ map (\<lambda>(x, y). PathTile x y) p \<and>
                      path_from (maze s1) (goal (maze s1)) p
            else canvas s' = canvas s1 \<and> isEmpty (queue s1))"
proof -
  obtain s1 where s1: "skip_loop s = Some (Inr s1)" "solver_inv s1" "canStep s1 = Inr False"
      "solving s1 = solving s"
    using skip_loop_returns [OF assms] by blast
  show ?thesis
  proof (cases "solved (maze s1) = Inr True")
    case True
    then show ?thesis
      using s1 pathViewer_draw_ok [OF s1(2) True] by (auto simp: skip_def)
  next
    case False
    then have "solved (maze s1) = Inr False"
      using solved_wf [OF solver_inv_wf [OF s1(2)]] by simp
    then show ?thesis
      using s1 canStep_inv [OF s1(2)] solved_wf [OF solver_inv_wf [OF s1(2)]]
      by (simp add: skip_def)
  qed
qed

section \<open>Invariants carried through skip and the tick\<close>

text \<open>Any property that \<open>step\<close> keeps on invariant states holds after the loop of
  \<open>skip\<close>, and, if drawing does not affect it, after \<open>skip\<close> and after a tick.\<close>

lemma skip_loop_preserves:
  assumes "solver_inv s" "P s" "skip_loop s = Some (Inr s')"
    and step: "\<And>t t'. solver_inv t \<Longrightarrow> P t \<Longrightarrow> step t = Inr t' \<Longrightarrow> P t'"
  shows "P s'"
  using assms(1-3)
proof (induction "search_measure s" arbitrary: s rule: less_induct)
  case less
  show ?case
  proof (cases "canStep s = Inr True")
    case True
    then have ne: "\<not> isEmpty (queue s)" using canStep_inv [OF less.prems(1)] by simp
    obtain s1 where s1: "step s = Inr s1" "solver_inv s1" "search_measure s1 + 1 = search_measure s"
      using step_inv [OF less.prems(1) ne] by blast
    have "skip_loop s = skip_loop s1" using True s1(1) by (simp add: skip_loop.simps [of s])
    then show ?thesis
      using less.hyps [of s1] s1 step [OF less.prems(1,2) s1(1)] less.prems(3) by simp
  next
    case False
    then have "canStep s = Inr False" using canStep_inv [OF less.prems(1)] by simp
    then show ?thesis using less.prems by (simp add: skip_loop.simps [of s])
  qed
qed

lemma skip_preserves:
  assumes "solver_inv s" "P s" "skip s = Some (Inr s')"
    and step: "\<And>t t'. solver_inv t \<Longrightarrow> P t \<Longrightarrow> step t = Inr t' \<Longrightarrow> P t'"
    and draw: "\<And>t c. P t \<Longrightarrow> P (t\<lparr>canvas := c\<rparr>)"
  shows "P s'"
proof -
  obtain s1 where s1: "skip_loop s = Some (Inr s1)"
    using skip_loop_returns [OF assms(1)] by blast
  have "P s1"
    by (rule skip_loop_preserves [where P = P, OF assms(1,2) s1]) (rule step)
  then show ?thesis
    using assms(3) s1 draw
    by (auto simp: skip_def pathViewer_draw_def map_sum_eq_Inr
        split: sum.splits option.splits if_splits)
qed

lemma solveLoop_preserves:
  assumes "solver_inv s" "P s" "solveLoop s = Some (Inr s')"
    and step: "\<And>t t'. solver_inv t \<Longrightarrow> P t \<Longrightarrow> step t = Inr t' \<Longrightarrow> P t'"
    and draw: "\<And>t c. P t \<Longrightarrow> P (t\<lparr>canvas := c\<rparr>)"
    and halt: "\<And>t. P t \<Longrightarrow> P (pause t)"
  shows "P s'"
  using assms(2,3) step [OF assms(1,2)] draw halt
  by (auto simp: solveLoop_def pathViewer_draw_def map_sum_eq_Inr
      split: sum.splits option.splits if_splits)

section \<open>Properties of skip\<close>

text \<open>
  C2.  \<^verbatim>\<open>skip()\<close> returns from every state satisfying the invariant, without
  throwing, and leaves a state that satisfies it in which \<^verbatim>\<open>canStep()\<close> is false:
  the goal is finalised or the queue is empty.
\<close>

theorem skip_terminates:
  assumes "solver_inv s"
  shows "\<exists>s'. skip s = Some (Inr s') \<and> solver_inv s' \<and> canStep s' = Inr False \<and>
           (cell (distances (maze s')) (fst (goal (maze s'))) (snd (goal (maze s'))) \<noteq> \<infinity> \<or>
            isEmpty (queue s'))"
proof -
  obtain s1 where s1: "skip_loop s = Some (Inr s1)" "canStep s1 = Inr False"
    using skip_loop_returns [OF assms] by blast
  obtain t1 s' where t: "skip_loop s = Some (Inr t1)" "skip s = Some (Inr s')" "solver_inv s'"
      "maze s' = maze t1" "queue s' = queue t1"
    using skip_returns [OF assms] by blast
  have "t1 = s1" using s1(1) t(1) by simp
  then have "canStep s' = canStep s1" using t(4,5) unfolding canStep_def by metis
  then show ?thesis
    using s1(2) t(2,3) canStep_inv [OF t(3)] by auto
qed

text \<open>
  C7.  Calling \<^verbatim>\<open>skip()\<close> again on a solved maze is not a no-op: the loop does not
  step, but \<^verbatim>\<open>pathViewer.draw()\<close> runs again and draws the whole path a second time.
\<close>

theorem skip_redraws_path:
  assumes "solver_inv s" "solved (maze s) = Inr True"
  shows "\<exists>p. p \<noteq> [] \<and> skip s = Some (Inr (s\<lparr>canvas := canvas s @ map (\<lambda>(x, y). PathTile x y) p\<rparr>))"
proof -
  have "canStep s = Inr False"
    using assms(2) by (simp add: canStep_def)
  then have "skip_loop s = Some (Inr s)" by (simp add: skip_loop.simps [of s])
  moreover obtain p where "pathViewer_draw s =
      Some (Inr (s\<lparr>canvas := canvas s @ map (\<lambda>(x, y). PathTile x y) p\<rparr>))" "path_from (maze s) (goal (maze s)) p"
    using pathViewer_draw_ok [OF assms] by blast
  ultimately show ?thesis
    using assms(2) by (auto simp: skip_def path_from_def)
qed

end
