(* ===== verification/App.thy ===== *)
theory App
  imports SolverLoop
begin

text \<open>
  The objects wired together by \<^verbatim>\<open>setup()\<close> (lines 511--530 of \<^verbatim>\<open>src/main.js\<close>)
  and the handlers the browser calls: \<^verbatim>\<open>BlockSelector\<close> (8--37), \<^verbatim>\<open>BlockPlacer\<close>
  (43--110), \<^verbatim>\<open>SettingsHandler\<close> (115--140), \<^verbatim>\<open>ControlsHandler\<close> (416--468) and the
  timer that calls \<^verbatim>\<open>solveLoop\<close> every millisecond.  All objects share the one maze,
  which lives in the solver's record; the application state adds the selected block.
  Drawing (\<^verbatim>\<open>draw\<close>, \<^verbatim>\<open>drawBlock\<close>, \<^verbatim>\<open>redrawMaze\<close>, \<^verbatim>\<open>resetBuffer\<close>)
  changes no state of the session; theory \<open>Render\<close> models it on top of \<open>handle\<close>.  The block ids are those
  of the page's \<^verbatim>\<open>.block\<close> elements, which the repository does not contain; the spec
  names two, erase and wall.  A user action is a \<open>ui_event\<close>; \<open>handle\<close> runs its
  handler, and \<open>reachable\<close> is the set of states a session can reach from
  \<^verbatim>\<open>setup()\<close>.  The mouse is on the canvas when it paints, so a painted cell is in
  bounds.
\<close>

datatype block = EraseBlock | WallBlock

record app =
  solver :: solver
  active :: block

definition DEFAULTSIZE :: nat where "DEFAULTSIZE = 20"

definition DEFAULTWALLFREQ :: real where "DEFAULTWALLFREQ = 0"

section \<open>Handlers\<close>

definition blockToTile :: "block \<Rightarrow> tile" where
  "blockToTile b = (case b of EraseBlock \<Rightarrow> Empty | WallBlock \<Rightarrow> Wall)"

definition activate :: "block \<Rightarrow> app \<Rightarrow> app" where
  "activate b a = a\<lparr>active := b\<rparr>"

text \<open>\<^verbatim>\<open>BlockPlacer.setBlock\<close>: edits are ignored once the origin is finalised.\<close>

definition setBlock :: "int \<Rightarrow> int \<Rightarrow> tile \<Rightarrow> maze \<Rightarrow> error + maze" where
  "setBlock x y t m =
     (if cell (distances m) 0 0 = \<infinity> then
        (case clearEnds (set_cell (maze_map m) x y t) of
           Inl e \<Rightarrow> Inl e
         | Inr g \<Rightarrow> Inr (m\<lparr>maze_map := g\<rparr>))
      else Inr m)"

definition controls_play :: "solver \<Rightarrow> error + solver" where
  "controls_play s = (case canStep s of Inl e \<Rightarrow> Inl e | Inr b \<Rightarrow> Inr (if b then play s else s))"

definition controls_pause :: "solver \<Rightarrow> solver" where
  "controls_pause s = pause s"

definition controls_step :: "solver \<Rightarrow> error + solver" where
  "controls_step s =
     (let s1 = controls_pause s
      in case canStep s1 of Inl e \<Rightarrow> Inl e | Inr b \<Rightarrow> (if b then step s1 else Inr s1))"

definition controls_skip :: "solver \<Rightarrow> (error + solver) option" where
  "controls_skip s = skip (controls_pause s)"

definition controls_restart :: "solver \<Rightarrow> error + solver" where
  "controls_restart s = reset (pause (controls_pause s))"

text \<open>\<^verbatim>\<open>SettingsHandler.resetMaze\<close>, with the size and frequency the form holds.\<close>

definition resetMaze :: "nat \<Rightarrow> real \<Rightarrow> (nat \<Rightarrow> real) \<Rightarrow> solver \<Rightarrow> error + solver" where
  "resetMaze n freq rnd s =
     (case setUpMaze n freq rnd (maze s) of
        Inl e \<Rightarrow> Inl e
      | Inr m \<Rightarrow> controls_restart (s\<lparr>maze := m\<rparr>))"

definition app_setup :: "(nat \<Rightarrow> real) \<Rightarrow> error + app" where
  "app_setup rnd =
     (case new_maze DEFAULTSIZE DEFAULTWALLFREQ rnd of
        Inl e \<Rightarrow> Inl e
      | Inr m \<Rightarrow> Inr \<lparr>solver = new_solver m, active = WallBlock\<rparr>)"

section \<open>User actions\<close>

datatype ui_event =
    ClickBlock block
  | Paint int int
  | PlayBtn
  | PauseBtn
  | StepBtn
  | SkipBtn
  | RestartBtn
  | ResetMazeBtn nat real "nat \<Rightarrow> real"
  | Tick

definition with_solver :: "app \<Rightarrow> error + solver \<Rightarrow> error + app" where
  "with_solver a r = map_sum id (\<lambda>s. a\<lparr>solver := s\<rparr>) r"

text \<open>\<open>handle\<close> is the dispatch the constructors wire up in \<^verbatim>\<open>src/main.js\<close>: the click
  listeners of the block elements (\<^verbatim>\<open>BlockSelector\<close>, line 18), the canvas click
  (\<^verbatim>\<open>BlockPlacer\<close>, 52), the create-maze button (\<^verbatim>\<open>SettingsHandler\<close>, 127), the
  five control buttons (\<^verbatim>\<open>ControlsHandler\<close>, 423--427) and the interval timer of
  \<^verbatim>\<open>setup()\<close> (529).\<close>

fun handle :: "ui_event \<Rightarrow> app \<Rightarrow> (error + app) option" where
  "handle (ClickBlock b) a = Some (Inr (activate b a))"
| "handle (Paint x y) a =
     Some (map_sum id (\<lambda>m. a\<lparr>solver := (solver a)\<lparr>maze := m\<rparr>\<rparr>)
            (setBlock x y (blockToTile (active a)) (maze (solver a))))"
| "handle PlayBtn a = Some (with_solver a (controls_play (solver a)))"
| "handle PauseBtn a = Some (Inr (a\<lparr>solver := controls_pause (solver a)\<rparr>))"
| "handle StepBtn a = Some (with_solver a (controls_step (solver a)))"
| "handle SkipBtn a = map_option (with_solver a) (controls_skip (solver a))"
| "handle RestartBtn a = Some (with_solver a (controls_restart (solver a)))"
| "handle (ResetMazeBtn n freq rnd) a = Some (with_solver a (resetMaze n freq rnd (solver a)))"
| "handle Tick a = map_option (with_solver a) (solveLoop (solver a))"

text \<open>The environment's side of an event: a painted cell is under the mouse, on the canvas.\<close>

fun event_ok :: "app \<Rightarrow> ui_event \<Rightarrow> bool" where
  "event_ok a (Paint x y) = inBounds (maze (solver a)) x y"
| "event_ok a _ = True"

inductive reachable :: "app \<Rightarrow> bool" where
  init: "app_setup rnd = Inr a \<Longrightarrow> reachable a"
| step: "reachable a \<Longrightarrow> event_ok a e \<Longrightarrow> handle e a = Some (Inr a') \<Longrightarrow> reachable a'"

inductive_cases reachable_stepE: "reachable a'"

section \<open>The invariant of a session\<close>

definition app_inv :: "app \<Rightarrow> bool" where
  "app_inv a \<longleftrightarrow> solver_inv (solver a) \<and> ends_clear (maze (solver a))"

text \<open>A solver operation that keeps the tile map and the size.\<close>

definition same_map :: "solver \<Rightarrow> solver \<Rightarrow> bool" where
  "same_map s s' \<longleftrightarrow> maze_map (maze s') = maze_map (maze s) \<and> maze_size (maze s') = maze_size (maze s)"

text \<open>The seed alone in the queue, over fresh fields, satisfies the invariant.\<close>

lemma seed_inv:
  assumes "wf_maze m" "fresh_fields m"
  shows "search_inv m [seed] \<and> lock_ok m [seed]"
proof -
  have n: "0 < maze_size m" using wf_maze_squares(1) [OF assms(1)] .
  have fresh: "cell (distances m) x y = \<infinity>" "cell (explored m) x y = ((x, y) = (0, 0))"
    if "in_range (maze_size m) x y" for x y
    using assms(2) that by (simp_all add: fresh_fields_def all_cells_iff)
  have "search_inv m [seed]"
    using assms(1) n fresh
    by (auto simp: search_inv_def queue_ok_def final_explored_def descent_def queue_descent_def
        all_cells_iff seed_def node_pos_def)
  moreover have "lock_ok m [seed]" using assms(2) by (simp add: lock_ok_def)
  ultimately show ?thesis by simp
qed

lemma reset_inv:
  assumes "wf_maze (maze s)"
  shows "\<exists>s'. reset s = Inr s' \<and> solver_inv s' \<and> maze_map (maze s') = maze_map (maze s) \<and>
           maze_size (maze s') = maze_size (maze s) \<and> solving s' = solving s \<and>
           canvas s' = canvas s \<and> elements (queue s') = [seed] \<and> fresh_fields (maze s')"
proof -
  note sq = wf_maze_squares [OF assms]
  obtain m where m: "resetDistances (maze s) = Inr m" "maze_size m = maze_size (maze s)"
      "maze_map m = maze_map (maze s)" "square (maze_size m) (distances m)"
      "square (maze_size m) (explored m)" "fresh_fields m"
    using resetDistances_Inr [OF sq(1)] by auto
  have wf: "wf_maze m" using m sq by (simp add: wf_maze_def)
  show ?thesis
    using m seed_inv [OF wf m(6)]
    by (simp add: reset_def resetQueue_def new_queue_def solver_inv_def)
qed

lemma new_solver_inv:
  "wf_maze m \<Longrightarrow> fresh_fields m \<Longrightarrow> solver_inv (new_solver m)"
  using seed_inv [of m] by (simp add: new_solver_def resetQueue_def new_queue_def solver_inv_def)

lemma app_setup_inv:
  assumes "app_setup rnd = Inr a"
  shows "app_inv a \<and> maze_size (maze (solver a)) = DEFAULTSIZE"
proof -
  have "0 < DEFAULTSIZE" by (simp add: DEFAULTSIZE_def)
  then obtain m where m: "new_maze DEFAULTSIZE DEFAULTWALLFREQ rnd = Inr m" "maze_size m = DEFAULTSIZE"
      "wf_maze m" "ends_clear m" "fresh_fields m"
    using setUpMaze_Inr [of DEFAULTSIZE DEFAULTWALLFREQ rnd
      "\<lparr>maze_size = 0, wallFreq = 0, maze_map = [], distances = [], explored = []\<rparr>"]
    unfolding new_maze_def by blast
  then have "a = \<lparr>solver = new_solver m, active = WallBlock\<rparr>"
    using assms by (simp add: app_setup_def)
  then show ?thesis
    using m new_solver_inv [OF m(3,5)] by (simp add: app_inv_def new_solver_def resetQueue_def)
qed

lemma inv_parts_map [simp]:
  "queue_ok (m\<lparr>maze_map := g\<rparr>) Q = queue_ok m Q"
  "final_explored (m\<lparr>maze_map := g\<rparr>) = final_explored m"
  "descent (m\<lparr>maze_map := g\<rparr>) = descent m"
  "queue_descent (m\<lparr>maze_map := g\<rparr>) Q = queue_descent m Q"
  "lock_ok (m\<lparr>maze_map := g\<rparr>) Q = lock_ok m Q"
  by (simp_all add: queue_ok_def final_explored_def descent_def queue_descent_def lock_ok_def
      fresh_fields_def)

lemma solver_inv_map:
  "square (maze_size (maze s)) g \<Longrightarrow> solver_inv s \<Longrightarrow>
   solver_inv (s\<lparr>maze := (maze s)\<lparr>maze_map := g\<rparr>\<rparr>)"
  by (simp add: solver_inv_def search_inv_def wf_maze_def)

lemma ends_clear_cong:
  "maze_map m' = maze_map m \<Longrightarrow> maze_size m' = maze_size m \<Longrightarrow> ends_clear m' = ends_clear m"
  by (simp add: ends_clear_def)

lemma setBlock_inv:
  assumes "solver_inv s" "ends_clear (maze s)"
  shows "\<exists>m'. setBlock x y t (maze s) = Inr m' \<and> maze_size m' = maze_size (maze s) \<and>
           solver_inv (s\<lparr>maze := m'\<rparr>) \<and> ends_clear m'"
proof (cases "cell (distances (maze s)) 0 0 = \<infinity>")
  case True
  let ?n = "maze_size (maze s)"
  note sq = wf_maze_squares [OF solver_inv_wf [OF assms(1)]]
  have "square ?n (set_cell (maze_map (maze s)) x y t)" using sq(2) by simp
  then obtain g where g: "clearEnds (set_cell (maze_map (maze s)) x y t) = Inr g" "square ?n g"
      "cell g 0 0 = Empty" "cell g (int ?n - 1) (int ?n - 1) = Empty"
    using clearEnds_Inr [of ?n] sq(1) by blast
  show ?thesis
    using True g assms(1) solver_inv_map [OF g(2) assms(1)]
    by (simp add: setBlock_def ends_clear_def)
next
  case False
  then have "setBlock x y t (maze s) = Inr (maze s)"
    by (simp only: setBlock_def if_False)
  then show ?thesis using assms by simp
qed

text \<open>Before the search starts, a paint on a cell other than the two ends writes the
  selected tile there and changes nothing else.\<close>

lemma paint_unlocked:
  assumes inv: "app_inv a" and u: "cell (distances (maze (solver a))) 0 0 = \<infinity>"
    and r: "in_range (maze_size (maze (solver a))) x y"
    and o: "(x, y) \<noteq> (0, 0)" and g: "(x, y) \<noteq> goal (maze (solver a))"
  shows "handle (Paint x y) a = Some (Inr (a\<lparr>solver := (solver a)\<lparr>maze := (maze (solver a))\<lparr>maze_map :=
           set_cell (maze_map (maze (solver a))) x y (blockToTile (active a))\<rparr>\<rparr>\<rparr>))"
proof -
  let ?m = "maze (solver a)"
  let ?n = "maze_size ?m"
  let ?g = "set_cell (maze_map ?m) x y (blockToTile (active a))"
  have wf: "wf_maze ?m" "ends_clear ?m"
    using inv solver_inv_wf by (auto simp: app_inv_def)
  note sq = wf_maze_squares [OF wf(1)]
  have sqg: "square ?n ?g" using sq(2) by simp
  have "cell ?g 0 0 = Empty"
    using cell_set_cell [OF sq(2) r in_range_origin [OF sq(1)]] o wf(2)
    by (auto simp: ends_clear_def)
  moreover have "cell ?g (int ?n - 1) (int ?n - 1) = Empty"
    using cell_set_cell [OF sq(2) r in_range_corner [OF sq(1)]] g wf(2)
    by (auto simp: ends_clear_def)
  ultimately have "clearEnds ?g = Inr ?g" using clearEnds_id [OF sqg sq(1)] by blast
  then show ?thesis using u by (simp add: setBlock_def)
qed

lemma paint_unlocked_cell:
  assumes "app_inv a" "cell (distances (maze (solver a))) 0 0 = \<infinity>"
    "in_range (maze_size (maze (solver a))) x y" "(x, y) \<noteq> (0, 0)" "(x, y) \<noteq> goal (maze (solver a))"
    "handle (Paint x y) a = Some (Inr a')"
  shows "cell (maze_map (maze (solver a'))) x y = blockToTile (active a)"
proof -
  have "square (maze_size (maze (solver a))) (maze_map (maze (solver a)))"
    using assms(1) wf_maze_squares(2) solver_inv_wf by (auto simp: app_inv_def)
  then show ?thesis using paint_unlocked [OF assms(1-5)] assms(3,6) by (auto simp del: handle.simps)
qed

lemma same_map_ends_clear: "same_map s s' \<Longrightarrow> ends_clear (maze s') = ends_clear (maze s)"
  by (simp add: same_map_def ends_clear_def)

lemma controls_step_inv:
  assumes "solver_inv s" "controls_step s = Inr s'"
  shows "solver_inv s' \<and> same_map s s'"
proof -
  let ?s1 = "controls_pause s"
  have inv1: "solver_inv ?s1" using assms(1) by (simp add: controls_pause_def pause_def)
  show ?thesis
  proof (cases "canStep ?s1 = Inr True")
    case True
    then have "\<not> isEmpty (queue ?s1)" using canStep_inv [OF inv1] by simp
    then obtain s2 where "step ?s1 = Inr s2" "solver_inv s2"
      using step_inv [OF inv1] by blast
    then show ?thesis
      using assms(2) True step_frame [of ?s1 s2]
      by (auto simp: controls_step_def same_map_def controls_pause_def pause_def)
  next
    case False
    then have "canStep ?s1 = Inr False" using canStep_inv [OF inv1] by simp
    then show ?thesis
      using assms(2) inv1 by (auto simp: controls_step_def same_map_def controls_pause_def pause_def)
  qed
qed

lemma skip_inv:
  assumes "solver_inv s" "skip s = Some (Inr s')"
  shows "solver_inv s' \<and> same_map s s'"
proof -
  obtain s1 where s1: "skip_loop s = Some (Inr s1)" "maze_map (maze s1) = maze_map (maze s)"
      "maze_size (maze s1) = maze_size (maze s)"
    using skip_loop_returns [OF assms(1)] by blast
  obtain t1 t' where t: "skip_loop s = Some (Inr t1)" "skip s = Some (Inr t')" "solver_inv t'"
      "maze t' = maze t1"
    using skip_returns [OF assms(1)] by blast
  show ?thesis
    using s1 t assms(2) by (simp add: same_map_def)
qed

lemma controls_restart_inv:
  assumes "wf_maze (maze s)" "controls_restart s = Inr s'"
  shows "solver_inv s' \<and> same_map s s'"
proof -
  have "wf_maze (maze (pause (controls_pause s)))"
    using assms(1) by (simp add: controls_pause_def pause_def)
  then show ?thesis
    using reset_inv [of "pause (controls_pause s)"] assms(2)
    by (auto simp: controls_restart_def same_map_def controls_pause_def pause_def)
qed

lemma resetMaze_inv:
  assumes "resetMaze n freq rnd s = Inr s'"
  shows "solver_inv s' \<and> ends_clear (maze s') \<and> maze_size (maze s') = n"
proof -
  have n: "0 < n"
    using assms by (cases n) (auto simp: resetMaze_def setUpMaze_zero)
  obtain m where m: "setUpMaze n freq rnd (maze s) = Inr m" "maze_size m = n" "wf_maze m"
      "ends_clear m"
    using setUpMaze_Inr [OF n] by blast
  have "controls_restart (s\<lparr>maze := m\<rparr>) = Inr s'" using assms m(1) by (simp add: resetMaze_def)
  then have "solver_inv s' \<and> same_map (s\<lparr>maze := m\<rparr>) s'"
    using controls_restart_inv [of "s\<lparr>maze := m\<rparr>"] m(3) by simp
  then show ?thesis
    using m(2,4) same_map_ends_clear by (fastforce simp: same_map_def)
qed

lemma solveLoop_inv:
  assumes "solver_inv s" "solveLoop s = Some (Inr s')"
  shows "solver_inv s' \<and> same_map s s'"
proof (cases "solving s")
  case False
  then show ?thesis using assms by (simp add: solveLoop_def same_map_def)
next
  case True
  note sv = solved_wf [OF solver_inv_wf [OF assms(1)]]
  show ?thesis
  proof (cases "solved (maze s) = Inr True")
    case solved: True
    obtain p where "pathViewer_draw s =
        Some (Inr (s\<lparr>canvas := canvas s @ map (\<lambda>(x, y). PathTile x y) p\<rparr>))"
      using pathViewer_draw_ok [OF assms(1) solved] by blast
    then show ?thesis
      using assms True solved by (auto simp: solveLoop_def same_map_def pause_def)
  next
    case unsolved: False
    then have sf: "solved (maze s) = Inr False" using sv by simp
    show ?thesis
    proof (cases "isEmpty (queue s)")
      case True
      then show ?thesis
        using assms \<open>solving s\<close> sf by (auto simp: solveLoop_def same_map_def pause_def)
    next
      case False
      obtain s2 where "step s = Inr s2" "solver_inv s2"
        using step_inv [OF assms(1) False] by blast
      then show ?thesis
        using assms \<open>solving s\<close> sf False step_frame [of s s2]
        by (auto simp: solveLoop_def same_map_def)
    qed
  qed
qed

lemma controls_play_inv:
  assumes "solver_inv s" "controls_play s = Inr s'"
  shows "solver_inv s' \<and> same_map s s'"
  using assms canStep_inv [OF assms(1)]
  by (auto simp: controls_play_def play_def same_map_def split: if_splits)

lemma app_inv_solver:
  "app_inv (a\<lparr>solver := s'\<rparr>) \<longleftrightarrow> solver_inv s' \<and> ends_clear (maze s')"
  by (simp add: app_inv_def)

lemma with_solver_Inr:
  "with_solver a r = Inr a' \<longleftrightarrow> (\<exists>s'. r = Inr s' \<and> a' = a\<lparr>solver := s'\<rparr>)"
  by (cases r) (auto simp: with_solver_def)

lemma handle_inv:
  assumes inv: "app_inv a" and ok: "event_ok a e" and h: "handle e a = Some (Inr a')"
  shows "app_inv a'"
proof -
  have si: "solver_inv (solver a)" and ec: "ends_clear (maze (solver a))"
    using inv by (simp_all add: app_inv_def)
  have lift: "app_inv (a\<lparr>solver := s'\<rparr>)"
    if "solver_inv s' \<and> same_map (solver a) s'" for s'
    using that ec same_map_ends_clear by (fastforce simp: app_inv_def)
  show ?thesis
  proof (cases e)
    case (ClickBlock b)
    then show ?thesis using h inv by (auto simp: activate_def app_inv_def)
  next
    case (Paint x y)
    obtain m' where "setBlock x y (blockToTile (active a)) (maze (solver a)) = Inr m'"
        "solver_inv ((solver a)\<lparr>maze := m'\<rparr>)" "ends_clear m'"
      using setBlock_inv [OF si ec] by blast
    then show ?thesis using h Paint by (auto simp: app_inv_def)
  next
    case PlayBtn
    then show ?thesis
      using h controls_play_inv [OF si] lift by (auto simp: with_solver_Inr)
  next
    case PauseBtn
    then show ?thesis
      using h lift si by (auto simp: controls_pause_def pause_def same_map_def)
  next
    case StepBtn
    then show ?thesis
      using h controls_step_inv [OF si] lift by (auto simp: with_solver_Inr)
  next
    case SkipBtn
    let ?p = "controls_pause (solver a)"
    have i: "solver_inv ?p" using si by (simp add: controls_pause_def pause_def)
    obtain s' where s': "controls_skip (solver a) = Some (Inr s')" "a' = a\<lparr>solver := s'\<rparr>"
      using h SkipBtn by (auto simp: with_solver_Inr)
    then have "solver_inv s' \<and> same_map ?p s'"
      using skip_inv [OF i] by (simp add: controls_skip_def)
    moreover have "same_map ?p s' = same_map (solver a) s'"
      by (simp add: same_map_def controls_pause_def pause_def)
    ultimately show ?thesis using lift s'(2) by simp
  next
    case RestartBtn
    then show ?thesis
      using h controls_restart_inv [OF solver_inv_wf [OF si]] lift by (auto simp: with_solver_Inr)
  next
    case (ResetMazeBtn n freq rnd)
    then show ?thesis
      using h resetMaze_inv by (auto simp: with_solver_Inr app_inv_def)
  next
    case Tick
    then show ?thesis
      using h solveLoop_inv [OF si] lift by (auto simp: with_solver_Inr)
  qed
qed

lemma reachable_app_inv: "reachable a \<Longrightarrow> app_inv a"
proof (induction rule: reachable.induct)
  case (init rnd a)
  then show ?case using app_setup_inv by blast
next
  case (step a e a')
  then show ?case using handle_inv by blast
qed

end
