(* ===== verification/Shortest.thy ===== *)
theory Shortest
  imports SolverLoop
begin

text \<open>
  What the search computes when every tile costs the same.  The page can only place
  walls and empty tiles (\<^verbatim>\<open>getTile\<close> and \<^verbatim>\<open>blockToTile\<close> return 0 or 1), so in a
  session every move costs 1 and the FIFO search of \<^verbatim>\<open>MazeSolver.step\<close> is a true
  breadth-first search.  This theory states the reference notion, \<open>reach m c k\<close>: there
  is a route of \<open>k\<close> moves from the origin to \<open>c\<close> through in-bounds non-wall tiles, and
  \<open>shortest m c k\<close>: \<open>k\<close> is the least such \<open>k\<close>.  The invariant \<open>bfs_inv\<close> of the
  distance field and the queue is the classical one of breadth-first search (finalised
  distances and queued distances are exact, the queue spans at most two consecutive
  layers, finalised tiles have their free neighbours explored, explored tiles are
  finalised or queued, every tile reachable in fewer moves than the head's distance is
  finalised), and every \<open>step\<close> keeps it.  From it: finalised distances are shortest
  route lengths, an empty queue means that every reachable tile is finalised, and the
  path \<^verbatim>\<open>PathViewer.draw\<close> draws is a shortest route.
\<close>

section \<open>Routes through the maze\<close>

definition free :: "maze \<Rightarrow> int \<Rightarrow> int \<Rightarrow> bool" where
  "free m x y \<longleftrightarrow> inBounds m x y \<and> cell (maze_map m) x y \<noteq> Wall"

text \<open>Every tile costs one move: no slow tiles.\<close>

definition unit_cost :: "maze \<Rightarrow> bool" where
  "unit_cost m \<longleftrightarrow> all_cells (maze_size m) (\<lambda>x y. cell (maze_map m) x y \<noteq> Slow)"

text \<open>A route of \<open>k\<close> moves from the origin to \<open>c\<close>, each move to an axis-aligned free
  neighbour; executable by recursion on \<open>k\<close>.\<close>

fun reach :: "maze \<Rightarrow> coord \<Rightarrow> nat \<Rightarrow> bool" where
  "reach m c 0 \<longleftrightarrow> c = (0, 0) \<and> free m 0 0"
| "reach m (x, y) (Suc k) \<longleftrightarrow>
     free m x y \<and> list_ex (\<lambda>(a, b). reach m (a, b) k) (candidates x y)"

definition shortest :: "maze \<Rightarrow> coord \<Rightarrow> nat \<Rightarrow> bool" where
  "shortest m c k \<longleftrightarrow> reach m c k \<and> list_all (\<lambda>j. \<not> reach m c j) [0..<k]"

section \<open>The invariant of breadth-first search\<close>

text \<open>Finalised distances are shortest route lengths.\<close>

definition final_exact :: "maze \<Rightarrow> bool" where
  "final_exact m \<longleftrightarrow>
     all_cells (maze_size m)
       (\<lambda>x y. cell (distances m) x y \<noteq> \<infinity> \<longrightarrow> shortest m (x, y) (the_enat (cell (distances m) x y)))"

text \<open>So are the distances queued nodes carry.\<close>

definition queue_exact :: "maze \<Rightarrow> node list \<Rightarrow> bool" where
  "queue_exact m Q \<longleftrightarrow> list_all (\<lambda>nd. shortest m (node_pos nd) (node_distance nd)) Q"

text \<open>The queue is sorted by distance and spans at most two consecutive layers.\<close>

definition layered :: "node list \<Rightarrow> bool" where
  "layered Q \<longleftrightarrow> sorted (map node_distance Q) \<and>
     (\<forall>a\<in>set Q. \<forall>b\<in>set Q. node_distance b \<le> Suc (node_distance a))"

text \<open>Every free neighbour of a finalised tile has been explored.\<close>

definition closed :: "maze \<Rightarrow> bool" where
  "closed m \<longleftrightarrow>
     all_cells (maze_size m)
       (\<lambda>x y. cell (distances m) x y \<noteq> \<infinity> \<longrightarrow>
          list_all (\<lambda>(a, b). free m a b \<longrightarrow> cell (explored m) a b) (candidates x y))"

text \<open>An explored tile is finalised or queued.\<close>

definition tracked :: "maze \<Rightarrow> node list \<Rightarrow> bool" where
  "tracked m Q \<longleftrightarrow>
     all_cells (maze_size m)
       (\<lambda>x y. cell (explored m) x y \<longrightarrow> cell (distances m) x y \<noteq> \<infinity> \<or> (x, y) \<in> set (map node_pos Q))"

text \<open>Every tile reachable in fewer moves than the head of the queue carries is
  finalised.\<close>

definition below_final :: "maze \<Rightarrow> node list \<Rightarrow> bool" where
  "below_final m Q \<longleftrightarrow>
     (case Q of
        [] \<Rightarrow> True
      | nd # _ \<Rightarrow> all_cells (maze_size m)
                    (\<lambda>x y. list_all (\<lambda>j. reach m (x, y) j \<longrightarrow> cell (distances m) x y \<noteq> \<infinity>)
                            [0..<node_distance nd]))"

definition bfs_inv :: "maze \<Rightarrow> node list \<Rightarrow> bool" where
  "bfs_inv m Q \<longleftrightarrow>
     final_exact m \<and> queue_exact m Q \<and> layered Q \<and> closed m \<and> tracked m Q \<and> below_final m Q"

text \<open>The invariant of a solver: its maze has unit costs and its search is a
  breadth-first search.\<close>

definition sp_inv :: "solver \<Rightarrow> bool" where
  "sp_inv s \<longleftrightarrow> unit_cost (maze s) \<and> bfs_inv (maze s) (elements (queue s))"

section \<open>Routes\<close>

lemma reach_free: "reach m (x, y) k \<Longrightarrow> free m x y"
  by (cases k) auto

lemma free_in_range: "free m x y \<Longrightarrow> in_range (maze_size m) x y"
  by (simp add: free_def inBounds_in_range)

lemma reach_zero: "reach m c 0 \<Longrightarrow> c = (0, 0)"
  by simp

lemma reach_SucE:
  assumes "reach m (x, y) (Suc k)"
  obtains a b where "(a, b) \<in> set (candidates x y)" "reach m (a, b) k"
  using assms by (auto simp: list_ex_iff)

lemma reach_move:
  "reach m (a, b) k \<Longrightarrow> (x, y) \<in> set (candidates a b) \<Longrightarrow> free m x y \<Longrightarrow> reach m (x, y) (Suc k)"
  using candidates_sym [of x y a b] by (auto simp: list_ex_iff)

lemma reach_cong:
  "maze_map m' = maze_map m \<Longrightarrow> maze_size m' = maze_size m \<Longrightarrow> reach m' c k = reach m c k"
proof (induction k arbitrary: c)
  case 0
  then show ?case by (simp add: free_def inBounds_def)
next
  case (Suc k)
  obtain x y where "c = (x, y)" by fastforce
  then show ?case using Suc by (simp add: free_def inBounds_def)
qed

lemma shortest_cong:
  "maze_map m' = maze_map m \<Longrightarrow> maze_size m' = maze_size m \<Longrightarrow> shortest m' c k = shortest m c k"
  using reach_cong [of m' m] by (simp add: shortest_def)

lemma shortest_iff: "shortest m c k \<longleftrightarrow> reach m c k \<and> (\<forall>j<k. \<not> reach m c j)"
  by (auto simp: shortest_def list_all_iff)

lemma shortest_le:
  assumes "shortest m c k" "reach m c j"
  shows "k \<le> j"
proof (rule ccontr)
  assume "\<not> k \<le> j"
  then have "j < k" by simp
  with assms show False by (simp add: shortest_iff)
qed

lemma shortest_reach: "shortest m c k \<Longrightarrow> reach m c k"
  by (simp add: shortest_iff)

lemma shortest_unique:
  assumes "shortest m c k" "shortest m c k'"
  shows "k = k'"
proof -
  have "k \<le> k'" using shortest_le [OF assms(1) shortest_reach [OF assms(2)]] .
  moreover have "k' \<le> k" using shortest_le [OF assms(2) shortest_reach [OF assms(1)]] .
  ultimately show ?thesis by simp
qed

lemma reach_shortest: "reach m c j \<Longrightarrow> \<exists>k\<le>j. shortest m c k"
proof (induction j rule: less_induct)
  case (less j)
  show ?case
  proof (cases "\<exists>i<j. reach m c i")
    case True
    then obtain i where i: "i < j" "reach m c i" by blast
    then obtain k where "k \<le> i" "shortest m c k" using less.IH by blast
    then show ?thesis using i(1) by (intro exI [of _ k]) simp
  next
    case False
    then show ?thesis using less.prems by (auto simp: shortest_iff)
  qed
qed

section \<open>One step keeps the invariant\<close>

text \<open>A step leaves the tile map, and so the routes, unchanged.\<close>

lemma reach_step_maze [simp]: "reach (step_maze m nd) c k = reach m c k"
  by (rule reach_cong) simp_all

lemma shortest_step_maze [simp]: "shortest (step_maze m nd) c k = shortest m c k"
  by (rule shortest_cong) simp_all

lemma free_step_maze [simp]: "free (step_maze m nd) x y = free m x y"
  by (simp add: free_def inBounds_def)

lemma unit_cost_step_maze [simp]: "unit_cost (step_maze m nd) = unit_cost m"
  by (simp add: unit_cost_def)

lemma unit_tile_cost:
  "unit_cost m \<Longrightarrow> in_range (maze_size m) a b \<Longrightarrow> cell (maze_map m) a b \<noteq> Wall \<Longrightarrow>
   tile_cost (cell (maze_map m) a b) = 1"
  by (cases "cell (maze_map m) a b") (auto simp: unit_cost_def all_cells_iff tile_cost_def)

text \<open>With unit costs every node a step enqueues is one layer below the node it
  expands.\<close>

lemma new_node_unit:
  assumes "search_inv m (nd # rest)" "unit_cost m"
    "r \<in> set (new_nodes nd m (getNeighbors m (node_x nd) (node_y nd)))"
  shows "node_distance r = Suc (node_distance nd)"
    "node_pos r \<in> set (getNeighbors m (node_x nd) (node_y nd))"
proof -
  obtain a b where ab: "(a, b) \<in> set (getNeighbors m (node_x nd) (node_y nd))"
      "node_x r = a" "node_y r = b"
      "node_distance r = node_distance nd + tile_cost (cell (maze_map m) a b)"
    using new_nodes_mem [OF assms(3)] by blast
  have "in_range (maze_size m) a b" "cell (maze_map m) a b \<noteq> Wall"
    using getNeighbors_fresh [OF assms(1) ab(1)] by simp_all
  then show "node_distance r = Suc (node_distance nd)"
    using ab(4) unit_tile_cost [OF assms(2)] by simp
  show "node_pos r \<in> set (getNeighbors m (node_x nd) (node_y nd))"
    using ab by (simp add: node_pos_def)
qed

lemma final_exact_step:
  assumes si: "search_inv m (nd # rest)" and fe: "final_exact m"
    and qe: "queue_exact m (nd # rest)"
  shows "final_exact (step_maze m nd)"
proof -
  note head = search_inv_head [OF si]
  have "shortest m (x, y) (the_enat (cell (distances (step_maze m nd)) x y))"
    if r: "in_range (maze_size m) x y" and f: "cell (distances (step_maze m nd)) x y \<noteq> \<infinity>" for x y
  proof (cases "(x, y) = node_pos nd")
    case True
    then show ?thesis
      using step_maze_distances [OF head(1,2) r] qe by (simp add: queue_exact_def)
  next
    case False
    then show ?thesis
      using step_maze_distances [OF head(1,2) r] f fe r by (simp add: final_exact_def all_cells_iff)
  qed
  then show ?thesis by (simp add: final_exact_def all_cells_iff)
qed

lemma closed_step:
  assumes si: "search_inv m (nd # rest)" and cl: "closed m"
  shows "closed (step_maze m nd)"
proof -
  note head = search_inv_head [OF si]
  let ?N = "getNeighbors m (node_x nd) (node_y nd)"
  have "cell (explored (step_maze m nd)) a b"
    if r: "in_range (maze_size m) x y" and f: "cell (distances (step_maze m nd)) x y \<noteq> \<infinity>"
      and c: "(a, b) \<in> set (candidates x y)" and fr: "free m a b" for x y a b
  proof -
    have rab: "in_range (maze_size m) a b" using fr by (rule free_in_range)
    show ?thesis
    proof (cases "(x, y) = node_pos nd")
      case True
      then have "cell (explored m) a b \<or> (a, b) \<in> set ?N"
        using c rab fr getNeighbors_mem [of a b m "node_x nd" "node_y nd"]
        by (auto simp: node_pos_def free_def)
      then show ?thesis using step_maze_explored [OF head(1) rab] by simp
    next
      case False
      then have "cell (distances m) x y \<noteq> \<infinity>"
        using f step_maze_distances [OF head(1,2) r] by simp
      then have "cell (explored m) a b"
        using cl r c fr unfolding closed_def all_cells_iff list_all_iff by fastforce
      then show ?thesis using step_maze_explored [OF head(1) rab] by simp
    qed
  qed
  then show ?thesis unfolding closed_def all_cells_iff list_all_iff by fastforce
qed

lemma tracked_step:
  assumes si: "search_inv m (nd # rest)" and tr: "tracked m (nd # rest)"
  shows "tracked (step_maze m nd) (rest @ new_nodes nd m (getNeighbors m (node_x nd) (node_y nd)))"
proof -
  note head = search_inv_head [OF si]
  let ?N = "getNeighbors m (node_x nd) (node_y nd)"
  let ?Q = "rest @ new_nodes nd m ?N"
  have "cell (distances (step_maze m nd)) x y \<noteq> \<infinity> \<or> (x, y) \<in> set (map node_pos ?Q)"
    if r: "in_range (maze_size m) x y" and e: "cell (explored (step_maze m nd)) x y" for x y
  proof -
    have d: "cell (distances (step_maze m nd)) x y =
               (if (x, y) = node_pos nd then enat (node_distance nd) else cell (distances m) x y)"
      using step_maze_distances [OF head(1,2) r] .
    consider "cell (explored m) x y" | "(x, y) \<in> set ?N"
      using e step_maze_explored [OF head(1) r] by blast
    then show ?thesis
    proof cases
      case 1
      then have "cell (distances m) x y \<noteq> \<infinity> \<or> (x, y) \<in> set (map node_pos (nd # rest))"
        using tr r unfolding tracked_def all_cells_iff by blast
      then show ?thesis using d by auto
    next
      case 2
      then show ?thesis by simp
    qed
  qed
  then show ?thesis unfolding tracked_def all_cells_iff step_maze_simps(1) by blast
qed

lemma layered_step:
  assumes "layered (nd # rest)" "\<forall>r\<in>set new. node_distance r = Suc (node_distance nd)"
  shows "layered (rest @ new)"
proof -
  have band: "node_distance nd \<le> node_distance r \<and> node_distance r \<le> Suc (node_distance nd)"
    if "r \<in> set (rest @ new)" for r
    using that assms by (auto simp: layered_def)
  have "sorted (map node_distance rest)" using assms(1) by (simp add: layered_def)
  moreover have "sorted (map node_distance new)"
    using assms(2) by (simp add: sorted_iff_nth_mono)
  moreover have "\<forall>a\<in>set rest. \<forall>b\<in>set new. node_distance a \<le> node_distance b"
    using assms band by auto
  ultimately have "sorted (map node_distance (rest @ new))" by (auto simp: sorted_append)
  moreover have "node_distance b \<le> Suc (node_distance a)"
    if "a \<in> set (rest @ new)" "b \<in> set (rest @ new)" for a b
    using band [OF that(1)] band [OF that(2)] by linarith
  ultimately show ?thesis unfolding layered_def by blast
qed

text \<open>Reading the parts of the invariant at one tile.\<close>

lemma reach_final:
  assumes "below_final m (nd # rest)" "reach m (x, y) j" "j < node_distance nd"
  shows "cell (distances m) x y \<noteq> \<infinity>"
proof -
  have "in_range (maze_size m) x y" using free_in_range [OF reach_free [OF assms(2)]] .
  then show ?thesis
    using assms unfolding below_final_def all_cells_iff list_all_iff by fastforce
qed

lemma closed_explored:
  assumes "closed m" "in_range (maze_size m) x y" "cell (distances m) x y \<noteq> \<infinity>"
    "(a, b) \<in> set (candidates x y)" "free m a b"
  shows "cell (explored m) a b"
  using assms unfolding closed_def all_cells_iff list_all_iff by fastforce

lemma tracked_tile:
  assumes "tracked m Q" "in_range (maze_size m) x y" "cell (explored m) x y"
  shows "cell (distances m) x y \<noteq> \<infinity> \<or> (x, y) \<in> set (map node_pos Q)"
  using assms unfolding tracked_def all_cells_iff by blast

text \<open>A tile one move beyond a finalised tile is explored.\<close>

lemma reach_Suc_explored:
  assumes bf: "below_final m (nd # rest)" and cl: "closed m"
    and re: "reach m (x, y) (Suc j)" and j: "j < node_distance nd"
  shows "cell (explored m) x y"
proof -
  obtain p q where p: "(p, q) \<in> set (candidates x y)" "reach m (p, q) j"
    using re by (rule reach_SucE)
  have "cell (distances m) p q \<noteq> \<infinity>" using reach_final [OF bf p(2) j] .
  moreover have "in_range (maze_size m) p q" using free_in_range [OF reach_free [OF p(2)]] .
  moreover have "(x, y) \<in> set (candidates p q)" using p(1) candidates_sym by blast
  ultimately show ?thesis using closed_explored [OF cl] reach_free [OF re] by blast
qed

text \<open>The neighbours a step enqueues are exactly one move farther than the node it
  expands: a shorter route would pass through a finalised tile, whose free neighbours
  are all explored already.\<close>

lemma neighbour_shortest:
  assumes si: "search_inv m (nd # rest)" and bf: "below_final m (nd # rest)" and cl: "closed m"
    and qe: "queue_exact m (nd # rest)"
    and c: "(a, b) \<in> set (getNeighbors m (node_x nd) (node_y nd))"
  shows "shortest m (a, b) (Suc (node_distance nd))"
proof -
  note fr = getNeighbors_fresh [OF si c]
  have fab: "free m a b" using fr(1,5) by (simp add: free_def inBounds_in_range)
  have "reach m (node_x nd, node_y nd) (node_distance nd)"
    using qe by (simp add: queue_exact_def node_pos_def shortest_iff)
  then have r: "reach m (a, b) (Suc (node_distance nd))"
    using reach_move fr(7) fab by blast
  have "\<not> reach m (a, b) j" if j: "j < Suc (node_distance nd)" for j
  proof
    assume "reach m (a, b) j"
    then obtain k where k: "k \<le> j" "shortest m (a, b) k" using reach_shortest by blast
    show False
    proof (cases k)
      case 0
      then show False using k(2) fr(6) by (simp add: shortest_iff)
    next
      case (Suc k1)
      have re: "reach m (a, b) (Suc k1)" using shortest_reach [OF k(2)] unfolding Suc .
      have "k1 < node_distance nd" using k(1) j Suc by simp
      then have "cell (explored m) a b" using reach_Suc_explored [OF bf cl re] by blast
      then show False using fr(2) by simp
    qed
  qed
  then show ?thesis using r by (simp add: shortest_iff)
qed

lemma queue_exact_step:
  assumes si: "search_inv m (nd # rest)" and uc: "unit_cost m" and bf: "below_final m (nd # rest)"
    and cl: "closed m" and qe: "queue_exact m (nd # rest)"
  shows "queue_exact (step_maze m nd) (rest @ new_nodes nd m (getNeighbors m (node_x nd) (node_y nd)))"
proof -
  have "shortest m (node_pos r) (node_distance r)"
    if r: "r \<in> set (new_nodes nd m (getNeighbors m (node_x nd) (node_y nd)))" for r
  proof -
    obtain a b where ab: "node_pos r = (a, b)" by fastforce
    then show ?thesis
      using new_node_unit [OF si uc r] neighbour_shortest [OF si bf cl qe] by simp
  qed
  then show ?thesis using qe by (auto simp: queue_exact_def list_all_iff)
qed

text \<open>When every node left behind the head is one layer farther, every tile at the
  head's distance is finalised or is the head itself.\<close>

lemma layer_final:
  assumes bi: "bfs_inv m (nd # rest)" and re: "reach m (x, y) (node_distance nd)"
    and far: "\<forall>r\<in>set rest. node_distance nd < node_distance r"
  shows "cell (distances m) x y \<noteq> \<infinity> \<or> (x, y) = node_pos nd"
proof -
  have bf: "below_final m (nd # rest)" and cl: "closed m" and qe: "queue_exact m (nd # rest)"
    and tr: "tracked m (nd # rest)"
    using bi by (simp_all add: bfs_inv_def)
  obtain k where k: "k \<le> node_distance nd" "shortest m (x, y) k"
    using reach_shortest [OF re] by blast
  show ?thesis
  proof (cases "k < node_distance nd")
    case True
    then show ?thesis using reach_final [OF bf shortest_reach [OF k(2)]] by simp
  next
    case False
    then have kq: "k = node_distance nd" using k(1) by simp
    show ?thesis
    proof (cases k)
      case 0
      then have "(x, y) = (0, 0)" using k(2) by (simp add: shortest_iff)
      moreover have "shortest m (node_pos nd) 0" using qe kq 0 by (simp add: queue_exact_def)
      ultimately show ?thesis by (simp add: shortest_iff)
    next
      case (Suc j)
      have re': "reach m (x, y) (Suc j)" using shortest_reach [OF k(2)] unfolding Suc .
      have "j < node_distance nd" using kq Suc by simp
      then have "cell (explored m) x y" using reach_Suc_explored [OF bf cl re'] by blast
      then have "cell (distances m) x y \<noteq> \<infinity> \<or> (x, y) \<in> set (map node_pos (nd # rest))"
        using tracked_tile [OF tr free_in_range [OF reach_free [OF re]]] by blast
      moreover have "(x, y) \<notin> set (map node_pos rest)"
      proof
        assume "(x, y) \<in> set (map node_pos rest)"
        then obtain r where r: "r \<in> set rest" "node_pos r = (x, y)" by auto
        then have "shortest m (x, y) (node_distance r)" using qe by (auto simp: queue_exact_def list_all_iff)
        then have "node_distance r = k" using shortest_unique [OF k(2)] by simp
        then show False using far r(1) kq by fastforce
      qed
      ultimately show ?thesis by auto
    qed
  qed
qed

lemma below_final_step:
  assumes si: "search_inv m (nd # rest)" and uc: "unit_cost m" and bi: "bfs_inv m (nd # rest)"
  shows "below_final (step_maze m nd) (rest @ new_nodes nd m (getNeighbors m (node_x nd) (node_y nd)))"
proof -
  note head = search_inv_head [OF si]
  let ?new = "new_nodes nd m (getNeighbors m (node_x nd) (node_y nd))"
  let ?q = "node_distance nd"
  have bf: "below_final m (nd # rest)" and lay: "layered (nd # rest)"
    using bi by (simp_all add: bfs_inv_def)
  have newd: "\<forall>r\<in>set ?new. node_distance r = Suc ?q" using new_node_unit(1) [OF si uc] by blast
  have lay': "layered (rest @ ?new)" using layered_step [OF lay newd] .
  show ?thesis
  proof (cases "rest @ ?new")
    case Nil
    then show ?thesis by (simp add: below_final_def)
  next
    case (Cons h Q2)
    have hset: "h \<in> set (rest @ ?new)" using Cons by simp
    have hmin: "node_distance h \<le> node_distance r" if "r \<in> set (rest @ ?new)" for r
      using lay' that unfolding Cons layered_def by auto
    have hle: "node_distance h \<le> Suc ?q"
      using lay hset newd by (auto simp: layered_def)
    have "cell (distances (step_maze m nd)) x y \<noteq> \<infinity>"
      if r: "in_range (maze_size m) x y" and j: "j < node_distance h" and re: "reach m (x, y) j" for x y j
    proof -
      have "cell (distances m) x y \<noteq> \<infinity> \<or> (x, y) = node_pos nd"
      proof (cases "j < ?q")
        case True
        then show ?thesis using reach_final [OF bf re] by simp
      next
        case False
        then have jq: "j = ?q" using j hle by simp
        have "\<forall>r\<in>set rest. ?q < node_distance r" using hmin j jq by fastforce
        then show ?thesis using layer_final [OF bi] re jq by blast
      qed
      then show ?thesis using step_maze_distances [OF head(1,2) r] by auto
    qed
    then show ?thesis
      unfolding below_final_def Cons all_cells_iff list_all_iff step_maze_simps(1) by auto
  qed
qed

lemma bfs_inv_step:
  assumes si: "search_inv m (nd # rest)" and uc: "unit_cost m" and bi: "bfs_inv m (nd # rest)"
  shows "bfs_inv (step_maze m nd) (rest @ new_nodes nd m (getNeighbors m (node_x nd) (node_y nd)))"
proof -
  have parts: "final_exact m" "queue_exact m (nd # rest)" "layered (nd # rest)" "closed m"
      "tracked m (nd # rest)" "below_final m (nd # rest)"
    using bi by (simp_all add: bfs_inv_def)
  have "\<forall>r\<in>set (new_nodes nd m (getNeighbors m (node_x nd) (node_y nd))). node_distance r = Suc (node_distance nd)"
    using new_node_unit(1) [OF si uc] by blast
  then show ?thesis
    using final_exact_step [OF si parts(1,2)] queue_exact_step [OF si uc parts(6,4,2)]
      layered_step [OF parts(3)] closed_step [OF si parts(4)] tracked_step [OF si parts(5)]
      below_final_step [OF si uc bi]
    by (simp add: bfs_inv_def)
qed

section \<open>The solver keeps the invariant\<close>

lemma sp_inv_canvas [simp]: "sp_inv (s\<lparr>canvas := c\<rparr>) = sp_inv s"
  by (simp add: sp_inv_def)

lemma sp_inv_solving [simp]: "sp_inv (s\<lparr>solving := b\<rparr>) = sp_inv s"
  by (simp add: sp_inv_def)

lemma sp_inv_step:
  assumes "solver_inv s" "sp_inv s" "step s = Inr s'"
  shows "sp_inv s'"
proof -
  obtain nd rest where q: "elements (queue s) = nd # rest"
    using assms(3) by (cases "elements (queue s)") (auto simp: step_empty)
  have si: "search_inv (maze s) (nd # rest)" using assms(1) q by (simp add: solver_inv_def)
  show ?thesis
    using assms(2,3) q bfs_inv_step [OF si] by (auto simp: sp_inv_def step_cons [OF q])
qed

text \<open>The seed over fresh fields starts a breadth-first search.\<close>

lemma bfs_inv_seed:
  assumes wf: "wf_maze m" and fresh: "fresh_fields m" and ec: "ends_clear m"
  shows "bfs_inv m [seed]"
proof -
  have n: "0 < maze_size m" using wf_maze_squares(1) [OF wf] .
  have f: "cell (distances m) x y = \<infinity>" "cell (explored m) x y = ((x, y) = (0, 0))"
    if "in_range (maze_size m) x y" for x y
    using fresh that by (simp_all add: fresh_fields_def all_cells_iff)
  have "free m 0 0" using n ec by (simp add: free_def inBounds_def ends_clear_def)
  then have "shortest m (0, 0) 0" by (simp add: shortest_def)
  then have "queue_exact m [seed]" by (simp add: queue_exact_def seed_def node_pos_def)
  moreover have "final_exact m" "closed m" using f by (simp_all add: final_exact_def closed_def all_cells_iff)
  moreover have "tracked m [seed]" using f by (simp add: tracked_def all_cells_iff seed_def node_pos_def)
  moreover have "layered [seed]" "below_final m [seed]"
    by (simp_all add: layered_def below_final_def seed_def all_cells_iff)
  ultimately show ?thesis by (simp add: bfs_inv_def)
qed

section \<open>What the invariant gives\<close>

lemma final_free:
  assumes "final_exact m" "in_range (maze_size m) x y" "cell (distances m) x y \<noteq> \<infinity>"
  shows "free m x y"
proof -
  have "shortest m (x, y) (the_enat (cell (distances m) x y))"
    using assms unfolding final_exact_def all_cells_iff by blast
  then show ?thesis using reach_free shortest_reach by blast
qed

lemma final_shortest:
  assumes "final_exact m" "in_range (maze_size m) x y" "cell (distances m) x y = enat k"
  shows "shortest m (x, y) k"
  using assms unfolding final_exact_def all_cells_iff by fastforce

text \<open>Once the queue is empty, every tile that has a route from the origin is
  finalised.\<close>

lemma empty_queue_complete:
  assumes bi: "bfs_inv m []" and fe: "final_explored m" and re: "reach m (x, y) k"
  shows "cell (distances m) x y \<noteq> \<infinity>"
  using re
proof (induction k arbitrary: x y)
  case 0
  then have "(x, y) = (0, 0)" "in_range (maze_size m) 0 0"
    using free_in_range [OF reach_free [OF "0.prems"]] by auto
  moreover have "cell (explored m) 0 0" using fe by (simp add: final_explored_def)
  ultimately show ?case using tracked_tile [of m "[]" 0 0] bi by (simp add: bfs_inv_def)
next
  case (Suc k)
  obtain p q where p: "(p, q) \<in> set (candidates x y)" "reach m (p, q) k"
    using Suc.prems by (rule reach_SucE)
  have "cell (distances m) p q \<noteq> \<infinity>" using Suc.IH [OF p(2)] .
  moreover have "in_range (maze_size m) p q" using free_in_range [OF reach_free [OF p(2)]] .
  moreover have "(x, y) \<in> set (candidates p q)" using p(1) candidates_sym by blast
  ultimately have "cell (explored m) x y"
    using closed_explored [of m p q x y] bi reach_free [OF Suc.prems] by (simp add: bfs_inv_def)
  then show ?case
    using tracked_tile [of m "[]" x y] bi free_in_range [OF reach_free [OF Suc.prems]]
    by (simp add: bfs_inv_def)
qed

text \<open>A path down the distance field is no longer than the distance it starts from, and,
  read backwards through free tiles, it is a route from the origin.\<close>

lemma steps_down_length:
  "steps_down m (c # p) \<Longrightarrow> list_all (\<lambda>(a, b). cell (distances m) a b \<noteq> \<infinity>) (c # p) \<Longrightarrow>
   cell (distances m) (fst c) (snd c) = enat k \<Longrightarrow> length p \<le> k"
proof (induction p arbitrary: c k)
  case Nil
  then show ?case by simp
next
  case (Cons q p)
  obtain k' where k': "cell (distances m) (fst q) (snd q) = enat k'"
    using Cons.prems(2) by (cases "cell (distances m) (fst q) (snd q)") (auto simp: case_prod_beta)
  then have "k' < k" using Cons.prems(1,3) by simp
  moreover have "length p \<le> k'" using Cons.IH [of q k'] Cons.prems(1,2) k' by simp
  ultimately show ?case by simp
qed

lemma path_from_tail: "path_from m c (c # q # rest) \<Longrightarrow> path_from m q (q # rest)"
  by (simp add: path_from_def)

lemma path_reach:
  assumes "path_from m c p" "list_all (\<lambda>(a, b). free m a b) p"
  shows "reach m c (length p - 1)"
  using assms
proof (induction p arbitrary: c)
  case Nil
  then show ?case by (simp add: path_from_def)
next
  case (Cons c0 p)
  then have c0: "c0 = c" by (simp add: path_from_def)
  show ?case
  proof (cases p)
    case Nil
    then have "c = (0, 0)" "free m 0 0" using Cons.prems c0 by (simp_all add: path_from_def)
    then show ?thesis using Nil by simp
  next
    case (Cons q rest)
    have pq: "path_from m q p" using path_from_tail Cons.prems(1) c0 Cons by simp
    then have "reach m q (length p - 1)" using Cons.IH Cons.prems(2) by simp
    moreover have "c \<in> set (candidates (fst q) (snd q))"
      using Cons.prems(1) c0 Cons candidates_sym [of "fst c" "snd c" "fst q" "snd q"]
      by (simp add: path_from_def)
    moreover have "free m (fst c) (snd c)" using Cons.prems(2) c0 by (simp add: case_prod_beta)
    ultimately have "reach m c (Suc (length p - 1))"
      using reach_move [of m "fst q" "snd q" _ "fst c" "snd c"] by simp
    then show ?thesis using Cons by simp
  qed
qed

section \<open>Skip and the tick keep the invariant\<close>

lemma sp_inv_pause [simp]: "sp_inv (pause s) = sp_inv s"
  by (simp add: pause_def)

lemma sp_inv_skip:
  assumes "solver_inv s" "sp_inv s" "skip s = Some (Inr s')"
  shows "sp_inv s'"
proof (rule skip_preserves [where P = sp_inv, OF assms])
  show "sp_inv t'" if "solver_inv t" "sp_inv t" "step t = Inr t'" for t t'
    using sp_inv_step [OF that] .
  show "sp_inv (t\<lparr>canvas := c\<rparr>)" if "sp_inv t" for t c
    using that by simp
qed

lemma sp_inv_solveLoop:
  assumes "solver_inv s" "sp_inv s" "solveLoop s = Some (Inr s')"
  shows "sp_inv s'"
proof (rule solveLoop_preserves [where P = sp_inv, OF assms])
  show "sp_inv t'" if "solver_inv t" "sp_inv t" "step t = Inr t'" for t t'
    using sp_inv_step [OF that] .
  show "sp_inv (t\<lparr>canvas := c\<rparr>)" if "sp_inv t" for t c
    using that by simp
  show "sp_inv (pause t)" if "sp_inv t" for t
    using that by simp
qed

text \<open>While the origin is not finalised the lock invariant says the search has not
  started; such a solver over a unit-cost maze starts a breadth-first search.\<close>

lemma sp_inv_locked:
  assumes "solver_inv s" "ends_clear (maze s)" "unit_cost (maze s)"
    "cell (distances (maze s)) 0 0 = \<infinity>"
  shows "sp_inv s"
proof -
  have "elements (queue s) = [seed]" "fresh_fields (maze s)" "wf_maze (maze s)"
    using assms(1,4) by (simp_all add: solver_inv_def lock_ok_def search_inv_def)
  then show ?thesis using bfs_inv_seed [of "maze s"] assms(2,3) by (simp add: sp_inv_def)
qed

section \<open>The drawn path is a shortest route\<close>

lemma draw_path_shortest:
  assumes si: "solver_inv s" and sp: "sp_inv s" and sv: "solved (maze s) = Inr True"
  shows "\<exists>p k. draw_path (maze s) = Some (Inr p) \<and> path_from (maze s) (goal (maze s)) p \<and>
           cell (distances (maze s)) (fst (goal (maze s))) (snd (goal (maze s))) = enat k \<and>
           shortest (maze s) (goal (maze s)) k \<and> length p = Suc k"
proof -
  let ?m = "maze s"
  have wf: "wf_maze ?m" using solver_inv_wf [OF si] .
  have fe: "final_exact ?m" using sp by (simp add: sp_inv_def bfs_inv_def)
  obtain p where p: "draw_path ?m = Some (Inr p)" "path_from ?m (goal ?m) p"
    using draw_path_ok [OF wf solver_inv_descent [OF si] sv] by blast
  have n: "0 < maze_size ?m" using wf_maze_squares(1) [OF wf] .
  obtain k where k: "cell (distances ?m) (fst (goal ?m)) (snd (goal ?m)) = enat k"
    using sv solved_wf [OF wf] by auto
  have sh: "shortest ?m (goal ?m) k"
    using final_shortest [OF fe in_range_corner [OF n]] k by simp
  have fin: "list_all (\<lambda>(a, b). cell (distances ?m) a b \<noteq> \<infinity>) p"
    and rng: "list_all (\<lambda>(a, b). in_range (maze_size ?m) a b) p"
    using p(2) by (auto simp: path_from_def list_all_iff)
  obtain q where pq: "p = goal ?m # q" using p(2) by (cases p) (auto simp: path_from_def)
  have "length q \<le> k"
    using steps_down_length [of ?m "goal ?m" q k] p(2) fin k pq by (simp add: path_from_def)
  moreover have "list_all (\<lambda>(a, b). free ?m a b) p"
    unfolding list_all_iff
  proof (intro ballI, clarify)
    fix a b
    assume ab: "(a, b) \<in> set p"
    have "in_range (maze_size ?m) a b" using rng ab by (auto simp: list_all_iff)
    moreover have "cell (distances ?m) a b \<noteq> \<infinity>" using fin ab by (auto simp: list_all_iff)
    ultimately show "free ?m a b" by (rule final_free [OF fe])
  qed
  then have "reach ?m (goal ?m) (length p - 1)" using path_reach [OF p(2)] by blast
  then have "k \<le> length q" using shortest_le [OF sh] pq by simp
  ultimately have "length p = Suc k" using pq by simp
  then show ?thesis using p k sh by blast
qed

text \<open>On an empty queue with the goal unreached, there is no route to the goal.\<close>

lemma no_route:
  assumes si: "solver_inv s" and sp: "sp_inv s" and e: "isEmpty (queue s)"
    and g: "cell (distances (maze s)) (fst (goal (maze s))) (snd (goal (maze s))) = \<infinity>"
  shows "\<not> reach (maze s) (goal (maze s)) k"
proof
  assume r: "reach (maze s) (goal (maze s)) k"
  have bi: "bfs_inv (maze s) []" using sp e by (simp add: sp_inv_def isEmpty_def)
  have fe: "final_explored (maze s)" using si by (simp add: solver_inv_def search_inv_def)
  have "cell (distances (maze s)) (fst (goal (maze s))) (snd (goal (maze s))) \<noteq> \<infinity>"
    using empty_queue_complete [OF bi fe r] by simp
  then show False using g by blast
qed

section \<open>Routes on two shapes of maze\<close>

text \<open>Every move changes \<open>x + y\<close> by one, so a route to \<open>(x, y)\<close> has at least \<open>x + y\<close>
  moves.\<close>

lemma reach_lower: "reach m (x, y) k \<Longrightarrow> x + y \<le> int k"
proof (induction k arbitrary: x y)
  case 0
  then show ?case by simp
next
  case (Suc k)
  obtain a b where ab: "(a, b) \<in> set (candidates x y)" "reach m (a, b) k"
    using Suc.prems by (rule reach_SucE)
  have "a + b \<le> int k" using Suc.IH [OF ab(2)] .
  then show ?case using ab(1) by (auto simp: candidates_def)
qed

text \<open>On a map with no walls the staircase route reaches \<open>(x, y)\<close> in \<open>x + y\<close> moves.\<close>

lemma reach_open:
  assumes op: "\<And>a b. in_range (maze_size m) a b \<Longrightarrow> cell (maze_map m) a b = Empty"
    and r: "in_range (maze_size m) x y"
  shows "reach m (x, y) (nat (x + y))"
  using r
proof (induction "nat (x + y)" arbitrary: x y)
  case 0
  then have "x = 0" "y = 0" by (auto simp: in_range_def)
  then show ?case using op [OF "0.prems"] "0.prems" by (simp add: free_def inBounds_in_range)
next
  case (Suc k)
  have fr: "free m x y" using op [OF Suc.prems] Suc.prems by (simp add: free_def inBounds_in_range)
  show ?case
  proof (cases "0 < x")
    case True
    then have r': "in_range (maze_size m) (x - 1) y" using Suc.prems by (simp add: in_range_def)
    have "k = nat (x - 1 + y)" using Suc.hyps(2) by arith
    then have "reach m (x - 1, y) k" using Suc.hyps(1) [of "x - 1" y] r' by simp
    moreover have "(x, y) \<in> set (candidates (x - 1) y)" by (simp add: candidates_def)
    ultimately show ?thesis using reach_move fr Suc.hyps(2) by (metis Suc_nat_eq_nat_zadd1 add.commute)
  next
    case False
    then have "x = 0" "0 < y" using Suc.prems Suc.hyps(2) by (auto simp: in_range_def)
    then have r': "in_range (maze_size m) x (y - 1)" using Suc.prems by (simp add: in_range_def)
    have "k = nat (x + (y - 1))" using Suc.hyps(2) by arith
    then have "reach m (x, y - 1) k" using Suc.hyps(1) [of x "y - 1"] r' by simp
    moreover have "(x, y) \<in> set (candidates x (y - 1))" by (simp add: candidates_def)
    ultimately show ?thesis using reach_move fr Suc.hyps(2) by (metis Suc_nat_eq_nat_zadd1 add.commute)
  qed
qed

text \<open>So on an open maze the goal is exactly \<open>2 (n - 1)\<close> moves away.\<close>

lemma shortest_open_goal:
  assumes op: "\<And>a b. in_range (maze_size m) a b \<Longrightarrow> cell (maze_map m) a b = Empty"
    and n: "0 < maze_size m"
  shows "shortest m (int (maze_size m) - 1, int (maze_size m) - 1) (2 * (maze_size m - 1))"
proof -
  let ?n = "maze_size m"
  have "reach m (int ?n - 1, int ?n - 1) (nat (int ?n - 1 + (int ?n - 1)))"
    using reach_open [OF op in_range_corner [OF n]] .
  moreover have "nat (int ?n - 1 + (int ?n - 1)) = 2 * (?n - 1)" using n by simp
  moreover have "\<not> reach m (int ?n - 1, int ?n - 1) j" if "j < 2 * (?n - 1)" for j
    using reach_lower [of m "int ?n - 1" "int ?n - 1" j] that n by auto
  ultimately show ?thesis by (simp add: shortest_iff)
qed

text \<open>With walls on both neighbours of the origin, no tile but the origin has a route.\<close>

lemma reach_walled_origin:
  assumes "cell (maze_map m) 1 0 = Wall" "cell (maze_map m) 0 1 = Wall"
  shows "reach m (x, y) k \<Longrightarrow> (x, y) = (0, 0)"
proof (induction k arbitrary: x y)
  case 0
  then show ?case by simp
next
  case (Suc k)
  obtain a b where ab: "(a, b) \<in> set (candidates x y)" "reach m (a, b) k"
    using Suc.prems by (rule reach_SucE)
  have "(a, b) = (0, 0)" using Suc.IH [OF ab(2)] .
  then have "(x, y) \<in> set (candidates 0 0)" using ab(1) candidates_sym by blast
  moreover have "free m x y" using reach_free [OF Suc.prems] .
  ultimately show ?case
    using assms by (auto simp: candidates_def free_def inBounds_def)
qed

section \<open>A step of breadth-first search\<close>

text \<open>
  C23.  On a unit-cost maze, from any state satisfying both invariants with a non-empty
  queue, \<^verbatim>\<open>step()\<close> finalises the head at its shortest distance, enqueues its new
  neighbours exactly one move farther, and keeps the breadth-first invariant.
\<close>

theorem bfs_step:
  assumes "solver_inv s" "sp_inv s" "\<not> isEmpty (queue s)"
  shows "\<exists>s'. step s = Inr s' \<and> sp_inv s' \<and>
           shortest (maze s) (node_pos (hd (elements (queue s)))) (node_distance (hd (elements (queue s)))) \<and>
           list_all (\<lambda>r. node_distance r = Suc (node_distance (hd (elements (queue s)))))
             (drop (length (elements (queue s)) - 1) (elements (queue s')))"
proof -
  obtain nd rest where q: "elements (queue s) = nd # rest"
    using assms(3) by (cases "elements (queue s)") (auto simp: isEmpty_def)
  have si: "search_inv (maze s) (nd # rest)" using assms(1) q by (simp add: solver_inv_def)
  have uc: "unit_cost (maze s)" and qe: "queue_exact (maze s) (nd # rest)"
    using assms(2) q by (simp_all add: sp_inv_def bfs_inv_def)
  let ?s' = "s\<lparr>maze := step_maze (maze s) nd,
      queue := (queue s)\<lparr>elements := rest @ new_nodes nd (maze s) (getNeighbors (maze s) (node_x nd) (node_y nd))\<rparr>,
      canvas := canvas s @ [Visited (node_x nd) (node_y nd)]\<rparr>"
  have st: "step s = Inr ?s'" using step_cons [OF q] .
  have "sp_inv ?s'" using sp_inv_step [OF assms(1,2) st] .
  moreover have "shortest (maze s) (node_pos nd) (node_distance nd)" using qe by (simp add: queue_exact_def)
  moreover have "list_all (\<lambda>r. node_distance r = Suc (node_distance nd))
      (new_nodes nd (maze s) (getNeighbors (maze s) (node_x nd) (node_y nd)))"
    using new_node_unit(1) [OF si uc] by (simp add: list_all_iff)
  ultimately show ?thesis using st q by simp
qed

end
