(* ===== verification/Session.thy ===== *)
theory Session
  imports App Shortest
begin

text \<open>
  Breadth-first search in a session of the page.  The page never places a slow tile:
  \<^verbatim>\<open>getTile\<close> draws walls and empty tiles, \<^verbatim>\<open>blockToTile\<close> maps the two blocks to
  empty and wall, and \<^verbatim>\<open>clearEnds\<close> writes empty tiles.  So every reachable session
  has a unit-cost map, and its solver satisfies \<open>sp_inv\<close> of theory \<open>Shortest\<close>:
  handlers that rebuild or edit the map leave the search unstarted, and \<^verbatim>\<open>step\<close>,
  \<^verbatim>\<open>skip\<close> and the tick keep it.  The theory lifts the consequences of \<open>sp_inv\<close> to
  every reachable session.
\<close>

text \<open>The termination measure of a solver is at most the number of cells.\<close>

definition measure_bounded :: "solver \<Rightarrow> bool" where
  "measure_bounded s \<longleftrightarrow> search_measure s \<le> maze_size (maze s) * maze_size (maze s)"

section \<open>The page writes no slow tile\<close>

lemma unit_cost_cong:
  "maze_map m' = maze_map m \<Longrightarrow> maze_size m' = maze_size m \<Longrightarrow> unit_cost m' = unit_cost m"
  by (simp add: unit_cost_def)

lemma getTile_not_Slow: "getTile freq r \<noteq> Slow"
  by (simp add: getTile_def)

lemma blockToTile_not_Slow: "blockToTile b \<noteq> Slow"
  by (cases b) (simp_all add: blockToTile_def)

lemma clearEnds_cells: "clearEnds g = Inr g' \<Longrightarrow> cell g' a b = Empty \<or> cell g' a b = cell g a b"
  using cell_set_cell_cases [of "set_cell g 0 0 Empty"] cell_set_cell_cases [of g 0 0 Empty a b]
  by (fastforce simp: clearEnds_def split: if_splits)

lemma unit_cost_setBlock:
  assumes "unit_cost m" "t \<noteq> Slow" "setBlock x y t m = Inr m'"
  shows "unit_cost m'"
proof (cases "cell (distances m) 0 0 = \<infinity>")
  case True
  then obtain g where g: "clearEnds (set_cell (maze_map m) x y t) = Inr g" "m' = m\<lparr>maze_map := g\<rparr>"
    using assms(3) by (auto simp: setBlock_def split: sum.splits)
  have "cell g a b \<noteq> Slow" if "in_range (maze_size m) a b" for a b
    using clearEnds_cells [OF g(1), of a b] cell_set_cell_cases [of "maze_map m" x y t a b]
      assms(1,2) that by (auto simp: unit_cost_def all_cells_iff)
  then show ?thesis using g(2) by (simp add: unit_cost_def all_cells_iff)
next
  case False
  then have "(cell (distances m) 0 0 = \<infinity>) = False" by blast
  then have "m' = m" using assms(3) by (simp only: setBlock_def if_False sum.inject)
  then show ?thesis using assms(1) by simp
qed

lemma unit_cost_setUpMaze:
  assumes "setUpMaze n freq rnd m = Inr m'"
  shows "unit_cost m'"
proof -
  have n: "0 < n" using assms by (cases n) (simp_all add: setUpMaze_zero)
  obtain m2 where m2: "setUpMaze n freq rnd m = Inr m2" "maze_size m2 = n" "ends_clear m2"
      "\<forall>x y. in_range n x y \<longrightarrow> (x, y) \<noteq> (0, 0) \<longrightarrow> (x, y) \<noteq> (int n - 1, int n - 1) \<longrightarrow>
         cell (maze_map m2) x y = getTile freq (rnd (nat x * n + nat y))"
    using setUpMaze_Inr [OF n] by blast
  have "m2 = m'" using assms m2(1) by simp
  moreover have "cell (maze_map m2) x y \<noteq> Slow" if r: "in_range n x y" for x y
  proof (cases "(x, y) = (0, 0) \<or> (x, y) = (int n - 1, int n - 1)")
    case True
    then show ?thesis using m2(2,3) by (auto simp: ends_clear_def)
  next
    case False
    then have "cell (maze_map m2) x y = getTile freq (rnd (nat x * n + nat y))"
      using m2(4) r by blast
    then show ?thesis by (simp add: getTile_not_Slow)
  qed
  ultimately show ?thesis using m2(2) by (simp add: unit_cost_def all_cells_iff)
qed

lemma fresh_origin: "fresh_fields m \<Longrightarrow> 0 < maze_size m \<Longrightarrow> cell (distances m) 0 0 = \<infinity>"
  by (simp add: fresh_fields_def all_cells_iff)

text \<open>Restarting keeps the map and unlocks it.\<close>

lemma restart_unlocked:
  assumes "wf_maze (maze s)" "unit_cost (maze s)" "controls_restart s = Inr s'"
  shows "unit_cost (maze s') \<and> cell (distances (maze s')) 0 0 = \<infinity>"
proof -
  let ?s = "pause (controls_pause s)"
  have "wf_maze (maze ?s)" using assms(1) by (simp add: controls_pause_def pause_def)
  then obtain t where t: "reset ?s = Inr t" "maze_map (maze t) = maze_map (maze s)"
      "maze_size (maze t) = maze_size (maze s)" "fresh_fields (maze t)"
    using reset_inv by (fastforce simp: controls_pause_def pause_def)
  have "t = s'" using t(1) assms(3) by (simp add: controls_restart_def)
  moreover have "0 < maze_size (maze t)" using t(3) wf_maze_squares(1) [OF assms(1)] by simp
  ultimately show ?thesis
    using t(2-4) unit_cost_cong [of "maze t" "maze s"] assms(2) fresh_origin by auto
qed

section \<open>Every handler keeps the search a breadth-first search\<close>

text \<open>A property of solvers that \<open>step\<close> keeps, that drawing and the running flag do
  not affect, and that holds whenever the search has not started, holds after every
  handler: the handlers either rebuild or edit the map while the search is unstarted,
  or only step, draw and start or stop the solver.\<close>

lemma handle_preserves:
  assumes inv: "app_inv a" and uc: "unit_cost (maze (solver a))" and ok: "event_ok a e"
    and h: "handle e a = Some (Inr a')" and P: "P (solver a)"
    and step: "\<And>t t'. solver_inv t \<Longrightarrow> P t \<Longrightarrow> step t = Inr t' \<Longrightarrow> P t'"
    and draw: "\<And>t c. P t \<Longrightarrow> P (t\<lparr>canvas := c\<rparr>)"
    and run: "\<And>t b. P t \<Longrightarrow> P (t\<lparr>solving := b\<rparr>)"
    and locked: "\<And>t. solver_inv t \<Longrightarrow> ends_clear (maze t) \<Longrightarrow> unit_cost (maze t) \<Longrightarrow>
                   cell (distances (maze t)) 0 0 = \<infinity> \<Longrightarrow> P t"
  shows "P (solver a')"
proof -
  have inv': "solver_inv (solver a')" "ends_clear (maze (solver a'))"
    using handle_inv [OF inv ok h] by (simp_all add: app_inv_def)
  have si: "solver_inv (solver a)" using inv by (simp add: app_inv_def)
  have sip: "solver_inv (controls_pause (solver a))" using si by (simp add: controls_pause_def pause_def)
  have Pp: "P (controls_pause (solver a))" using run [OF P] by (simp add: controls_pause_def pause_def)
  have halt: "P (pause t)" if "P t" for t using run [OF that] by (simp add: pause_def)
  have lock': "P (solver a')"
    if "unit_cost (maze (solver a'))" "cell (distances (maze (solver a'))) 0 0 = \<infinity>"
    using locked [OF inv' that] .
  show ?thesis
  proof (cases e)
    case (ClickBlock b)
    then show ?thesis using h P by (auto simp: activate_def)
  next
    case (Paint x y)
    then obtain m' where m': "setBlock x y (blockToTile (active a)) (maze (solver a)) = Inr m'"
        "a' = a\<lparr>solver := (solver a)\<lparr>maze := m'\<rparr>\<rparr>"
      using h by (auto simp: map_sum_eq_Inr)
    show ?thesis
    proof (cases "cell (distances (maze (solver a))) 0 0 = \<infinity>")
      case True
      have "unit_cost m'" using unit_cost_setBlock [OF uc blockToTile_not_Slow m'(1)] .
      moreover have "distances m' = distances (maze (solver a))"
        using m'(1) True by (auto simp: setBlock_def split: sum.splits)
      ultimately show ?thesis using lock' True m'(2) by simp
    next
      case False
      then have "(cell (distances (maze (solver a))) 0 0 = \<infinity>) = False" by blast
      then have "m' = maze (solver a)" using m'(1) by (simp only: setBlock_def if_False sum.inject)
      then show ?thesis using m'(2) P by simp
    qed
  next
    case PlayBtn
    then show ?thesis
      using h P run by (auto simp: with_solver_Inr controls_play_def play_def split: sum.splits if_splits)
  next
    case PauseBtn
    then show ?thesis using h Pp by (auto simp: controls_pause_def)
  next
    case StepBtn
    then obtain s' where s': "controls_step (solver a) = Inr s'" "a' = a\<lparr>solver := s'\<rparr>"
      using h by (auto simp: with_solver_Inr)
    show ?thesis
    proof (cases "canStep (controls_pause (solver a)) = Inr True")
      case True
      then have "step (controls_pause (solver a)) = Inr s'" using s'(1) by (simp add: controls_step_def)
      then show ?thesis using step [OF sip Pp] s'(2) by simp
    next
      case False
      obtain b where b: "canStep (controls_pause (solver a)) = Inr b"
        using canStep_inv [OF sip] by blast
      with False have "\<not> b" by simp
      then have "s' = controls_pause (solver a)"
        using s'(1) b by (simp add: controls_step_def)
      then show ?thesis using Pp s'(2) by simp
    qed
  next
    case SkipBtn
    then obtain s' where s': "skip (controls_pause (solver a)) = Some (Inr s')" "a' = a\<lparr>solver := s'\<rparr>"
      using h by (auto simp: with_solver_Inr controls_skip_def)
    have "P s'"
    proof (rule skip_preserves [where P = P, OF sip Pp s'(1)])
      show "P t'" if "solver_inv t" "P t" "step t = Inr t'" for t t' using step [OF that] .
      show "P (t\<lparr>canvas := c\<rparr>)" if "P t" for t c using draw [OF that] .
    qed
    then show ?thesis using s'(2) by simp
  next
    case RestartBtn
    then obtain s' where s': "controls_restart (solver a) = Inr s'" "a' = a\<lparr>solver := s'\<rparr>"
      using h by (auto simp: with_solver_Inr)
    then show ?thesis
      using restart_unlocked [OF solver_inv_wf [OF si] uc] lock' by simp
  next
    case (ResetMazeBtn n freq rnd)
    then obtain s' m where s': "setUpMaze n freq rnd (maze (solver a)) = Inr m"
        "controls_restart ((solver a)\<lparr>maze := m\<rparr>) = Inr s'" "a' = a\<lparr>solver := s'\<rparr>"
      using h by (auto simp: with_solver_Inr resetMaze_def split: sum.splits)
    have "wf_maze m" using setUpMaze_Inr [of n freq rnd "maze (solver a)"] s'(1)
      by (cases n) (auto simp: setUpMaze_zero)
    then show ?thesis
      using restart_unlocked [of "(solver a)\<lparr>maze := m\<rparr>"] unit_cost_setUpMaze [OF s'(1)] s'(2,3) lock'
      by simp
  next
    case Tick
    then obtain s' where s': "solveLoop (solver a) = Some (Inr s')" "a' = a\<lparr>solver := s'\<rparr>"
      using h by (auto simp: with_solver_Inr)
    have "P s'"
    proof (rule solveLoop_preserves [where P = P, OF si P s'(1)])
      show "P t'" if "solver_inv t" "P t" "step t = Inr t'" for t t' using step [OF that] .
      show "P (t\<lparr>canvas := c\<rparr>)" if "P t" for t c using draw [OF that] .
      show "P (pause t)" if "P t" for t using halt [OF that] .
    qed
    then show ?thesis using s'(2) by simp
  qed
qed

lemma handle_sp_inv:
  assumes "app_inv a" "sp_inv (solver a)" "event_ok a e" "handle e a = Some (Inr a')"
  shows "sp_inv (solver a')"
proof (rule handle_preserves [where P = sp_inv, OF assms(1) _ assms(3,4,2)])
  show "unit_cost (maze (solver a))" using assms(2) by (simp add: sp_inv_def)
  show "sp_inv t'" if "solver_inv t" "sp_inv t" "step t = Inr t'" for t t' using sp_inv_step [OF that] .
  show "sp_inv (t\<lparr>canvas := c\<rparr>)" if "sp_inv t" for t c using that by simp
  show "sp_inv (t\<lparr>solving := b\<rparr>)" if "sp_inv t" for t b using that by simp
  show "sp_inv t" if "solver_inv t" "ends_clear (maze t)" "unit_cost (maze t)"
      "cell (distances (maze t)) 0 0 = \<infinity>" for t
    using sp_inv_locked [OF that] .
qed

lemma app_setup_fresh:
  assumes "app_setup rnd = Inr a"
  shows "fresh_fields (maze (solver a)) \<and> unit_cost (maze (solver a)) \<and>
         cell (distances (maze (solver a))) 0 0 = \<infinity>"
proof -
  obtain m where m: "new_maze DEFAULTSIZE DEFAULTWALLFREQ rnd = Inr m" "solver a = new_solver m"
    using assms by (auto simp: app_setup_def split: sum.splits)
  have n: "0 < DEFAULTSIZE" by (simp add: DEFAULTSIZE_def)
  obtain m2 where m2: "new_maze DEFAULTSIZE DEFAULTWALLFREQ rnd = Inr m2" "maze_size m2 = DEFAULTSIZE"
      "fresh_fields m2"
    using setUpMaze_Inr [OF n, of DEFAULTWALLFREQ rnd
      "\<lparr>maze_size = 0, wallFreq = 0, maze_map = [], distances = [], explored = []\<rparr>"]
    unfolding new_maze_def by blast
  have "m2 = m" using m(1) m2(1) by simp
  moreover have "unit_cost m" using m(1) unit_cost_setUpMaze unfolding new_maze_def by blast
  ultimately show ?thesis
    using m(2) m2(2,3) n fresh_origin by (simp add: new_solver_def resetQueue_def)
qed

lemma app_setup_sp_inv:
  assumes "app_setup rnd = Inr a"
  shows "sp_inv (solver a)"
  using sp_inv_locked [of "solver a"] app_setup_inv [OF assms] app_setup_fresh [OF assms]
  by (simp add: app_inv_def)

lemma reachable_session_inv: "reachable a \<Longrightarrow> app_inv a \<and> sp_inv (solver a)"
proof (induction rule: reachable.induct)
  case (init rnd a)
  then show ?case using app_setup_inv app_setup_sp_inv by blast
next
  case (step a e a')
  then show ?case using handle_inv handle_sp_inv by blast
qed

lemma reachable_sp_inv: "reachable a \<Longrightarrow> sp_inv (solver a)"
  using reachable_session_inv by blast

section \<open>The size of a solve\<close>

lemma locked_measure:
  assumes "solver_inv s" "cell (distances (maze s)) 0 0 = \<infinity>"
  shows "search_measure s = maze_size (maze s) * maze_size (maze s)"
proof -
  have "elements (queue s) = [seed]" "fresh_fields (maze s)" "wf_maze (maze s)"
    using assms by (simp_all add: solver_inv_def lock_ok_def search_inv_def)
  then show ?thesis using fresh_count_false [of "maze s"] by (simp add: search_measure_def)
qed

lemma step_measure_lt:
  assumes "solver_inv s" "step s = Inr s'"
  shows "search_measure s' < search_measure s"
proof -
  have "\<not> isEmpty (queue s)" using assms(2) step_empty by (auto simp: isEmpty_def)
  then obtain s1 where "step s = Inr s1" "search_measure s1 + 1 = search_measure s"
    using step_inv [OF assms(1)] by blast
  then show ?thesis using assms(2) by simp
qed

lemma handle_measure_bounded:
  assumes "app_inv a" "sp_inv (solver a)" "event_ok a e" "handle e a = Some (Inr a')"
    "measure_bounded (solver a)"
  shows "measure_bounded (solver a')"
proof (rule handle_preserves [where P = measure_bounded, OF assms(1) _ assms(3,4,5)])
  show "unit_cost (maze (solver a))" using assms(2) by (simp add: sp_inv_def)
  show "measure_bounded t'" if t: "solver_inv t" "measure_bounded t" "step t = Inr t'" for t t'
    using step_measure_lt [OF t(1,3)] step_frame(3) [OF t(3)] t(2) by (simp add: measure_bounded_def)
  show "measure_bounded (t\<lparr>canvas := c\<rparr>)" if "measure_bounded t" for t c
    using that by (simp add: measure_bounded_def search_measure_def)
  show "measure_bounded (t\<lparr>solving := b\<rparr>)" if "measure_bounded t" for t b
    using that by (simp add: measure_bounded_def search_measure_def)
  show "measure_bounded t" if "solver_inv t" "ends_clear (maze t)" "unit_cost (maze t)"
      "cell (distances (maze t)) 0 0 = \<infinity>" for t
    using locked_measure [OF that(1,4)] by (simp add: measure_bounded_def)
qed

lemma reachable_measure_bounded: "reachable a \<Longrightarrow> measure_bounded (solver a)"
proof (induction rule: reachable.induct)
  case (init rnd a)
  have "solver_inv (solver a)" using app_setup_inv [OF init] by (simp add: app_inv_def)
  then show ?case
    using locked_measure app_setup_fresh [OF init] by (simp add: measure_bounded_def)
next
  case (step a e a')
  then show ?case using handle_measure_bounded reachable_session_inv by blast
qed

section \<open>Breadth-first search in a session\<close>

text \<open>
  C18.  In every reachable session each finalised distance is exact: the distance
  \<^verbatim>\<open>step()\<close> wrote for a tile is the least number of moves of any route from the
  origin to it through in-bounds non-wall tiles.
\<close>

theorem reachable_distances_shortest:
  assumes "reachable a" "in_range (maze_size (maze (solver a))) x y"
    "cell (distances (maze (solver a))) x y = enat k"
  shows "shortest (maze (solver a)) (x, y) k"
proof -
  have "final_exact (maze (solver a))"
    using reachable_sp_inv [OF assms(1)] by (simp add: sp_inv_def bfs_inv_def)
  then show ?thesis using final_shortest assms(2,3) by blast
qed

text \<open>
  C19.  In every reachable session whose goal is finalised, the path
  \<^verbatim>\<open>PathViewer.draw()\<close> draws is a shortest route: it has one tile more than the goal's
  distance, and that distance is the least number of moves to the goal.
\<close>

theorem reachable_path_shortest:
  assumes "reachable a" "solved (maze (solver a)) = Inr True"
  shows "\<exists>p k. draw_path (maze (solver a)) = Some (Inr p) \<and> length p = Suc k \<and>
           cell (distances (maze (solver a))) (fst (goal (maze (solver a)))) (snd (goal (maze (solver a))))
             = enat k \<and>
           shortest (maze (solver a)) (goal (maze (solver a))) k"
proof -
  have "solver_inv (solver a)" "sp_inv (solver a)"
    using reachable_session_inv [OF assms(1)] by (simp_all add: app_inv_def)
  then show ?thesis using draw_path_shortest [OF _ _ assms(2)] by blast
qed

text \<open>
  C20.  The report of no solution is sound: in every reachable session whose queue is
  empty while the goal is not finalised, there is no route from the origin to the goal
  of any length.
\<close>

theorem reachable_no_route:
  assumes "reachable a" "isEmpty (queue (solver a))"
    "cell (distances (maze (solver a))) (fst (goal (maze (solver a)))) (snd (goal (maze (solver a)))) = \<infinity>"
  shows "\<not> reach (maze (solver a)) (goal (maze (solver a))) k"
proof -
  have "solver_inv (solver a)" "sp_inv (solver a)"
    using reachable_session_inv [OF assms(1)] by (simp_all add: app_inv_def)
  then show ?thesis using no_route assms(2,3) by blast
qed

text \<open>
  C21.  The spec's layer ordering: in every reachable session the queue is sorted by
  distance, spans at most two consecutive distances, and every queued node carries the
  exact shortest distance of its tile.
\<close>

theorem reachable_queue_layered:
  assumes "reachable a"
  shows "layered (elements (queue (solver a))) \<and>
         queue_exact (maze (solver a)) (elements (queue (solver a)))"
  using reachable_sp_inv [OF assms] by (simp add: sp_inv_def bfs_inv_def)

text \<open>
  C22.  The page never produces a slow tile: in every reachable session each tile of the
  map is empty or a wall, so the cost-2 branch of \<^verbatim>\<open>step()\<close> is dead code in the
  page.
\<close>

theorem reachable_no_slow_tile:
  assumes "reachable a" "in_range (maze_size (maze (solver a))) x y"
  shows "cell (maze_map (maze (solver a))) x y \<noteq> Slow"
  using reachable_sp_inv [OF assms(1)] assms(2) by (simp add: sp_inv_def unit_cost_def all_cells_iff)

end
