(* ===== verification/Timer.thy ===== *)
theory Timer
  imports SolverLoop
begin

text \<open>
  The timer of the page: \<^verbatim>\<open>setup()\<close> ends with
  \<^verbatim>\<open>window.setInterval(mazeSolver.solveLoop.bind(mazeSolver), 1)\<close>, so
  \<^verbatim>\<open>solveLoop\<close> runs once per tick for as long as the page is open.  \<open>ticks n s\<close> is
  the solver after \<open>n\<close> ticks (stopping early if a tick throws).  The theory proves
  that a running solve stops: within one tick more than the termination measure the
  solver is paused and further ticks change nothing.  It also proves that the
  timer-driven solve and the \<^verbatim>\<open>skip\<close> button agree: they perform the same steps and
  draw the same path, the timer only adding the pause and, when there is no
  solution, the logged error.
\<close>

fun ticks :: "nat \<Rightarrow> solver \<Rightarrow> (error + solver) option" where
  "ticks 0 s = Some (Inr s)"
| "ticks (Suc n) s = (case solveLoop s of Some (Inr s') \<Rightarrow> ticks n s' | r \<Rightarrow> r)"

section \<open>Ticks\<close>

lemma ticks_Suc_Inr: "solveLoop s = Some (Inr s') \<Longrightarrow> ticks (Suc n) s = ticks n s'"
  by simp

lemma ticks_paused: "\<not> solving s \<Longrightarrow> ticks n s = Some (Inr s)"
  by (induction n) (simp_all add: solveLoop_def)

text \<open>While the search can step, a tick of a running solver is a step.\<close>

lemma solveLoop_step:
  assumes "solver_inv s" "solving s" "canStep s = Inr True"
  shows "solveLoop s = Some (step s)"
proof -
  have "cell (distances (maze s)) (fst (goal (maze s))) (snd (goal (maze s))) = \<infinity>"
    "\<not> isEmpty (queue s)"
    using assms(3) canStep_inv [OF assms(1)] by simp_all
  then show ?thesis
    using assms(2) solved_wf [OF solver_inv_wf [OF assms(1)]] by (simp add: solveLoop_def)
qed

text \<open>The ticks of a running solver replay the loop of \<^verbatim>\<open>skip\<close>, one step per tick.\<close>

lemma ticks_skip_loop:
  assumes "solver_inv s" "solving s" "skip_loop s = Some (Inr s1)"
  shows "\<exists>n\<le>search_measure s. ticks n s = Some (Inr s1)"
  using assms
proof (induction "search_measure s" arbitrary: s rule: less_induct)
  case less
  show ?case
  proof (cases "canStep s = Inr True")
    case True
    then have ne: "\<not> isEmpty (queue s)" using canStep_inv [OF less.prems(1)] by simp
    obtain s2 where s2: "step s = Inr s2" "solver_inv s2" "search_measure s2 + 1 = search_measure s"
      using step_inv [OF less.prems(1) ne] by blast
    have "solving s2" using step_frame(1) [OF s2(1)] less.prems(2) by simp
    moreover have "skip_loop s2 = Some (Inr s1)"
      using less.prems(3) True s2(1) by (simp add: skip_loop.simps [of s])
    ultimately obtain n where n: "n \<le> search_measure s2" "ticks n s2 = Some (Inr s1)"
      using less.hyps [of s2] s2(2,3) by auto
    have "ticks (Suc n) s = Some (Inr s1)"
      using solveLoop_step [OF less.prems(1,2) True] s2(1) n(2) by simp
    then show ?thesis using n(1) s2(3) by (intro exI [of _ "Suc n"]) simp
  next
    case False
    then have "canStep s = Inr False" using canStep_inv [OF less.prems(1)] by simp
    then have "s1 = s" using less.prems(3) by (simp add: skip_loop.simps [of s])
    then show ?thesis by (intro exI [of _ 0]) simp
  qed
qed

text \<open>The last tick: when the search cannot step any more, a running solver draws the
  path or logs the missing solution, and pauses.\<close>

lemma solveLoop_last:
  assumes "solver_inv s" "solving s" "canStep s = Inr False"
  shows "solveLoop s =
           map_option (map_sum id pause)
             (case solved (maze s) of
                Inl e \<Rightarrow> Some (Inl e)
              | Inr b \<Rightarrow> if b then pathViewer_draw s
                          else Some (Inr (s\<lparr>canvas := canvas s @ [NoSolution]\<rparr>)))"
proof -
  have sv: "solved (maze s) = Inr (cell (distances (maze s)) (fst (goal (maze s))) (snd (goal (maze s))) \<noteq> \<infinity>)"
    using solved_wf [OF solver_inv_wf [OF assms(1)]] .
  have "cell (distances (maze s)) (fst (goal (maze s))) (snd (goal (maze s))) = \<infinity> \<Longrightarrow> isEmpty (queue s)"
    using assms(3) canStep_inv [OF assms(1)] by simp
  then show ?thesis
    using assms(2) sv by (auto simp: solveLoop_def pause_def option.map_comp sum.map_comp)
qed

lemma ticks_snoc:
  "ticks n s = Some (Inr s1) \<Longrightarrow> solveLoop s1 = Some (Inr s2) \<Longrightarrow> ticks (Suc n) s = Some (Inr s2)"
proof (induction n arbitrary: s)
  case 0
  then show ?case by simp
next
  case (Suc n)
  then obtain s' where s': "solveLoop s = Some (Inr s')" "ticks n s' = Some (Inr s1)"
    by (auto split: option.splits sum.splits)
  then show ?case using Suc.IH [OF s'(2) Suc.prems(2)] by simp
qed

text \<open>The last tick of a running solver that cannot step returns and pauses it.\<close>

lemma solveLoop_last_pauses:
  assumes "solver_inv s" "solving s" "canStep s = Inr False"
  shows "\<exists>s'. solveLoop s = Some (Inr s') \<and> \<not> solving s'"
proof (cases "solved (maze s) = Inr True")
  case True
  then obtain p where "pathViewer_draw s = Some (Inr (s\<lparr>canvas := canvas s @ map (\<lambda>(x, y). PathTile x y) p\<rparr>))"
    using pathViewer_draw_ok [OF assms(1) True] by blast
  then show ?thesis using solveLoop_last [OF assms] True by (simp add: pause_def)
next
  case False
  then have "solved (maze s) = Inr False" using solved_wf [OF solver_inv_wf [OF assms(1)]] by simp
  then show ?thesis using solveLoop_last [OF assms] by (simp add: pause_def)
qed

text \<open>A running solve stops: within one tick more than the termination measure the
  solver is paused, and from then on the timer changes nothing.\<close>

lemma ticks_stop:
  assumes "solver_inv s"
  shows "\<exists>n s'. n \<le> Suc (search_measure s) \<and> ticks n s = Some (Inr s') \<and> \<not> solving s'"
proof (cases "solving s")
  case False
  then show ?thesis using ticks_paused [OF False, of 0] by blast
next
  case True
  obtain s1 where s1: "skip_loop s = Some (Inr s1)" "solver_inv s1" "canStep s1 = Inr False"
      "solving s1 = solving s"
    using skip_loop_returns [OF assms] by blast
  obtain n where n: "n \<le> search_measure s" "ticks n s = Some (Inr s1)"
    using ticks_skip_loop [OF assms True s1(1)] by blast
  obtain s2 where s2: "solveLoop s1 = Some (Inr s2)" "\<not> solving s2"
    using solveLoop_last_pauses [OF s1(2) _ s1(3)] s1(4) True by auto
  show ?thesis using ticks_snoc [OF n(2) s2(1)] n(1) s2(2) by (intro exI [of _ "Suc n"]) auto
qed

section \<open>The timer and skip agree\<close>

text \<open>
  C24.  Driving a running solver by the timer and pressing skip do the same work: after
  at most one tick more than the termination measure the ticks have produced exactly the
  state \<^verbatim>\<open>skip()\<close> produces, paused, and with the error logged when there is no
  solution.
\<close>

theorem tick_run_matches_skip:
  assumes "solver_inv s" "solving s"
  shows "\<exists>n s' t. n \<le> Suc (search_measure s) \<and> ticks n s = Some (Inr s') \<and>
           skip s = Some (Inr t) \<and>
           s' = pause (t\<lparr>canvas := canvas t @ (if solved (maze t) = Inr True then [] else [NoSolution])\<rparr>)"
proof -
  obtain s1 where s1: "skip_loop s = Some (Inr s1)" "solver_inv s1" "canStep s1 = Inr False"
      "solving s1 = solving s"
    using skip_loop_returns [OF assms(1)] by blast
  obtain n where n: "n \<le> search_measure s" "ticks n s = Some (Inr s1)"
    using ticks_skip_loop [OF assms s1(1)] by blast
  have sol1: "solving s1" using s1(4) assms(2) by simp
  show ?thesis
  proof (cases "solved (maze s1) = Inr True")
    case True
    obtain p where p: "pathViewer_draw s1 = Some (Inr (s1\<lparr>canvas := canvas s1 @ map (\<lambda>(x, y). PathTile x y) p\<rparr>))"
      using pathViewer_draw_ok [OF s1(2) True] by blast
    let ?t = "s1\<lparr>canvas := canvas s1 @ map (\<lambda>(x, y). PathTile x y) p\<rparr>"
    have "skip s = Some (Inr ?t)" using s1(1) True p by (simp add: skip_def)
    moreover have "solveLoop s1 = Some (Inr (pause ?t))"
      using solveLoop_last [OF s1(2) sol1 s1(3)] True p by simp
    then have "ticks (Suc n) s = Some (Inr (pause ?t))" using ticks_snoc [OF n(2)] by blast
    ultimately show ?thesis using n(1) True
      by (intro exI [of _ "Suc n"] exI [of _ "pause ?t"] exI [of _ ?t]) simp
  next
    case False
    then have sF: "solved (maze s1) = Inr False" using solved_wf [OF solver_inv_wf [OF s1(2)]] by simp
    have "skip s = Some (Inr s1)" using s1(1) sF by (simp add: skip_def)
    moreover have "solveLoop s1 = Some (Inr (pause (s1\<lparr>canvas := canvas s1 @ [NoSolution]\<rparr>)))"
      using solveLoop_last [OF s1(2) sol1 s1(3)] sF by simp
    then have "ticks (Suc n) s = Some (Inr (pause (s1\<lparr>canvas := canvas s1 @ [NoSolution]\<rparr>)))"
      using ticks_snoc [OF n(2)] by blast
    ultimately show ?thesis using n(1) sF
      by (intro exI [of _ "Suc n"] exI [of _ "pause (s1\<lparr>canvas := canvas s1 @ [NoSolution]\<rparr>)"] exI [of _ s1])
        simp
  qed
qed

end
