(* ===== verification/Phases.thy ===== *)
theory Phases
  imports Session Timer
begin

text \<open>
  The solver's state machine of the specification (section 4.3): the phases
  \<open>Idle\<close> (the queue holds only the seed), \<open>Running\<close>, \<open>Paused\<close>, \<open>Solved\<close> and
  \<open>Unsolvable\<close>, and the transitions \<open>reset()\<close>, \<open>play()\<close>, \<open>pause()\<close>, \<open>step()\<close>,
  \<open>skip()\<close> and the \<open>solveLoop()\<close> tick.  \<open>spec_trans p r q\<close> is the relation the
  specification allows; \<open>phase_of\<close> reads the phase off a solver of \<^verbatim>\<open>src/main.js\<close>
  (the goal's distance, the queue, the \<^verbatim>\<open>solving\<close> flag and the origin's distance,
  which \<^verbatim>\<open>BlockPlacer\<close> uses as the lock).  A goal that is finalised counts as
  \<open>Solved\<close> as soon as the step finalising it returns; the next tick only draws the
  path and pauses.  The theory proves that every event of the page moves the solver
  along a transition the specification allows (a simulation), that the terminal
  phases are left only by a reset, and that a running solve ends in one of them.
\<close>

datatype phase = Idle | Running | Paused | Solved | Unsolvable

text \<open>The operations of the state machine; editing the maze and choosing a block are
  the page's operations that the specification leaves to the grid.\<close>

datatype solver_op = OpSelect | OpEdit | OpPlay | OpPause | OpStep | OpSkip | OpReset | OpTick

inductive spec_trans :: "phase \<Rightarrow> solver_op \<Rightarrow> phase \<Rightarrow> bool" where
  select: "spec_trans p OpSelect p"
| edit: "spec_trans p OpEdit p"
| reset: "spec_trans p OpReset Idle"
| play_start: "p \<in> {Idle, Paused, Running} \<Longrightarrow> spec_trans p OpPlay Running"
| play_done: "p \<in> {Solved, Unsolvable} \<Longrightarrow> spec_trans p OpPlay p"
| pause_run: "spec_trans Running OpPause Paused"
| pause_unstarted: "spec_trans Running OpPause Idle"
| pause_other: "p \<noteq> Running \<Longrightarrow> spec_trans p OpPause p"
| step_go: "p \<in> {Idle, Paused, Running} \<Longrightarrow> q \<in> {Paused, Solved, Unsolvable} \<Longrightarrow> spec_trans p OpStep q"
| step_done: "p \<in> {Solved, Unsolvable} \<Longrightarrow> spec_trans p OpStep p"
| tick_run: "q \<in> {Running, Solved, Unsolvable} \<Longrightarrow> spec_trans Running OpTick q"
| tick_other: "p \<noteq> Running \<Longrightarrow> spec_trans p OpTick p"
| skip_go: "p \<in> {Idle, Paused, Running} \<Longrightarrow> q \<in> {Solved, Unsolvable} \<Longrightarrow> spec_trans p OpSkip q"
| skip_done: "p \<in> {Solved, Unsolvable} \<Longrightarrow> spec_trans p OpSkip p"

code_pred spec_trans .

inductive_cases spec_trans_SolvedE: "spec_trans Solved r q"
inductive_cases spec_trans_UnsolvableE: "spec_trans Unsolvable r q"

fun op_of :: "ui_event \<Rightarrow> solver_op" where
  "op_of (ClickBlock b) = OpSelect"
| "op_of (Paint x y) = OpEdit"
| "op_of PlayBtn = OpPlay"
| "op_of PauseBtn = OpPause"
| "op_of StepBtn = OpStep"
| "op_of SkipBtn = OpSkip"
| "op_of RestartBtn = OpReset"
| "op_of (ResetMazeBtn n freq rnd) = OpReset"
| "op_of Tick = OpTick"

definition phase_of :: "solver \<Rightarrow> phase" where
  "phase_of s =
     (if cell (distances (maze s)) (fst (goal (maze s))) (snd (goal (maze s))) \<noteq> \<infinity> then Solved
      else if isEmpty (queue s) then Unsolvable
      else if solving s then Running
      else if cell (distances (maze s)) 0 0 = \<infinity> then Idle
      else Paused)"

section \<open>The phase of a solver\<close>

lemma phase_of_canvas [simp]: "phase_of (s\<lparr>canvas := c\<rparr>) = phase_of s"
  by (simp add: phase_of_def)

lemma phase_of_cong:
  "maze s' = maze s \<Longrightarrow> queue s' = queue s \<Longrightarrow> solving s' = solving s \<Longrightarrow> phase_of s' = phase_of s"
  by (simp add: phase_of_def)

lemma phase_terminal_pause:
  "phase_of s \<in> {Solved, Unsolvable} \<Longrightarrow> phase_of (pause s) = phase_of s"
  by (auto simp: phase_of_def pause_def split: if_splits)

lemma phase_running_solving: "phase_of s = Running \<Longrightarrow> solving s"
  by (simp add: phase_of_def split: if_splits)

text \<open>\<^verbatim>\<open>canStep()\<close> holds exactly in the phases that are not terminal.\<close>

lemma canStep_phase:
  "solver_inv s \<Longrightarrow> canStep s = Inr (phase_of s \<in> {Idle, Paused, Running})"
  by (simp add: canStep_inv phase_of_def)

text \<open>A step finalises the origin, so afterwards the solver is never \<open>Idle\<close>.\<close>

lemma step_started:
  assumes "solver_inv s" "step s = Inr s'"
  shows "cell (distances (maze s')) 0 0 \<noteq> \<infinity>"
proof (cases "elements (queue s)")
  case Nil
  then show ?thesis using assms(2) step_empty by simp
next
  case (Cons nd rest)
  then have "search_inv (maze s) (nd # rest)" "lock_ok (maze s) (nd # rest)"
    using assms(1) by (simp_all add: solver_inv_def)
  moreover have "maze s' = step_maze (maze s) nd" using assms(2) step_cons [OF Cons] by auto
  ultimately show ?thesis using step_origin_final by simp
qed

lemma phase_step:
  assumes "solver_inv s" "step s = Inr s'"
  shows "phase_of s' \<in> (if solving s then {Running, Solved, Unsolvable} else {Paused, Solved, Unsolvable})"
  using step_frame(1) [OF assms(2)] by (simp add: phase_of_def step_started [OF assms])

text \<open>After \<^verbatim>\<open>skip()\<close> the solver is in a terminal phase; from a terminal phase
  \<^verbatim>\<open>skip()\<close> leaves the phase as it is.\<close>

lemma phase_skip:
  assumes "solver_inv s" "skip s = Some (Inr s')"
  shows "phase_of s' \<in> {Solved, Unsolvable} \<and>
         (phase_of s \<in> {Solved, Unsolvable} \<longrightarrow> phase_of s' = phase_of s)"
proof -
  obtain s1 t where t: "skip_loop s = Some (Inr s1)" "skip s = Some (Inr t)" "solver_inv t"
      "maze t = maze s1" "queue t = queue s1" "solving t = solving s"
      "solved (maze s1) \<noteq> Inr True \<Longrightarrow> isEmpty (queue s1)"
    using skip_returns [OF assms(1)] by (auto split: if_splits)
  have t': "t = s'" using t(2) assms(2) by simp
  have sv: "solved (maze s1) = Inr (cell (distances (maze s1)) (fst (goal (maze s1))) (snd (goal (maze s1))) \<noteq> \<infinity>)"
    using solved_wf [OF solver_inv_wf [OF t(3)]] t(4) by simp
  have "phase_of t \<in> {Solved, Unsolvable}"
    using t(4,5,7) sv by (auto simp: phase_of_def)
  moreover have "phase_of t = phase_of s" if "phase_of s \<in> {Solved, Unsolvable}"
  proof -
    have "canStep s = Inr False" using canStep_phase [OF assms(1)] that by auto
    then have "s1 = s" using t(1) by (simp add: skip_loop.simps [of s])
    then show ?thesis using t(4,5,6) phase_of_cong [of t s] by simp
  qed
  ultimately show ?thesis using t' by simp
qed

lemma phase_not_terminal: "p \<notin> {Idle, Paused, Running} \<longleftrightarrow> p \<in> {Solved, Unsolvable}"
  by (cases p) auto

lemma phase_pause_nonterminal:
  "phase_of (pause s) \<in> {Idle, Paused, Running} \<longleftrightarrow> phase_of s \<in> {Idle, Paused, Running}"
  by (auto simp: phase_of_def pause_def split: if_splits)

lemma phase_pause_terminal:
  "phase_of (pause s) \<in> {Solved, Unsolvable} \<longleftrightarrow> phase_of s \<in> {Solved, Unsolvable}"
  by (auto simp: phase_of_def pause_def split: if_splits)

text \<open>A solver as \<^verbatim>\<open>reset()\<close> leaves it, not solving, is \<open>Idle\<close>.\<close>

lemma phase_fresh:
  assumes "wf_maze (maze s)" "fresh_fields (maze s)" "elements (queue s) = [seed]" "\<not> solving s"
  shows "phase_of s = Idle"
proof -
  have n: "0 < maze_size (maze s)" using wf_maze_squares(1) [OF assms(1)] .
  have "cell (distances (maze s)) x y = \<infinity>" if "in_range (maze_size (maze s)) x y" for x y
    using assms(2) that by (simp add: fresh_fields_def all_cells_iff)
  moreover have "in_range (maze_size (maze s)) 0 0"
    "in_range (maze_size (maze s)) (int (maze_size (maze s)) - 1) (int (maze_size (maze s)) - 1)"
    using n by (simp_all add: in_range_def)
  ultimately show ?thesis using assms(3,4) by (simp add: phase_of_def isEmpty_def)
qed

lemma phase_restart:
  assumes "wf_maze (maze s)" "controls_restart s = Inr s'"
  shows "phase_of s' = Idle"
proof -
  have "wf_maze (maze (pause (controls_pause s)))"
    using assms(1) by (simp add: controls_pause_def pause_def)
  then show ?thesis
    using reset_inv [of "pause (controls_pause s)"] assms(2) phase_fresh [of s'] solver_inv_wf [of s']
    by (auto simp: controls_restart_def controls_pause_def pause_def)
qed

lemma phase_resetMaze:
  assumes "resetMaze n freq rnd s = Inr s'"
  shows "phase_of s' = Idle"
proof -
  have n: "0 < n"
    using assms by (cases n) (auto simp: resetMaze_def setUpMaze_zero)
  obtain m where m: "setUpMaze n freq rnd (maze s) = Inr m" "wf_maze m"
    using setUpMaze_Inr [OF n] by blast
  have "controls_restart (s\<lparr>maze := m\<rparr>) = Inr s'" using assms m(1) by (simp add: resetMaze_def)
  then show ?thesis using phase_restart [of "s\<lparr>maze := m\<rparr>"] m(2) by simp
qed

section \<open>Each control is a transition of the specification\<close>

lemma phase_play:
  assumes "solver_inv s" "controls_play s = Inr s'"
  shows "spec_trans (phase_of s) OpPlay (phase_of s')"
proof (cases "phase_of s \<in> {Idle, Paused, Running}")
  case True
  then have "s' = play s" using assms by (simp add: controls_play_def canStep_phase [OF assms(1)])
  moreover have "phase_of (play s) = Running"
    using True by (auto simp: phase_of_def play_def split: if_splits)
  ultimately show ?thesis using True by (simp add: spec_trans.play_start)
next
  case False
  then have "s' = s" using assms by (simp add: controls_play_def canStep_phase [OF assms(1)])
  then show ?thesis using phase_not_terminal [THEN iffD1, OF False] by (simp add: spec_trans.play_done)
qed

lemma phase_pause:
  "spec_trans (phase_of s) OpPause (phase_of (controls_pause s))"
proof (cases "phase_of s = Running")
  case True
  then have "phase_of (controls_pause s) \<in> {Paused, Idle}"
    by (auto simp: phase_of_def controls_pause_def pause_def split: if_splits)
  then show ?thesis using True by (auto intro: spec_trans.pause_run spec_trans.pause_unstarted)
next
  case False
  then have "phase_of (controls_pause s) = phase_of s"
    by (auto simp: phase_of_def controls_pause_def pause_def split: if_splits)
  then show ?thesis using False by (simp add: spec_trans.pause_other)
qed

lemma phase_controls_step:
  assumes "solver_inv s" "controls_step s = Inr s'"
  shows "spec_trans (phase_of s) OpStep (phase_of s')"
proof -
  let ?s1 = "controls_pause s"
  have inv1: "solver_inv ?s1" using assms(1) by (simp add: controls_pause_def pause_def)
  have cs: "canStep ?s1 = Inr (phase_of s \<in> {Idle, Paused, Running})"
    using canStep_phase [OF inv1] phase_pause_nonterminal [of s] by (simp add: controls_pause_def)
  show ?thesis
  proof (cases "phase_of s \<in> {Idle, Paused, Running}")
    case True
    then have "step ?s1 = Inr s'" using assms(2) cs by (simp add: controls_step_def)
    then have "phase_of s' \<in> {Paused, Solved, Unsolvable}"
      using phase_step [OF inv1] by (simp add: controls_pause_def pause_def)
    then show ?thesis using True by (simp add: spec_trans.step_go)
  next
    case False
    have t: "phase_of s \<in> {Solved, Unsolvable}" using phase_not_terminal [THEN iffD1, OF False] .
    have "s' = ?s1" using assms(2) cs False by (simp add: controls_step_def)
    then show ?thesis
      using t phase_terminal_pause [OF t] by (simp add: controls_pause_def spec_trans.step_done)
  qed
qed

lemma phase_controls_skip:
  assumes "solver_inv s" "controls_skip s = Some (Inr s')"
  shows "spec_trans (phase_of s) OpSkip (phase_of s')"
proof -
  have inv1: "solver_inv (pause s)" using assms(1) by (simp add: pause_def)
  have sk: "skip (pause s) = Some (Inr s')" using assms(2) by (simp add: controls_skip_def controls_pause_def)
  note ph = phase_skip [OF inv1 sk]
  show ?thesis
  proof (cases "phase_of s \<in> {Idle, Paused, Running}")
    case True
    then show ?thesis using ph by (simp add: spec_trans.skip_go)
  next
    case False
    have t: "phase_of s \<in> {Solved, Unsolvable}" using phase_not_terminal [THEN iffD1, OF False] .
    then have "phase_of s' = phase_of s" using ph phase_terminal_pause [OF t] by simp
    then show ?thesis using t by (simp add: spec_trans.skip_done)
  qed
qed

lemma phase_tick:
  assumes "solver_inv s" "solveLoop s = Some (Inr s')"
  shows "spec_trans (phase_of s) OpTick (phase_of s')"
proof (cases "solving s")
  case False
  then have "s' = s" "phase_of s \<noteq> Running"
    using assms(2) phase_running_solving by (auto simp: solveLoop_def)
  then show ?thesis by (simp add: spec_trans.tick_other)
next
  case True
  show ?thesis
  proof (cases "phase_of s \<in> {Idle, Paused, Running}")
    case nt: True
    then have r: "phase_of s = Running" using True by (auto simp: phase_of_def split: if_splits)
    have "step s = Inr s'"
      using solveLoop_step [OF assms(1) True] canStep_phase [OF assms(1)] nt assms(2) by simp
    then show ?thesis using phase_step [OF assms(1)] True r by (simp add: spec_trans.tick_run)
  next
    case False
    have t: "phase_of s \<in> {Solved, Unsolvable}" using phase_not_terminal [THEN iffD1, OF False] .
    have cs: "canStep s = Inr False" using canStep_phase [OF assms(1)] False by simp
    have "map_option (map_sum id pause)
        (case solved (maze s) of
           Inl e \<Rightarrow> Some (Inl e)
         | Inr b \<Rightarrow> if b then pathViewer_draw s
                     else Some (Inr (s\<lparr>canvas := canvas s @ [NoSolution]\<rparr>))) = Some (Inr s')"
      using assms(2) unfolding solveLoop_last [OF assms(1) True cs] .
    then obtain c where "s' = pause (s\<lparr>canvas := c\<rparr>)"
      by (auto simp: pathViewer_draw_def map_sum_eq_Inr split: sum.splits if_splits)
    then have "phase_of s' = phase_of s"
      using phase_terminal_pause [of "s\<lparr>canvas := c\<rparr>"] t by simp
    then show ?thesis using t by (auto intro: spec_trans.tick_other)
  qed
qed

lemma setBlock_fields:
  "setBlock x y t m = Inr m' \<Longrightarrow> distances m' = distances m \<and> maze_size m' = maze_size m"
  by (auto simp: setBlock_def split: if_splits sum.splits)

text \<open>Every event of the page, on a session satisfying the invariant, moves the solver
  along a transition of the specification.\<close>

lemma handle_phase:
  assumes inv: "app_inv a" and h: "handle e a = Some (Inr a')"
  shows "spec_trans (phase_of (solver a)) (op_of e) (phase_of (solver a'))"
proof -
  have si: "solver_inv (solver a)" using inv by (simp add: app_inv_def)
  show ?thesis
  proof (cases e)
    case (ClickBlock b)
    then show ?thesis using h by (auto simp: activate_def intro: spec_trans.select)
  next
    case (Paint x y)
    then obtain m' where "setBlock x y (blockToTile (active a)) (maze (solver a)) = Inr m'"
        "a' = a\<lparr>solver := (solver a)\<lparr>maze := m'\<rparr>\<rparr>"
      using h by (auto simp: map_sum_eq_Inr)
    then have "phase_of (solver a') = phase_of (solver a)"
      using setBlock_fields by (simp add: phase_of_def)
    then show ?thesis using Paint by (simp add: spec_trans.edit)
  next
    case PlayBtn
    then show ?thesis using h phase_play [OF si] by (auto simp: with_solver_Inr)
  next
    case PauseBtn
    then show ?thesis using h phase_pause by auto
  next
    case StepBtn
    then show ?thesis using h phase_controls_step [OF si] by (auto simp: with_solver_Inr)
  next
    case SkipBtn
    then show ?thesis using h phase_controls_skip [OF si] by (auto simp: with_solver_Inr)
  next
    case RestartBtn
    then obtain s' where "controls_restart (solver a) = Inr s'" "a' = a\<lparr>solver := s'\<rparr>"
      using h by (auto simp: with_solver_Inr)
    then show ?thesis
      using RestartBtn phase_restart [OF solver_inv_wf [OF si]] by (simp add: spec_trans.reset)
  next
    case (ResetMazeBtn n freq rnd)
    then obtain s' where "resetMaze n freq rnd (solver a) = Inr s'" "a' = a\<lparr>solver := s'\<rparr>"
      using h by (auto simp: with_solver_Inr)
    then show ?thesis using ResetMazeBtn phase_resetMaze by (simp add: spec_trans.reset)
  next
    case Tick
    then show ?thesis using h phase_tick [OF si] by (auto simp: with_solver_Inr)
  qed
qed

text \<open>The page as loaded is \<open>Idle\<close>.\<close>

lemma app_setup_phase:
  assumes "app_setup rnd = Inr a"
  shows "phase_of (solver a) = Idle"
proof -
  obtain m where m: "solver a = new_solver m" using assms by (auto simp: app_setup_def split: sum.splits)
  have "wf_maze (maze (solver a))"
    using app_setup_inv [OF assms] solver_inv_wf by (simp add: app_inv_def)
  then show ?thesis
    using phase_fresh [of "solver a"] app_setup_fresh [OF assms] m
    by (simp add: new_solver_def resetQueue_def new_queue_def)
qed

text \<open>Under the timer, a solver that is running or finished stays running or finished.\<close>

lemma ticks_phase:
  assumes "solver_inv s" "phase_of s \<in> {Running, Solved, Unsolvable}" "ticks n s = Some (Inr s')"
  shows "phase_of s' \<in> {Running, Solved, Unsolvable}"
  using assms
proof (induction n arbitrary: s)
  case 0
  then show ?case by simp
next
  case (Suc n)
  then obtain s1 where s1: "solveLoop s = Some (Inr s1)" "ticks n s1 = Some (Inr s')"
    by (auto split: option.splits sum.splits)
  have "solver_inv s1" using solveLoop_inv [OF Suc.prems(1) s1(1)] by simp
  moreover have "phase_of s1 \<in> {Running, Solved, Unsolvable}"
    using phase_tick [OF Suc.prems(1) s1(1)] Suc.prems(2) by (auto elim: spec_trans.cases)
  ultimately show ?case using Suc.IH s1(2) by blast
qed

text \<open>A solver in a terminal phase has started: its origin is finalised, so the edit
  lock is on.\<close>

lemma terminal_locked:
  assumes "solver_inv s" "phase_of s \<in> {Solved, Unsolvable}"
  shows "cell (distances (maze s)) 0 0 \<noteq> \<infinity>"
proof
  assume d: "cell (distances (maze s)) 0 0 = \<infinity>"
  then have "elements (queue s) = [seed]" "fresh_fields (maze s)" "wf_maze (maze s)"
    using assms(1) by (simp_all add: solver_inv_def lock_ok_def search_inv_def)
  then have "phase_of (s\<lparr>solving := False\<rparr>) = Idle"
    using phase_fresh [of "s\<lparr>solving := False\<rparr>"] by simp
  then show False using assms(2) phase_terminal_pause [OF assms(2)] by (simp add: pause_def)
qed

lemma phase_terminal_cong:
  "phase_of s \<in> {Solved, Unsolvable} \<Longrightarrow> maze s' = maze s \<Longrightarrow> queue s' = queue s \<Longrightarrow>
   phase_of s' = phase_of s"
  by (auto simp: phase_of_def split: if_splits)

text \<open>In a terminal phase no control changes the maze or the queue, and none starts
  the solver.\<close>

lemma terminal_handle_frozen:
  assumes inv: "app_inv a" and t: "phase_of (solver a) \<in> {Solved, Unsolvable}"
    and h: "handle e a = Some (Inr a')" and nr: "op_of e \<noteq> OpReset"
  shows "maze (solver a') = maze (solver a) \<and> queue (solver a') = queue (solver a) \<and>
         (solving (solver a') \<longrightarrow> solving (solver a))"
proof -
  let ?s = "solver a"
  have si: "solver_inv ?s" using inv by (simp add: app_inv_def)
  have cs: "canStep ?s = Inr False" using canStep_phase [OF si] t by auto
  have ip: "solver_inv (pause ?s)" using si by (simp add: pause_def)
  have csp: "canStep (pause ?s) = Inr False"
    using canStep_phase [OF ip] phase_terminal_pause [OF t] t by auto
  have lk: "cell (distances (maze ?s)) 0 0 = \<infinity> \<longleftrightarrow> False" using terminal_locked [OF si t] by blast
  show ?thesis
  proof (cases e)
    case (ClickBlock b)
    then show ?thesis using h by (auto simp: activate_def)
  next
    case (Paint x y)
    then have "setBlock x y (blockToTile (active a)) (maze ?s) = Inr (maze ?s)" by (simp add: setBlock_def lk)
    then show ?thesis using h Paint by simp
  next
    case PlayBtn
    then show ?thesis using h cs by (auto simp: with_solver_Inr controls_play_def)
  next
    case PauseBtn
    then show ?thesis using h by (auto simp: controls_pause_def pause_def)
  next
    case StepBtn
    then show ?thesis using h csp by (auto simp: with_solver_Inr controls_step_def controls_pause_def pause_def)
  next
    case SkipBtn
    then obtain s' where s': "skip (pause ?s) = Some (Inr s')" "a' = a\<lparr>solver := s'\<rparr>"
      using h by (auto simp: with_solver_Inr controls_skip_def controls_pause_def)
    have sl: "skip_loop (pause ?s) = Some (Inr (pause ?s))" using csp by (simp add: skip_loop.simps [of "pause ?s"])
    obtain s1 t where r: "skip_loop (pause ?s) = Some (Inr s1)" "skip (pause ?s) = Some (Inr t)"
        "maze t = maze s1" "queue t = queue s1" "solving t = solving (pause ?s)"
      using skip_returns [OF ip] by blast
    have "s1 = pause ?s" "t = s'" using r(1,2) sl s'(1) by simp_all
    then show ?thesis using r(3-5) s'(2) by (simp add: pause_def)
  next
    case Tick
    then obtain s' where s': "solveLoop ?s = Some (Inr s')" "a' = a\<lparr>solver := s'\<rparr>"
      using h by (auto simp: with_solver_Inr)
    show ?thesis
    proof (cases "solving ?s")
      case True
      have "map_option (map_sum id pause)
          (case solved (maze ?s) of
             Inl e \<Rightarrow> Some (Inl e)
           | Inr b \<Rightarrow> if b then pathViewer_draw ?s
                       else Some (Inr (?s\<lparr>canvas := canvas ?s @ [NoSolution]\<rparr>))) = Some (Inr s')"
        using s'(1) unfolding solveLoop_last [OF si True cs] .
      then obtain c where "s' = pause (?s\<lparr>canvas := c\<rparr>)"
        by (auto simp: pathViewer_draw_def map_sum_eq_Inr split: sum.splits if_splits)
      then show ?thesis using s'(2) by (simp add: pause_def)
    next
      case False
      then show ?thesis using s' by (simp add: solveLoop_def)
    qed
  qed (use nr in auto)
qed

section \<open>Properties\<close>

text \<open>
  C29.  The page refines the solver's state machine of the specification: the page as
  loaded is \<open>Idle\<close>, and from every reachable session each event of the page (a button,
  an edit, a block choice, a timer tick) that returns moves the solver's phase along a
  transition that section 4.3 of the specification allows for that operation.
\<close>

theorem session_refines_phases:
  "(app_setup rnd = Inr a \<longrightarrow> phase_of (solver a) = Idle) \<and>
   (reachable b \<and> handle e b = Some (Inr b') \<longrightarrow>
      spec_trans (phase_of (solver b)) (op_of e) (phase_of (solver b')))"
  using app_setup_phase handle_phase reachable_app_inv by blast

text \<open>
  C30.  \<open>Solved\<close> and \<open>Unsolvable\<close> are frozen: in a reachable session in one of
  them, every event other than the restart and reset-maze buttons leaves the phase, the
  maze (map, distances, explored flags) and the queue unchanged, and never starts the
  solver: play and step do nothing because \<^verbatim>\<open>canStep()\<close> is false, and paints are
  locked out.
\<close>

theorem terminal_phase_frozen:
  assumes "reachable a" "phase_of (solver a) \<in> {Solved, Unsolvable}"
    "handle e a = Some (Inr a')" "op_of e \<noteq> OpReset"
  shows "phase_of (solver a') = phase_of (solver a) \<and> maze (solver a') = maze (solver a) \<and>
         queue (solver a') = queue (solver a) \<and> (solving (solver a') \<longrightarrow> solving (solver a))"
  using terminal_handle_frozen [OF reachable_app_inv [OF assms(1)] assms(2-4)]
    phase_terminal_cong [OF assms(2), of "solver a'"] by simp

end
