(* ===== verification/Mouse.thy ===== *)
theory Mouse
  imports App
begin

text \<open>
  The mouse side of \<^verbatim>\<open>BlockPlacer\<close> (lines 44--110 of \<^verbatim>\<open>src/main.js\<close>).  The canvas
  listeners call \<^verbatim>\<open>setBlock()\<close> on a click and \<^verbatim>\<open>handleBlockDrawing\<close> on a mouse move;
  \<^verbatim>\<open>getInfo()\<close> turns the p5.js mouse position into a cell by dividing by the tile
  width \<^verbatim>\<open>CANVASSIZE / size\<close> and taking the floor.  The session model of theory
  \<open>App\<close> abstracts this to the event \<open>Paint x y\<close> on an in-bounds cell.  This theory
  models the mouse-level handlers and shows that the abstraction is sound: a mouse
  position on the canvas always lands on an in-bounds cell, and the mouse-level handler
  has exactly the effect of the \<open>Paint\<close> event on it, so sessions driven by the mouse
  stay within \<open>reachable\<close>, and before the search starts it writes the selected tile.  \<^verbatim>\<open>drawBlock\<close> and \<^verbatim>\<open>redrawMaze\<close> only draw; a move with
  the button up changes nothing.
\<close>

definition CANVASSIZE :: real where
  "CANVASSIZE = 400"

text \<open>\<^verbatim>\<open>this.width\<close>, set by \<^verbatim>\<open>setUpMaze\<close> together with the size.\<close>

definition maze_width :: "maze \<Rightarrow> real" where
  "maze_width m = CANVASSIZE / real (maze_size m)"

definition getInfo :: "maze \<Rightarrow> block \<Rightarrow> real \<Rightarrow> real \<Rightarrow> real \<times> int \<times> int \<times> tile" where
  "getInfo m blk mouseX mouseY =
     (let width = maze_width m;
          xPos = \<lfloor>mouseX / width\<rfloor>;
          yPos = \<lfloor>mouseY / width\<rfloor>;
          tile = blockToTile blk
      in (width, xPos, yPos, tile))"

text \<open>\<^verbatim>\<open>setBlock()\<close> as the click listener runs it: the lock test, then \<^verbatim>\<open>getInfo\<close>,
  the write and \<^verbatim>\<open>clearEnds()\<close>.\<close>

definition placer_setBlock :: "real \<Rightarrow> real \<Rightarrow> app \<Rightarrow> error + app" where
  "placer_setBlock mouseX mouseY a =
     (let m = maze (solver a)
      in if cell (distances m) 0 0 = \<infinity> then
           (case getInfo m (active a) mouseX mouseY of
              (width, xPos, yPos, tile) \<Rightarrow>
                (case clearEnds (set_cell (maze_map m) xPos yPos tile) of
                   Inl e \<Rightarrow> Inl e
                 | Inr g \<Rightarrow> Inr (a\<lparr>solver := (solver a)\<lparr>maze := m\<lparr>maze_map := g\<rparr>\<rparr>\<rparr>)))
         else Inr a)"

text \<open>The mouse-move listener: paint while the button is held, otherwise only draw the
  preview.\<close>

definition handleBlockDrawing :: "bool \<Rightarrow> real \<Rightarrow> real \<Rightarrow> app \<Rightarrow> error + app" where
  "handleBlockDrawing mouseIsPressed mouseX mouseY a =
     (if mouseIsPressed then placer_setBlock mouseX mouseY a else Inr a)"

text \<open>A position inside the canvas element.\<close>

definition on_canvas :: "real \<Rightarrow> real \<Rightarrow> bool" where
  "on_canvas mouseX mouseY \<longleftrightarrow> 0 \<le> mouseX \<and> mouseX < CANVASSIZE \<and> 0 \<le> mouseY \<and> mouseY < CANVASSIZE"

section \<open>The cell under the mouse\<close>

lemma mouse_cell_in_range:
  assumes "0 < n" "0 \<le> v" "v < CANVASSIZE"
  shows "0 \<le> \<lfloor>v / (CANVASSIZE / real n)\<rfloor> \<and> \<lfloor>v / (CANVASSIZE / real n)\<rfloor> < int n"
proof -
  have c: "0 < CANVASSIZE" by (simp add: CANVASSIZE_def)
  have eq: "v / (CANVASSIZE / real n) = v * real n / CANVASSIZE" using c assms(1) by simp
  have "0 \<le> v * real n / CANVASSIZE" using assms(2) c by simp
  moreover have "v * real n < CANVASSIZE * real n" using assms(1,3) by simp
  then have "v * real n / CANVASSIZE < real n" using c by (simp add: divide_less_eq mult.commute)
  ultimately show ?thesis by (simp add: eq floor_less_iff)
qed

lemma getInfo_cell:
  "getInfo m b mouseX mouseY =
     (maze_width m, \<lfloor>mouseX / maze_width m\<rfloor>, \<lfloor>mouseY / maze_width m\<rfloor>, blockToTile b)"
  by (simp add: getInfo_def)

lemma getInfo_inBounds:
  assumes "0 < maze_size m" "on_canvas mouseX mouseY"
  shows "inBounds m \<lfloor>mouseX / maze_width m\<rfloor> \<lfloor>mouseY / maze_width m\<rfloor>"
  using mouse_cell_in_range [OF assms(1), of mouseX] mouse_cell_in_range [OF assms(1), of mouseY] assms(2)
  by (simp add: inBounds_def maze_width_def on_canvas_def)

text \<open>The click handler is the \<open>Paint\<close> event on the cell \<^verbatim>\<open>getInfo\<close> computes.\<close>

lemma placer_setBlock_paint:
  "handle (Paint \<lfloor>mouseX / maze_width (maze (solver a))\<rfloor> \<lfloor>mouseY / maze_width (maze (solver a))\<rfloor>) a =
   Some (placer_setBlock mouseX mouseY a)"
  by (auto simp: placer_setBlock_def getInfo_def setBlock_def split: sum.splits)

section \<open>Properties\<close>

text \<open>
  C25.  \<^verbatim>\<open>getInfo()\<close> never computes an out-of-bounds cell for a mouse position on
  the canvas, and the bound is tight: at the right edge \<^verbatim>\<open>mouseX = CANVASSIZE\<close>, just
  outside the canvas, it would compute column \<^verbatim>\<open>size\<close>.
\<close>

theorem getInfo_bounds:
  assumes "0 < maze_size m"
  shows "(on_canvas mouseX mouseY \<longrightarrow>
            (case getInfo m b mouseX mouseY of (width, xPos, yPos, tile) \<Rightarrow> inBounds m xPos yPos)) \<and>
         (case getInfo m b CANVASSIZE mouseY of (width, xPos, yPos, tile) \<Rightarrow> xPos = int (maze_size m))"
proof -
  have "\<lfloor>CANVASSIZE / maze_width m\<rfloor> = int (maze_size m)"
    using assms by (simp add: maze_width_def CANVASSIZE_def)
  then show ?thesis using getInfo_inBounds [OF assms] by (simp add: getInfo_cell)
qed

text \<open>
  C26.  The cell-level session model is a sound abstraction of the mouse: from every
  reachable session, a click or a drag at a position on the canvas is the \<open>Paint\<close> event
  on the cell \<^verbatim>\<open>getInfo()\<close> computes, that cell is in bounds, and before the search
  starts the click writes the selected tile there (unless it is one of the two ends); a
  move with the button up changes nothing.  Every session the mouse reaches is reachable.
\<close>

theorem mouse_click_paints_cell:
  assumes "reachable a" "on_canvas mouseX mouseY"
    "handleBlockDrawing mouseIsPressed mouseX mouseY a = Inr a'"
  shows "reachable a' \<and> (\<not> mouseIsPressed \<longrightarrow> a' = a) \<and>
    (mouseIsPressed \<longrightarrow>
       (case getInfo (maze (solver a)) (active a) mouseX mouseY of
          (width, xPos, yPos, tile) \<Rightarrow>
            inBounds (maze (solver a)) xPos yPos \<and> handle (Paint xPos yPos) a = Some (Inr a') \<and>
            (cell (distances (maze (solver a))) 0 0 = \<infinity> \<and> (xPos, yPos) \<noteq> (0, 0) \<and>
             (xPos, yPos) \<noteq> goal (maze (solver a)) \<longrightarrow>
               cell (maze_map (maze (solver a'))) xPos yPos = tile)))"
proof (cases mouseIsPressed)
  case True
  let ?m = "maze (solver a)"
  let ?x = "\<lfloor>mouseX / maze_width ?m\<rfloor>" and ?y = "\<lfloor>mouseY / maze_width ?m\<rfloor>"
  have inv: "app_inv a" using reachable_app_inv [OF assms(1)] .
  have "0 < maze_size ?m"
    using inv wf_maze_squares(1) by (simp add: app_inv_def solver_inv_def search_inv_def)
  then have ib: "inBounds ?m ?x ?y" using getInfo_inBounds assms(2) by simp
  then have ok: "event_ok a (Paint ?x ?y)" by simp
  have h: "handle (Paint ?x ?y) a = Some (Inr a')"
    using placer_setBlock_paint [where mouseX = mouseX and mouseY = mouseY and a = a] assms(3) True
    by (simp add: handleBlockDrawing_def)
  have c: "cell (maze_map (maze (solver a'))) ?x ?y = blockToTile (active a)"
    if "cell (distances ?m) 0 0 = \<infinity>" "(?x, ?y) \<noteq> (0, 0)" "(?x, ?y) \<noteq> goal ?m"
    using paint_unlocked_cell [OF inv that(1) _ that(2,3) h] ib by (simp add: inBounds_in_range)
  have "reachable a'" using reachable.step [OF assms(1) ok h] .
  then show ?thesis using True ib h c by (simp add: getInfo_cell)
next
  case False
  then show ?thesis using assms(1,3) by (simp add: handleBlockDrawing_def)
qed

end
