(* ===== verification/Render.thy ===== *)
theory Render
  imports Mouse
begin

text \<open>
  The drawing side of the page.  The p5.js calls the source makes (\<^verbatim>\<open>fill\<close>,
  \<^verbatim>\<open>strokeWeight\<close>, \<^verbatim>\<open>rect\<close>, \<^verbatim>\<open>text\<close>, \<^verbatim>\<open>image\<close>) are commands, and what a drawing
  routine does is the list of commands it issues, in order: \<^verbatim>\<open>Maze.setFill\<close>,
  \<^verbatim>\<open>drawTile\<close>, \<^verbatim>\<open>resetBuffer\<close> and \<^verbatim>\<open>draw\<close> (lines 202--240 of
  \<^verbatim>\<open>src/main.js\<close>), and \<^verbatim>\<open>BlockPlacer.drawBlock\<close> and \<^verbatim>\<open>redrawMaze\<close> (73--101).  The
  off-screen buffer \<^verbatim>\<open>mazeBuffer\<close> is the list of commands drawn into it since the
  page loaded.  \<open>colour_at cs x y\<close> is the fill colour a command list leaves at the
  pixel \<open>(x, y)\<close>: later rectangles cover earlier ones, and a rectangle takes the fill
  set before it.  Stroke outlines and the text glyphs of the labels are not part of the
  colour semantics (the labels are checked to sit in the cells they name).
  \<^verbatim>\<open>image(mazeBuffer, 0, 0)\<close> copies the buffer onto the screen.
  Theory \<open>Page\<close> puts the buffer into the state of the page.
\<close>

datatype cmd = Fill "nat list" | StrokeWeight nat | Rect real real real real | Text string real real | Image

type_synonym colour = "nat list"

section \<open>Drawing routines\<close>

text \<open>\<^verbatim>\<open>Maze.setFill\<close>: green, brown and blue for the tile codes 0, 1 and 2.\<close>

definition tile_colour :: "tile \<Rightarrow> colour" where
  "tile_colour t = (case t of Empty \<Rightarrow> [68, 226, 91] | Wall \<Rightarrow> [80, 41, 0] | Slow \<Rightarrow> [40, 53, 147])"

definition setFill :: "tile \<Rightarrow> cmd" where
  "setFill t = Fill (tile_colour t)"

definition drawTile :: "maze \<Rightarrow> int \<Rightarrow> int \<Rightarrow> tile \<Rightarrow> cmd list" where
  "drawTile m x y t =
     (let w = maze_width m in [setFill t, Rect (of_int x * w) (of_int y * w) w w])"

text \<open>\<^verbatim>\<open>resetBuffer\<close>: every tile, column by column, then the labels on mazes of at
  most 30 tiles a side.\<close>

definition resetBuffer :: "maze \<Rightarrow> cmd list" where
  "resetBuffer m =
     (let n = maze_size m; w = maze_width m
      in [StrokeWeight 1] @
         concat (map (\<lambda>i. concat (map (\<lambda>j. drawTile m (int i) (int j) (cell (maze_map m) (int i) (int j)))
                                        [0..<n])) [0..<n]) @
         (if n \<le> 30 then [Fill [0], Text ''A'' (w / 2) (w / 2),
                           Text ''B'' (CANVASSIZE - w / 2) (CANVASSIZE - w / 2)]
          else []))"

text \<open>\<^verbatim>\<open>Maze.draw\<close>: copy the buffer to the screen.\<close>

definition maze_draw :: "cmd list" where
  "maze_draw = [Image]"

text \<open>\<^verbatim>\<open>BlockPlacer.drawBlock\<close>: while no search is under way, the maze and, over it,
  the selected block on the cell under the mouse, with a thick outline.\<close>

definition drawBlock :: "real \<Rightarrow> real \<Rightarrow> app \<Rightarrow> cmd list" where
  "drawBlock mouseX mouseY a =
     (let m = maze (solver a)
      in if cell (distances m) 0 0 = \<infinity> then
           (case getInfo m (active a) mouseX mouseY of
              (width, xPos, yPos, tile) \<Rightarrow>
                maze_draw @ [setFill tile, StrokeWeight 3,
                             Rect (of_int xPos * width) (of_int yPos * width) width width])
         else [])"

definition redrawMaze :: "app \<Rightarrow> cmd list" where
  "redrawMaze a = (if cell (distances (maze (solver a))) 0 0 = \<infinity> then maze_draw else [])"

section \<open>The colour of a pixel\<close>

text \<open>The state of the painter: the current fill and the colour of the pixel.\<close>

fun exec1 :: "real \<Rightarrow> real \<Rightarrow> cmd \<Rightarrow> colour option \<times> colour option \<Rightarrow> colour option \<times> colour option" where
  "exec1 px py (Fill k) (f, c) = (Some k, c)"
| "exec1 px py (Rect x y w h) (f, c) =
     (f, if x \<le> px \<and> px < x + w \<and> y \<le> py \<and> py < y + h then f else c)"
| "exec1 px py (StrokeWeight k) s = s"
| "exec1 px py (Text t x y) s = s"
| "exec1 px py Image s = s"

definition colour_at :: "cmd list \<Rightarrow> real \<Rightarrow> real \<Rightarrow> colour option" where
  "colour_at cs px py = snd (fold (exec1 px py) cs (None, None))"

text \<open>On the screen, \<^verbatim>\<open>image\<close> puts the buffer's pixel over what was there.\<close>

fun show1 :: "cmd list \<Rightarrow> real \<Rightarrow> real \<Rightarrow> cmd \<Rightarrow> colour option \<times> colour option \<Rightarrow> colour option \<times> colour option" where
  "show1 buf px py Image (f, c) = (f, case colour_at buf px py of None \<Rightarrow> c | Some k \<Rightarrow> Some k)"
| "show1 buf px py cm s = exec1 px py cm s"

definition screen_colour :: "cmd list \<Rightarrow> cmd list \<Rightarrow> real \<Rightarrow> real \<Rightarrow> colour option" where
  "screen_colour buf cs px py = snd (fold (show1 buf px py) cs (None, None))"

section \<open>Tiles and pixels\<close>

lemma maze_width_pos: "0 < maze_size m \<Longrightarrow> 0 < maze_width m"
  by (simp add: maze_width_def CANVASSIZE_def)

text \<open>A pixel lies in the rectangle of tile \<open>(x, y)\<close> exactly when \<^verbatim>\<open>getInfo\<close> maps it
  to that tile.\<close>

lemma in_tile_iff:
  assumes "0 < w"
  shows "(of_int x * w \<le> px \<and> px < of_int x * w + w \<and> of_int y * w \<le> py \<and> py < of_int y * w + w) \<longleftrightarrow>
         \<lfloor>px / w\<rfloor> = x \<and> \<lfloor>py / w\<rfloor> = y"
proof -
  have "of_int x * w \<le> px \<and> px < of_int x * w + w \<longleftrightarrow> \<lfloor>px / w\<rfloor> = x" for x px
  proof -
    have "of_int x * w \<le> px \<longleftrightarrow> of_int x \<le> px / w" using assms by (simp add: le_divide_eq)
    moreover have "px < of_int x * w + w \<longleftrightarrow> px / w < of_int x + 1"
      using assms by (simp add: divide_less_eq algebra_simps)
    ultimately show ?thesis by (simp add: floor_eq_iff)
  qed
  then show ?thesis by blast
qed

lemma fold_drawTile:
  assumes "0 < maze_width m"
  shows "fold (exec1 px py) (drawTile m x y t) s =
    (Some (tile_colour t),
     if \<lfloor>px / maze_width m\<rfloor> = x \<and> \<lfloor>py / maze_width m\<rfloor> = y then Some (tile_colour t) else snd s)"
  using in_tile_iff [OF assms, of x px y py]
  by (cases s) (simp add: drawTile_def setFill_def Let_def)

text \<open>Drawing a list of tiles: the pixel takes the colour of its own tile if
  that tile is drawn, and keeps its colour otherwise.\<close>

lemma fold_tiles:
  assumes "0 < maze_width m" "\<lfloor>px / maze_width m\<rfloor> = int i0" "\<lfloor>py / maze_width m\<rfloor> = int j0"
  shows "snd (fold (exec1 px py) (concat (map (\<lambda>(i, j). drawTile m (int i) (int j) (g i j)) cs)) s) =
         (if (i0, j0) \<in> set cs then Some (tile_colour (g i0 j0)) else snd s)"
proof (induction cs arbitrary: s)
  case Nil
  then show ?case by simp
next
  case (Cons c cs)
  obtain i j where c: "c = (i, j)" by (cases c)
  show ?case using Cons.IH [of "fold (exec1 px py) (drawTile m (int i) (int j) (g i j)) s"]
    by (simp add: c fold_drawTile [OF assms(1)] assms(2,3))
qed

lemma concat_map_nested:
  "concat (map (\<lambda>i. concat (map (f i) ys)) xs) = concat (map (\<lambda>(i, j). f i j) (List.product xs ys))"
  by (induction xs) (simp_all add: comp_def)

lemma fold_labels:
  "snd (fold (exec1 px py) (if b then [Fill k, Text ''A'' u v, Text ''B'' u' v'] else []) s) = snd s"
  by (cases s) simp

text \<open>\<^verbatim>\<open>resetBuffer()\<close> paints every pixel of the canvas, whatever the buffer held.\<close>

lemma fold_resetBuffer:
  assumes "0 < maze_size m" "on_canvas px py"
  shows "snd (fold (exec1 px py) (resetBuffer m) s) =
           Some (tile_colour (cell (maze_map m) \<lfloor>px / maze_width m\<rfloor> \<lfloor>py / maze_width m\<rfloor>))"
proof -
  let ?n = "maze_size m" and ?w = "maze_width m"
  have w: "0 < ?w" using maze_width_pos [OF assms(1)] .
  have r: "inBounds m \<lfloor>px / ?w\<rfloor> \<lfloor>py / ?w\<rfloor>" using getInfo_inBounds [OF assms] .
  define i0 where "i0 = nat \<lfloor>px / ?w\<rfloor>"
  define j0 where "j0 = nat \<lfloor>py / ?w\<rfloor>"
  have i0: "\<lfloor>px / ?w\<rfloor> = int i0" "i0 < ?n" and j0: "\<lfloor>py / ?w\<rfloor> = int j0" "j0 < ?n"
    using r by (auto simp: i0_def j0_def inBounds_def nat_less_iff)
  have "(i0, j0) \<in> set (List.product [0..<?n] [0..<?n])" using i0(2) j0(2) by simp
  then show ?thesis
    using fold_tiles [OF w i0(1) j0(1), of "\<lambda>i j. cell (maze_map m) (int i) (int j)"]
    by (simp add: resetBuffer_def Let_def concat_map_nested fold_labels i0(1) j0(1) del: set_product)
qed

text \<open>Drawing after a buffer: a pixel the new commands paint takes their colour.\<close>

lemma colour_at_append_drawTile:
  "0 < maze_width m \<Longrightarrow>
   colour_at (buf @ drawTile m x y t) px py =
     (if \<lfloor>px / maze_width m\<rfloor> = x \<and> \<lfloor>py / maze_width m\<rfloor> = y then Some (tile_colour t)
      else colour_at buf px py)"
  by (simp add: colour_at_def fold_drawTile)

lemma colour_at_append_resetBuffer:
  "0 < maze_size m \<Longrightarrow> on_canvas px py \<Longrightarrow>
   colour_at (buf @ resetBuffer m) px py =
     Some (tile_colour (cell (maze_map m) \<lfloor>px / maze_width m\<rfloor> \<lfloor>py / maze_width m\<rfloor>))"
  by (simp add: colour_at_def fold_resetBuffer)

lemma in_range_floor:
  assumes "0 < maze_size m" "on_canvas px py"
  shows "in_range (maze_size m) \<lfloor>px / maze_width m\<rfloor> \<lfloor>py / maze_width m\<rfloor>"
  using getInfo_inBounds [OF assms] by (simp add: inBounds_def in_range_def)

section \<open>Properties of the drawing routines\<close>

text \<open>
  C32.  \<^verbatim>\<open>resetBuffer()\<close> draws the tile map: on a maze of positive size, every pixel
  of the canvas gets the colour \<^verbatim>\<open>setFill\<close> gives the tile of the cell that
  \<^verbatim>\<open>getInfo()\<close> maps the pixel to.
\<close>

theorem resetBuffer_shows_map:
  assumes "0 < maze_size m" "on_canvas px py"
  shows "colour_at (resetBuffer m) px py =
           Some (tile_colour (cell (maze_map m) \<lfloor>px / maze_width m\<rfloor> \<lfloor>py / maze_width m\<rfloor>))"
  using fold_resetBuffer [OF assms] by (simp add: colour_at_def)

end
