(* ===== verification/Page.thy ===== *)
theory Page
  imports Render
begin

text \<open>
  The page: a session of theory \<open>App\<close> together with the state the handlers keep in
  the document.  That state is the off-screen buffer \<^verbatim>\<open>mazeBuffer\<close> (the commands drawn
  into it, theory \<open>Render\<close>), the \<^verbatim>\<open>active\<close> classes of the block elements
  (\<^verbatim>\<open>BlockSelector.deactivateAll\<close> and \<^verbatim>\<open>activate\<close>, lines 24--36 of
  \<^verbatim>\<open>src/main.js\<close>), the \<^verbatim>\<open>hidden\<close> classes of the play and pause buttons
  (\<^verbatim>\<open>ControlsHandler.play\<close> and \<^verbatim>\<open>pause\<close>, 430--444), and the two fields of the
  settings form (\<^verbatim>\<open>SettingsHandler\<close>, 116--139).  A field holds the number the user
  typed; \<^verbatim>\<open>parseFloat\<close> of the text the constructor writes gives back the number
  written.  \<open>page_handle\<close> runs the handler of a user action on the session and does the
  same handler's document work: \<^verbatim>\<open>setBlock\<close> draws the tile it wrote,
  \<^verbatim>\<open>SettingsHandler.resetMaze\<close> redraws the buffer, the control buttons swap the
  play and pause buttons, a block click moves the highlight.  \<open>page_reachable\<close> is the
  set of pages a visit can reach; the reset-maze button reads the form.
\<close>

section \<open>The document state\<close>

record page =
  session :: app
  buffer :: "cmd list"
  classes :: "block \<Rightarrow> bool"
  play_hidden :: bool
  pause_hidden :: bool
  sizeField :: real
  wallFreqField :: real

text \<open>A user action: an event of the session, or typing into a field of the form.\<close>

datatype page_event = UI ui_event | EditSize real | EditWallFreq real

text \<open>\<^verbatim>\<open>BlockSelector.deactivateAll\<close>: the loop over the block elements, removing the
  class \<^verbatim>\<open>active\<close> from each; \<^verbatim>\<open>activate\<close> then adds it to the clicked one.\<close>

definition deactivateAll :: "(block \<Rightarrow> bool) \<Rightarrow> block \<Rightarrow> bool" where
  "deactivateAll cls = fold (\<lambda>k c. c(k := False)) [EraseBlock, WallBlock] cls"

definition activate_classes :: "block \<Rightarrow> (block \<Rightarrow> bool) \<Rightarrow> block \<Rightarrow> bool" where
  "activate_classes b cls = (deactivateAll cls)(b := True)"

text \<open>What \<^verbatim>\<open>BlockPlacer.setBlock\<close> draws into the buffer: the tile it wrote, at the
  cell under the mouse, when the edit is not locked.\<close>

definition placer_drawTile :: "int \<Rightarrow> int \<Rightarrow> app \<Rightarrow> cmd list" where
  "placer_drawTile x y a =
     (let m = maze (solver a)
      in if cell (distances m) 0 0 = \<infinity> then drawTile m x y (blockToTile (active a)) else [])"

text \<open>The buffer writes of each handler: \<^verbatim>\<open>setBlock\<close> draws the tile,
  \<^verbatim>\<open>SettingsHandler.resetMaze\<close> redraws the whole new maze (its map and size are those
  the restart leaves); no other handler draws into the buffer.\<close>

fun page_writes :: "ui_event \<Rightarrow> app \<Rightarrow> app \<Rightarrow> cmd list" where
  "page_writes (Paint x y) a a' = placer_drawTile x y a"
| "page_writes (ResetMazeBtn n freq rnd) a a' = resetBuffer (maze (solver a'))"
| "page_writes e a a' = []"

fun page_classes :: "ui_event \<Rightarrow> (block \<Rightarrow> bool) \<Rightarrow> block \<Rightarrow> bool" where
  "page_classes (ClickBlock b) cls = activate_classes b cls"
| "page_classes e cls = cls"

text \<open>The \<^verbatim>\<open>hidden\<close> classes of the play and pause buttons, as a pair: \<^verbatim>\<open>play()\<close>
  hides play and shows pause when the solver can step; \<^verbatim>\<open>pause()\<close>, which step, skip,
  restart and the settings form all call, shows play and hides pause.\<close>

fun page_buttons :: "ui_event \<Rightarrow> app \<Rightarrow> bool \<times> bool \<Rightarrow> bool \<times> bool" where
  "page_buttons PlayBtn a hb = (if canStep (solver a) = Inr True then (True, False) else hb)"
| "page_buttons PauseBtn a hb = (False, True)"
| "page_buttons StepBtn a hb = (False, True)"
| "page_buttons SkipBtn a hb = (False, True)"
| "page_buttons RestartBtn a hb = (False, True)"
| "page_buttons (ResetMazeBtn n freq rnd) a hb = (False, True)"
| "page_buttons e a hb = hb"

definition page_ui :: "ui_event \<Rightarrow> page \<Rightarrow> (error + page) option" where
  "page_ui e p =
     map_option
       (map_sum id
         (\<lambda>a'. let hb = page_buttons e (session p) (play_hidden p, pause_hidden p)
               in p\<lparr>session := a', buffer := buffer p @ page_writes e (session p) a',
                    classes := page_classes e (classes p),
                    play_hidden := fst hb, pause_hidden := snd hb\<rparr>))
       (handle e (session p))"

fun page_handle :: "page_event \<Rightarrow> page \<Rightarrow> (error + page) option" where
  "page_handle (UI e) p = page_ui e p"
| "page_handle (EditSize v) p = Some (Inr (p\<lparr>sizeField := v\<rparr>))"
| "page_handle (EditWallFreq v) p = Some (Inr (p\<lparr>wallFreqField := v\<rparr>))"

text \<open>The events a visit can produce: a paint on an in-bounds cell, and a reset-maze
  click with the size and frequency the form holds.\<close>

fun page_event_ok :: "page \<Rightarrow> page_event \<Rightarrow> bool" where
  "page_event_ok p (UI (ResetMazeBtn n freq rnd)) \<longleftrightarrow> real n = sizeField p \<and> freq = wallFreqField p"
| "page_event_ok p (UI e) \<longleftrightarrow> event_ok (session p) e"
| "page_event_ok p e \<longleftrightarrow> True"

text \<open>\<^verbatim>\<open>setup()\<close>: the session; the \<^verbatim>\<open>SettingsHandler\<close> constructor writes the
  maze's size and frequency into the form; then \<^verbatim>\<open>maze.resetBuffer()\<close>.  The classes
  the block elements and the buttons start with come from the page's HTML.\<close>

definition page_setup :: "(nat \<Rightarrow> real) \<Rightarrow> (block \<Rightarrow> bool) \<Rightarrow> bool \<times> bool \<Rightarrow> error + page" where
  "page_setup rnd cls hb =
     map_sum id
       (\<lambda>a. \<lparr>session = a, buffer = resetBuffer (maze (solver a)), classes = cls,
             play_hidden = fst hb, pause_hidden = snd hb,
             sizeField = real (maze_size (maze (solver a))), wallFreqField = wallFreq (maze (solver a))\<rparr>)
       (app_setup rnd)"

inductive page_reachable :: "page \<Rightarrow> bool" where
  init: "page_setup rnd cls hb = Inr p \<Longrightarrow> page_reachable p"
| step: "page_reachable p \<Longrightarrow> page_event_ok p e \<Longrightarrow> page_handle e p = Some (Inr p') \<Longrightarrow> page_reachable p'"

text \<open>What the buffer shows at a pixel: the colour of the tile the map holds there, or,
  on the start and finish cells, possibly a wall.\<close>

definition buffer_shows :: "maze \<Rightarrow> cmd list \<Rightarrow> real \<Rightarrow> real \<Rightarrow> bool" where
  "buffer_shows m buf px py \<longleftrightarrow>
     (let x = \<lfloor>px / maze_width m\<rfloor>; y = \<lfloor>py / maze_width m\<rfloor>
      in colour_at buf px py = Some (tile_colour (cell (maze_map m) x y)) \<or>
         ((x, y) \<in> {(0, 0), (int (maze_size m) - 1, int (maze_size m) - 1)} \<and>
          colour_at buf px py = Some (tile_colour Wall)))"

definition selector_ok :: "page \<Rightarrow> bool" where
  "selector_ok p \<longleftrightarrow>
     classes p EraseBlock = (active (session p) = EraseBlock) \<and>
     classes p WallBlock = (active (session p) = WallBlock)"

text \<open>The buttons show the solver's state: play is hidden exactly while it runs.\<close>

definition buttons_ok :: "page \<Rightarrow> bool" where
  "buttons_ok p \<longleftrightarrow> play_hidden p = solving (solver (session p)) \<and> pause_hidden p = (\<not> solving (solver (session p)))"

text \<open>The form holds the size and frequency of the maze on the page.\<close>

definition form_matches :: "page \<Rightarrow> bool" where
  "form_matches p \<longleftrightarrow>
     sizeField p = real (maze_size (maze (solver (session p)))) \<and>
     wallFreqField p = wallFreq (maze (solver (session p)))"

section \<open>Lemmas on the page\<close>

lemma page_ui_Inr:
  "page_ui e p = Some (Inr p') \<longleftrightarrow>
   (\<exists>a'. handle e (session p) = Some (Inr a') \<and> session p' = a' \<and>
         buffer p' = buffer p @ page_writes e (session p) a' \<and>
         classes p' = page_classes e (classes p) \<and>
         (play_hidden p', pause_hidden p') = page_buttons e (session p) (play_hidden p, pause_hidden p) \<and>
         sizeField p' = sizeField p \<and> wallFreqField p' = wallFreqField p)"
  by (cases p, cases p') (auto simp: page_ui_def map_sum_eq_Inr Let_def prod_eq_iff)

lemma page_event_ok_UI: "page_event_ok p (UI e) \<Longrightarrow> event_ok (session p) e"
  by (cases e) simp_all

lemma page_reachable_session: "page_reachable p \<Longrightarrow> reachable (session p)"
proof (induction rule: page_reachable.induct)
  case (init rnd cls hb p)
  then show ?case by (auto simp: page_setup_def map_sum_eq_Inr intro: reachable.init)
next
  case (step p e p')
  then show ?case
    by (cases e) (auto simp: page_ui_Inr dest: page_event_ok_UI intro: reachable.step)
qed

text \<open>The handlers other than painting and the settings form keep the tile map and
  the size.\<close>

lemma handle_same_map:
  assumes inv: "app_inv a" and h: "handle e a = Some (Inr a')"
    and np: "\<And>x y. e \<noteq> Paint x y" and nr: "\<And>n f r. e \<noteq> ResetMazeBtn n f r"
  shows "same_map (solver a) (solver a')"
proof -
  have si: "solver_inv (solver a)" using inv by (simp add: app_inv_def)
  show ?thesis
  proof (cases e)
    case (ClickBlock b)
    then show ?thesis using h by (auto simp: activate_def same_map_def)
  next
    case PlayBtn
    then show ?thesis using h controls_play_inv [OF si] by (auto simp: with_solver_Inr)
  next
    case PauseBtn
    then show ?thesis using h by (auto simp: controls_pause_def pause_def same_map_def)
  next
    case StepBtn
    then show ?thesis using h controls_step_inv [OF si] by (auto simp: with_solver_Inr)
  next
    case SkipBtn
    then obtain s' where s': "skip (controls_pause (solver a)) = Some (Inr s')" "a' = a\<lparr>solver := s'\<rparr>"
      using h by (auto simp: with_solver_Inr controls_skip_def)
    have "solver_inv (controls_pause (solver a))" using si by (simp add: controls_pause_def pause_def)
    then have "same_map (controls_pause (solver a)) s'" using skip_inv s'(1) by blast
    then show ?thesis using s'(2) by (simp add: same_map_def controls_pause_def pause_def)
  next
    case RestartBtn
    then show ?thesis using h controls_restart_inv [OF solver_inv_wf [OF si]] by (auto simp: with_solver_Inr)
  next
    case Tick
    then show ?thesis using h solveLoop_inv [OF si] by (auto simp: with_solver_Inr)
  qed (use np nr in auto)
qed

text \<open>A paint keeps what the buffer shows: the tile drawn is the tile written, except
  that \<^verbatim>\<open>clearEnds()\<close> may empty the start or finish cell after a wall was drawn there.\<close>

lemma paint_buffer_shows:
  assumes inv: "app_inv a" and ok: "inBounds (maze (solver a)) x y"
    and h: "handle (Paint x y) a = Some (Inr a')" and c: "on_canvas px py"
    and bs: "buffer_shows (maze (solver a)) buf px py"
  shows "buffer_shows (maze (solver a')) (buf @ placer_drawTile x y a) px py"
proof -
  let ?m = "maze (solver a)" let ?n = "maze_size ?m" let ?w = "maze_width ?m"
  let ?t = "blockToTile (active a)"
  let ?cx = "\<lfloor>px / ?w\<rfloor>" and ?cy = "\<lfloor>py / ?w\<rfloor>"
  note sq = wf_maze_squares [OF solver_inv_wf [of "solver a"]]
  have si: "solver_inv (solver a)" and ec: "ends_clear ?m" using inv by (simp_all add: app_inv_def)
  have n: "0 < ?n" using sq(1) [OF si] .
  have w: "0 < ?w" using maze_width_pos [OF n] .
  have cr: "in_range ?n ?cx ?cy" using in_range_floor [OF n c] .
  have xr: "in_range ?n x y" using ok by (simp add: inBounds_def in_range_def)
  show ?thesis
  proof (cases "cell (distances ?m) 0 0 = \<infinity>")
    case False
    then have f: "cell (distances ?m) 0 0 = \<infinity> \<longleftrightarrow> False" by blast
    have "placer_drawTile x y a = []" by (simp add: placer_drawTile_def f)
    moreover have "a' = a" using h by (simp add: setBlock_def f)
    ultimately show ?thesis using bs by simp
  next
    case True
    have "square ?n (set_cell (maze_map ?m) x y ?t)" using sq(2) [OF si] by simp
    then obtain g where g: "clearEnds (set_cell (maze_map ?m) x y ?t) = Inr g"
        "cell g 0 0 = Empty" "cell g (int ?n - 1) (int ?n - 1) = Empty"
        "\<And>i j. in_range ?n i j \<Longrightarrow> (i, j) \<noteq> (0, 0) \<Longrightarrow> (i, j) \<noteq> (int ?n - 1, int ?n - 1) \<Longrightarrow>
           cell g i j = cell (set_cell (maze_map ?m) x y ?t) i j"
      using clearEnds_Inr [of ?n] n by blast
    have a': "maze (solver a') = ?m\<lparr>maze_map := g\<rparr>" using h True g(1) by (auto simp: setBlock_def)
    have col: "colour_at (buf @ placer_drawTile x y a) px py =
        (if ?cx = x \<and> ?cy = y then Some (tile_colour ?t) else colour_at buf px py)"
      using True colour_at_append_drawTile [OF w] by (simp add: placer_drawTile_def)
    have old: "cell (set_cell (maze_map ?m) x y ?t) ?cx ?cy = (if (?cx, ?cy) = (x, y) then ?t else cell (maze_map ?m) ?cx ?cy)"
      using cell_set_cell [OF sq(2) [OF si] xr cr] .
    have t: "?t = Empty \<or> ?t = Wall" by (cases "active a") (simp_all add: blockToTile_def)
    show ?thesis
    proof (cases "(?cx, ?cy) \<in> {(0, 0), (int ?n - 1, int ?n - 1)}")
      case True
      then have "cell g ?cx ?cy = Empty" "cell (maze_map ?m) ?cx ?cy = Empty"
        using g(2,3) ec by (auto simp: ends_clear_def)
      then show ?thesis using bs True col t a'
        by (auto simp: buffer_shows_def Let_def maze_width_def)
    next
      case False
      then have "cell g ?cx ?cy = (if (?cx, ?cy) = (x, y) then ?t else cell (maze_map ?m) ?cx ?cy)"
        using g(4) [OF cr] old by auto
      then show ?thesis using bs False col a'
        by (auto simp: buffer_shows_def Let_def maze_width_def)
    qed
  qed
qed

text \<open>The other handlers keep the map and do not draw, except the settings form,
  which redraws everything.\<close>

lemma handle_buffer_shows:
  assumes inv: "app_inv a" and ok: "event_ok a e" and h: "handle e a = Some (Inr a')"
    and c: "on_canvas px py" and bs: "buffer_shows (maze (solver a)) buf px py"
  shows "buffer_shows (maze (solver a')) (buf @ page_writes e a a') px py"
proof (cases "\<exists>x y. e = Paint x y")
  case True
  then obtain x y where e: "e = Paint x y" by blast
  then show ?thesis using paint_buffer_shows [OF inv _ _ c bs] ok h by simp
next
  case np: False
  show ?thesis
  proof (cases "\<exists>n f r. e = ResetMazeBtn n f r")
    case True
    then obtain n f r where e: "e = ResetMazeBtn n f r" by blast
    then obtain s' where s': "resetMaze n f r (solver a) = Inr s'" "a' = a\<lparr>solver := s'\<rparr>"
      using h by (auto simp: with_solver_Inr)
    have "0 < maze_size (maze s')"
      using resetMaze_inv [OF s'(1)] wf_maze_squares(1) solver_inv_wf by blast
    then show ?thesis
      using e s'(2) colour_at_append_resetBuffer [OF _ c] by (simp add: buffer_shows_def Let_def)
  next
    case False
    then have "same_map (solver a) (solver a')" using handle_same_map [OF inv h] np by blast
    moreover have "page_writes e a a' = []" using np False by (cases e) auto
    ultimately show ?thesis using bs by (simp add: buffer_shows_def same_map_def maze_width_def)
  qed
qed

lemma deactivateAll_False [simp]: "deactivateAll cls k = False"
  by (cases k) (simp_all add: deactivateAll_def)

lemma handle_active:
  "handle e a = Some (Inr a') \<Longrightarrow> (\<And>b. e \<noteq> ClickBlock b) \<Longrightarrow> active a' = active a"
  by (cases e) (auto simp: with_solver_Inr map_sum_eq_Inr)



text \<open>The control buttons that end in \<^verbatim>\<open>pause()\<close> leave the solver paused.\<close>

lemma controls_leave_paused:
  assumes inv: "app_inv a" and h: "handle e a = Some (Inr a')"
    and e: "e \<in> {PauseBtn, StepBtn, SkipBtn, RestartBtn} \<or> (\<exists>n f r. e = ResetMazeBtn n f r)"
  shows "\<not> solving (solver a')"
proof -
  have si: "solver_inv (solver a)" using inv by (simp add: app_inv_def)
  have ip: "solver_inv (controls_pause (solver a))" using si by (simp add: controls_pause_def pause_def)
  have rs: "\<not> solving s'" if "controls_restart s = Inr s'" "wf_maze (maze s)" for s s'
    using reset_inv [of "pause (controls_pause s)"] that
    by (auto simp: controls_restart_def controls_pause_def pause_def)
  show ?thesis
  proof (cases e)
    case StepBtn
    then obtain s' where s': "controls_step (solver a) = Inr s'" "a' = a\<lparr>solver := s'\<rparr>"
      using h by (auto simp: with_solver_Inr)
    have "solver_inv (controls_pause (solver a))" using si by (simp add: controls_pause_def pause_def)
    then show ?thesis using s' step_frame(1) [of "controls_pause (solver a)" s']
      by (auto simp: controls_step_def controls_pause_def pause_def split: sum.splits if_splits)
  next
    case SkipBtn
    then obtain s' where s': "skip (controls_pause (solver a)) = Some (Inr s')" "a' = a\<lparr>solver := s'\<rparr>"
      using h by (auto simp: with_solver_Inr controls_skip_def)
    then show ?thesis using skip_returns [OF ip] by (auto simp: controls_pause_def pause_def)
  next
    case RestartBtn
    then show ?thesis using h rs solver_inv_wf [OF si] by (auto simp: with_solver_Inr)
  next
    case (ResetMazeBtn n f r)
    then obtain s' where s': "resetMaze n f r (solver a) = Inr s'" "a' = a\<lparr>solver := s'\<rparr>"
      using h by (auto simp: with_solver_Inr)
    have n: "0 < n" using s'(1) by (cases n) (auto simp: resetMaze_def setUpMaze_zero)
    obtain m where "setUpMaze n f r (maze (solver a)) = Inr m" "wf_maze m"
      using setUpMaze_Inr [OF n] by blast
    then show ?thesis using s' rs [of "(solver a)\<lparr>maze := m\<rparr>" s'] by (simp add: resetMaze_def)
  qed (use e h in \<open>auto simp: controls_pause_def pause_def\<close>)
qed

text \<open>Every user action but the timer keeps the buttons in step with the solver.\<close>

lemma page_ui_buttons:
  assumes inv: "app_inv (session p)" and h: "page_ui e p = Some (Inr p')"
    and nt: "e \<noteq> Tick" and ok: "buttons_ok p"
  shows "buttons_ok p'"
proof -
  obtain a' where a': "handle e (session p) = Some (Inr a')" "session p' = a'"
      "(play_hidden p', pause_hidden p') = page_buttons e (session p) (play_hidden p, pause_hidden p)"
    using h by (auto simp: page_ui_Inr)
  have si: "solver_inv (solver (session p))" using inv by (simp add: app_inv_def)
  show ?thesis
  proof (cases "e \<in> {PauseBtn, StepBtn, SkipBtn, RestartBtn} \<or> (\<exists>n f r. e = ResetMazeBtn n f r)")
    case True
    then have "\<not> solving (solver a')" using controls_leave_paused [OF inv a'(1)] by blast
    moreover have "(play_hidden p', pause_hidden p') = (False, True)" using a'(3) True by auto
    ultimately show ?thesis using a'(2) by (simp add: buttons_ok_def)
  next
    case False
    show ?thesis
    proof (cases e)
      case PlayBtn
      then obtain s' where s': "controls_play (solver (session p)) = Inr s'" "a' = (session p)\<lparr>solver := s'\<rparr>"
        using a'(1) by (auto simp: with_solver_Inr)
      show ?thesis
      proof (cases "canStep (solver (session p)) = Inr True")
        case True
        then show ?thesis using s' a' PlayBtn by (auto simp: buttons_ok_def controls_play_def play_def)
      next
        case cF: False
        then have "canStep (solver (session p)) = Inr False" using canStep_inv [OF si] by simp
        then show ?thesis using s' a' PlayBtn ok by (simp add: buttons_ok_def controls_play_def)
      qed
    next
      case (ClickBlock b)
      then show ?thesis using a' ok by (auto simp: buttons_ok_def activate_def)
    next
      case (Paint x y)
      then show ?thesis using a' ok by (auto simp: buttons_ok_def map_sum_eq_Inr)
    qed (use False nt in auto)
  qed
qed

text \<open>The timer is the exception: the tick on which \<^verbatim>\<open>solveLoop\<close> pauses a finished
  solve leaves play hidden and pause shown.\<close>

lemma tick_desyncs_buttons:
  assumes "buttons_ok p" "solving (solver (session p))" "page_ui Tick p = Some (Inr p')"
    "\<not> solving (solver (session p'))"
  shows "play_hidden p' \<and> \<not> pause_hidden p' \<and> \<not> buttons_ok p'"
  using assms by (auto simp: page_ui_Inr buttons_ok_def)

text \<open>\<^verbatim>\<open>resetMaze\<close> builds the maze with the frequency it is given.\<close>

lemma resetMaze_wallFreq:
  assumes "resetMaze n freq rnd s = Inr s'"
  shows "wallFreq (maze s') = freq"
proof -
  have n: "0 < n" using assms by (cases n) (auto simp: resetMaze_def setUpMaze_zero)
  obtain m where m: "setUpMaze n freq rnd (maze s) = Inr m" "maze_size m = n" "wallFreq m = freq"
    using setUpMaze_Inr [OF n] by blast
  obtain m' where "resetDistances m = Inr m'" "wallFreq m' = wallFreq m"
    using resetDistances_Inr [of m] m(2) n by auto
  then show ?thesis
    using assms m by (auto simp: resetMaze_def controls_restart_def reset_def resetQueue_def
        controls_pause_def pause_def)
qed

text \<open>The form round trip: the constructor of \<^verbatim>\<open>SettingsHandler\<close> writes the maze's
  size and frequency into the form, and a reset-maze click with an untouched form builds
  a maze of the same size and frequency, and the form still matches it.\<close>

lemma page_setup_form: "page_setup rnd cls hb = Inr p \<Longrightarrow> form_matches p"
  by (auto simp: page_setup_def map_sum_eq_Inr form_matches_def)

lemma reset_maze_form_roundtrip:
  assumes "form_matches p" "page_event_ok p (UI (ResetMazeBtn n freq rnd))"
    "page_handle (UI (ResetMazeBtn n freq rnd)) p = Some (Inr p')"
  shows "maze_size (maze (solver (session p'))) = maze_size (maze (solver (session p))) \<and>
         wallFreq (maze (solver (session p'))) = wallFreq (maze (solver (session p))) \<and> form_matches p'"
proof -
  obtain s' where s': "resetMaze n freq rnd (solver (session p)) = Inr s'" "session p' = (session p)\<lparr>solver := s'\<rparr>"
      "sizeField p' = sizeField p" "wallFreqField p' = wallFreqField p"
    using assms(3) by (auto simp: page_ui_Inr with_solver_Inr)
  have "maze_size (maze s') = n" using resetMaze_inv [OF s'(1)] by simp
  moreover have "wallFreq (maze s') = freq" using resetMaze_wallFreq [OF s'(1)] .
  ultimately show ?thesis using assms(1,2) s'(2-4) by (auto simp: form_matches_def)
qed

section \<open>Properties of the page\<close>

text \<open>
  C33.  The buffer shows the maze: in every reachable page, every pixel of the canvas
  in the buffer has the colour of the tile the map holds in its cell, except that on the
  start and finish cells it may show a wall (see C34).
\<close>

theorem reachable_buffer_shows_map:
  assumes "page_reachable p" "on_canvas px py"
  shows "buffer_shows (maze (solver (session p))) (buffer p) px py"
  using assms(1)
proof (induction rule: page_reachable.induct)
  case (init rnd cls hb p)
  then obtain a where a: "app_setup rnd = Inr a" "session p = a" "buffer p = resetBuffer (maze (solver a))"
    by (auto simp: page_setup_def map_sum_eq_Inr)
  have "0 < maze_size (maze (solver a))"
    using app_setup_inv [OF a(1)] by (simp add: DEFAULTSIZE_def)
  then show ?case
    using a(2,3) colour_at_append_resetBuffer [OF _ assms(2), of _ "[]"] by (simp add: buffer_shows_def Let_def)
next
  case (step p e p')
  show ?case
  proof (cases e)
    case (UI u)
    then obtain a' where a': "handle u (session p) = Some (Inr a')" "session p' = a'"
        "buffer p' = buffer p @ page_writes u (session p) a'"
      using step.hyps(3) by (auto simp: page_ui_Inr)
    have "app_inv (session p)" using reachable_app_inv [OF page_reachable_session [OF step.hyps(1)]] .
    moreover have "event_ok (session p) u" using step.hyps(2) UI page_event_ok_UI by simp
    ultimately show ?thesis using handle_buffer_shows [OF _ _ a'(1) assms(2) step.IH] a'(2,3) by simp
  qed (use step in auto)
qed

text \<open>
  C34.  The buffer can disagree with the map: in a reachable page where no search is
  under way and the wall block is selected, a click on the start or finish cell draws a
  wall into the buffer at that cell, while \<^verbatim>\<open>clearEnds()\<close> leaves an empty tile in the
  map, so the page shows a wall the solver walks through.
\<close>

theorem paint_end_shows_wall:
  assumes "page_reachable p" "cell (distances (maze (solver (session p)))) 0 0 = \<infinity>"
    "active (session p) = WallBlock"
    "(x, y) \<in> {(0, 0), (int (maze_size (maze (solver (session p)))) - 1, int (maze_size (maze (solver (session p)))) - 1)}"
    "page_handle (UI (Paint x y)) p = Some (Inr p')"
    "\<lfloor>px / maze_width (maze (solver (session p)))\<rfloor> = x" "\<lfloor>py / maze_width (maze (solver (session p)))\<rfloor> = y"
  shows "colour_at (buffer p') px py = Some (tile_colour Wall) \<and>
         cell (maze_map (maze (solver (session p')))) x y = Empty"
proof -
  let ?a = "session p" let ?m = "maze (solver (session p))" let ?n = "maze_size ?m"
  have inv: "app_inv ?a" using reachable_app_inv [OF page_reachable_session [OF assms(1)]] .
  then have si: "solver_inv (solver ?a)" and ec: "ends_clear ?m" by (simp_all add: app_inv_def)
  have n: "0 < ?n" using wf_maze_squares(1) [OF solver_inv_wf [OF si]] .
  obtain a' where a': "handle (Paint x y) ?a = Some (Inr a')" "session p' = a'"
      "buffer p' = buffer p @ placer_drawTile x y ?a"
    using assms(5) by (auto simp: page_ui_Inr)
  have "colour_at (buffer p') px py = Some (tile_colour Wall)"
    using a'(3) assms(2,3,6,7) colour_at_append_drawTile [OF maze_width_pos [OF n]]
    by (simp add: placer_drawTile_def blockToTile_def)
  moreover have "event_ok ?a (Paint x y)" using assms(4) n by (auto simp: inBounds_def)
  then have "app_inv a'" using handle_inv [OF inv _ a'(1)] by simp
  moreover obtain m' where "setBlock x y (blockToTile (active ?a)) ?m = Inr m'" "maze_size m' = ?n"
    using setBlock_inv [OF si ec] by blast
  then have "maze_size (maze (solver a')) = ?n" using a'(1) by auto
  ultimately show ?thesis using a'(2) assms(4) by (auto simp: app_inv_def ends_clear_def)
qed

text \<open>
  C35.  The preview is what a click draws: while no search is under way, the screen
  after \<^verbatim>\<open>drawBlock\<close> at a mouse position shows at every pixel exactly what the buffer
  shows after a click at the same position; once a search has started, the preview
  draws nothing and the click draws nothing.
\<close>

theorem preview_matches_click:
  assumes "0 < maze_size (maze (solver (session p)))"
    "page_handle (UI (Paint \<lfloor>mx / maze_width (maze (solver (session p)))\<rfloor> \<lfloor>my / maze_width (maze (solver (session p)))\<rfloor>)) p = Some (Inr p')"
  shows "(cell (distances (maze (solver (session p)))) 0 0 = \<infinity> \<longrightarrow>
            screen_colour (buffer p) (drawBlock mx my (session p)) qx qy = colour_at (buffer p') qx qy) \<and>
         (cell (distances (maze (solver (session p)))) 0 0 \<noteq> \<infinity> \<longrightarrow>
            drawBlock mx my (session p) = [] \<and> buffer p' = buffer p)"
proof -
  let ?a = "session p" let ?m = "maze (solver (session p))" let ?w = "maze_width ?m"
  let ?x = "\<lfloor>mx / ?w\<rfloor>" and ?y = "\<lfloor>my / ?w\<rfloor>" and ?t = "blockToTile (active (session p))"
  have w: "0 < ?w" using maze_width_pos [OF assms(1)] .
  have b: "buffer p' = buffer p @ placer_drawTile ?x ?y ?a" using assms(2) by (auto simp: page_ui_Inr)
  have unlocked: "screen_colour (buffer p) (drawBlock mx my ?a) qx qy = colour_at (buffer p') qx qy"
    if u: "cell (distances ?m) 0 0 = \<infinity>"
  proof -
    have "drawBlock mx my ?a = Image # [setFill ?t, StrokeWeight 3, Rect (of_int ?x * ?w) (of_int ?y * ?w) ?w ?w]"
      using u by (simp add: drawBlock_def getInfo_cell maze_draw_def)
    then have "screen_colour (buffer p) (drawBlock mx my ?a) qx qy =
        (if \<lfloor>qx / ?w\<rfloor> = ?x \<and> \<lfloor>qy / ?w\<rfloor> = ?y then Some (tile_colour ?t) else colour_at (buffer p) qx qy)"
      using in_tile_iff [OF w, of ?x qx ?y qy]
      by (simp add: screen_colour_def setFill_def split: option.split)
    then show ?thesis using b u colour_at_append_drawTile [OF w] by (simp add: placer_drawTile_def)
  qed
  have locked: "drawBlock mx my ?a = [] \<and> buffer p' = buffer p" if l: "cell (distances ?m) 0 0 \<noteq> \<infinity>"
  proof -
    have f: "cell (distances ?m) 0 0 = \<infinity> \<longleftrightarrow> False" using l by blast
    show ?thesis using b by (simp add: drawBlock_def placer_drawTile_def f)
  qed
  show ?thesis using unlocked locked by blast
qed

text \<open>
  C36.  The highlighted block is the selected one: after a click on a block element,
  exactly that block carries the class \<^verbatim>\<open>active\<close> and is the block
  \<^verbatim>\<open>BlockPlacer\<close> paints with, and every other user action keeps this so.
\<close>

theorem selector_highlights_active:
  assumes "page_handle e p = Some (Inr p')" "selector_ok p \<or> (\<exists>b. e = UI (ClickBlock b))"
  shows "selector_ok p'"
proof (cases e)
  case (UI u)
  obtain a' where a': "handle u (session p) = Some (Inr a')" "session p' = a'"
      "classes p' = page_classes u (classes p)"
    using assms(1) UI by (auto simp: page_ui_Inr)
  show ?thesis
  proof (cases "\<exists>b. u = ClickBlock b")
    case True
    then obtain b where "u = ClickBlock b" by blast
    then show ?thesis using a' by (auto simp: selector_ok_def activate_def activate_classes_def)
  next
    case False
    then have "active a' = active (session p)" "page_classes u (classes p) = classes p"
      using handle_active [OF a'(1)] by (blast, cases u, auto)
    then show ?thesis using a' assms(2) False UI by (simp add: selector_ok_def)
  qed
qed (use assms in \<open>auto simp: selector_ok_def\<close>)

end
