(* ===== verification/Spec2Isabelle.thy ===== *)
theory Spec2Isabelle
  imports Phases Page
begin

text \<open>
  \<^bold>\<open>A verification library for maze-solve.\<close>

  \<^emph>\<open>The program.\<close>  \<^verbatim>\<open>src/main.js\<close> is a p5.js page: the user paints walls on a
  square grid, then watches a breadth-first search explore it tile by tile and trace a
  shortest path back from the goal corner \<open>(size-1, size-1)\<close> to the origin \<open>(0, 0)\<close>.
  Its parts, leaves first: \<^verbatim>\<open>Maze\<close> (tile map, distance field, explored flags),
  \<^verbatim>\<open>Queue\<close> and \<^verbatim>\<open>Node\<close> (the frontier), \<^verbatim>\<open>MazeSolver\<close> (one expansion per
  \<^verbatim>\<open>step()\<close>, \<^verbatim>\<open>skip()\<close>, the timer tick \<^verbatim>\<open>solveLoop()\<close>), \<^verbatim>\<open>PathViewer\<close> (the walk
  back along decreasing distances), and the UI objects \<^verbatim>\<open>BlockSelector\<close>,
  \<^verbatim>\<open>BlockPlacer\<close>, \<^verbatim>\<open>SettingsHandler\<close>, \<^verbatim>\<open>ControlsHandler\<close> that \<^verbatim>\<open>setup()\<close>
  wires to one shared maze.  Painting and solving exclude each other through the test
  \<^verbatim>\<open>distances[0][0] === Infinity\<close>.

  \<^emph>\<open>The theories.\<close>
  \<^item> \<open>Prelude\<close>: grids as \<open>'a list list\<close> read and written at \<open>int\<close> coordinates
    (\<open>cell\<close>, \<open>set_cell\<close>), their shape (\<open>square\<close>), the executable quantifier
    \<open>all_cells\<close>, the neighbour candidates in the code's order, the error type
    (\<^verbatim>\<open>TypeError\<close> with the undefined expression), and the count behind the
    termination measure.
  \<^item> \<open>Maze\<close>: record \<open>maze\<close> for the \<^verbatim>\<open>Maze\<close> class; \<open>create2DArray\<close>,
    \<open>getTile\<close>, \<open>clearEnds\<close>, \<open>resetDistances\<close>, \<open>setUpMaze\<close>, \<open>new_maze\<close>,
    \<open>solved\<close>, \<open>inBounds\<close>; \<open>Math.random\<close> is a function from call index to draw;
    \<^verbatim>\<open>Infinity\<close> is \<open>\<infinity>\<close> of \<open>enat\<close>.  Lemmas: the shape and content of a fresh maze,
    and the errors on size 0.  It also states \<open>descent\<close>, the interface between the
    solver and the path viewer.
  \<^item> \<open>Queue\<close>: record \<open>queue\<close> with \<open>push\<close>, \<open>pop\<close> (\<open>None\<close> for \<^verbatim>\<open>undefined\<close>),
    \<open>isEmpty\<close>; it is first-in first-out.
  \<^item> \<open>Solver\<close>: records \<open>node\<close> and \<open>solver\<close> (maze, queue, \<^verbatim>\<open>solving\<close>, and the
    canvas as a list of drawn events); \<open>step\<close>, \<open>getNeighbors\<close>, \<open>testTileFree\<close>,
    \<open>push_neighbors\<close> (the \<^verbatim>\<open>for\<close> loop of \<^verbatim>\<open>step\<close>), \<open>canStep\<close>, \<open>reset\<close>,
    \<open>play\<close>, \<open>pause\<close>.  The invariant \<open>solver_inv\<close> (queued cells distinct, in
    bounds, explored, not finalised; finalised cells explored; every reached cell but the
    origin has a smaller neighbour; the lock) is kept by every step, which also lowers
    \<open>search_measure\<close> = unexplored cells + queue length.
  \<^item> \<open>PathViewer\<close>: \<open>pick_best\<close> (the inner \<^verbatim>\<open>for\<close>) and \<open>walk\<close>, the
    \<^verbatim>\<open>while(true)\<close> loop as a \<^theory_text>\<open>partial_function (option)\<close>; on a field with
    \<open>descent\<close> it returns, and returns a path down the field to the origin.
  \<^item> \<open>SolverLoop\<close>: \<open>skip\<close> (its loop \<open>skip_loop\<close> again a partial function, proved
    to return by induction on \<open>search_measure\<close>) and \<open>solveLoop\<close>.
  \<^item> \<open>App\<close>: the UI handlers, the \<open>ui_event\<close> datatype of user actions and timer
    ticks, \<open>handle\<close>, and the inductive set \<open>reachable\<close> of session states from
    \<open>app_setup\<close>; every reachable state satisfies \<open>app_inv\<close>.
  \<^item> \<open>Shortest\<close>: the reference notion of a route (\<open>reach m c k\<close>: \<open>k\<close> moves from the
    origin through in-bounds non-wall tiles; \<open>shortest\<close>: the least such \<open>k\<close>), and the
    breadth-first invariant \<open>bfs_inv\<close>, in six named parts after the usual BFS proofs
    (finalised and queued distances exact, the queue within two consecutive layers,
    free neighbours of finalised tiles explored, explored tiles finalised or queued,
    tiles nearer than the head finalised).  On a unit-cost maze every \<open>step\<close> keeps it;
    from it follow exact distances, completeness on an empty queue, and that the drawn
    path is a shortest route.
  \<^item> \<open>Timer\<close>: \<open>ticks n\<close>, the interval timer of \<^verbatim>\<open>setup()\<close> firing \<^verbatim>\<open>solveLoop\<close>
    \<open>n\<close> times; a running solve stops, and agrees with \<^verbatim>\<open>skip\<close>.
  \<^item> \<open>Session\<close>: the page never writes a slow tile, so every reachable session
    satisfies the breadth-first invariant; the lemmas of \<open>Shortest\<close> lifted to sessions.
  \<^item> \<open>Mouse\<close>: the mouse side of \<^verbatim>\<open>BlockPlacer\<close> (\<open>getInfo\<close> with the tile width
    \<open>CANVASSIZE / size\<close>, the click and mouse-move listeners); a position on the canvas
    always gives an in-bounds cell, and the mouse handlers are \<open>Paint\<close> events of the
    session model.
  \<^item> \<open>Phases\<close>: the solver's state machine of the spec (section 4.3) as the
    inductive relation \<open>spec_trans\<close> over the phases \<open>Idle\<close>, \<open>Running\<close>,
    \<open>Paused\<close>, \<open>Solved\<close>, \<open>Unsolvable\<close>, the abstraction \<open>phase_of\<close> of a solver
    (goal finalised, queue empty, \<^verbatim>\<open>solving\<close>, origin finalised), and the
    simulation: each control of \<^verbatim>\<open>ControlsHandler\<close>, each edit and each tick is a
    transition of the spec's machine.
  \<^item> \<open>Render\<close>: the p5.js drawing calls as a datatype \<open>cmd\<close>, the drawing routines
    (\<^verbatim>\<open>Maze.setFill\<close>, \<^verbatim>\<open>drawTile\<close>, \<^verbatim>\<open>resetBuffer\<close>, \<^verbatim>\<open>draw\<close>,
    \<^verbatim>\<open>BlockPlacer.drawBlock\<close>, \<^verbatim>\<open>redrawMaze\<close>) as command lists, and
    \<open>colour_at\<close>, the fill colour a command list leaves at a pixel, in the style of
    an interpreter over an instruction list; \<open>show1\<close> adds \<^verbatim>\<open>image\<close>, the copy of
    the off-screen buffer onto the screen.
  \<^item> \<open>Page\<close>: the record \<open>page\<close> adds to a session the document state the handlers
    keep: the off-screen buffer, the \<^verbatim>\<open>active\<close> classes of the block elements
    (\<^verbatim>\<open>BlockSelector.deactivateAll\<close>), the \<^verbatim>\<open>hidden\<close> classes of the play and pause
    buttons, and the two fields of the settings form.  \<open>page_handle\<close> runs \<open>handle\<close> and
    the handler's document writes; typing into the form is an event of its own, and a
    reset-maze click carries the numbers the form holds.  \<open>page_reachable\<close> is the set
    of pages of a visit.  Lemmas: the buttons follow the solver under every user action
    (\<open>page_ui_buttons\<close>) but not under the timer (\<open>tick_desyncs_buttons\<close>), and the
    form round trip (\<open>reset_maze_form_roundtrip\<close>).
  \<^item> This theory: the properties that span components, stated over reachable sessions
    (the spec's scenarios among them, for every size of maze), and their witnesses, run
    in the kernel by \<open>code_simp\<close> on sessions built by \<open>run_events\<close> from the loaded
    page.

  \<^emph>\<open>What is proved.\<close>  Each property is a theorem after a text block naming its claim
  (C1 to C36).  In outline: the solver invariant is kept by \<^verbatim>\<open>step\<close> (C1), and one
  step is a breadth-first step (C23); \<^verbatim>\<open>skip\<close> returns (C2); a timer-driven solve
  matches \<^verbatim>\<open>skip\<close> (C24) and pauses within \<open>size * size + 1\<close> ticks (C27); the grids
  keep their \<open>size \<times> size\<close> shape (C28).  In every reachable session the lock is sound
  (C4); painting keeps the ends empty (C9), writes the selected tile before the search
  starts (C10) and is ignored once the origin is finalised (C8); the distances are
  shortest route lengths (C18), the queue is layered (C21), the drawn path is valid (C3)
  and shortest (C19), and an unsolvable report means there is no route (C20).  The
  spec's two scenarios hold for every size: on an open maze \<^verbatim>\<open>skip\<close> finalises the goal
  at the Manhattan distance and draws a path of \<open>2 size - 1\<close> tiles (C5); with both
  neighbours of the origin walled it stops with the queue empty and draws no path (C6).
  The buttons: restart (C11), reset maze (C12, C14), the loaded page (C16).  Mouse
  events on the canvas are in-bounds paints that write the tile under the mouse (C25,
  C26).  The page refines the spec's state machine (C29): in a terminal phase nothing
  but a reset changes the maze, the queue or the phase (C30), and a running solve
  reaches a terminal phase under the timer (C31).  The drawing is faithful to the state:
  \<^verbatim>\<open>resetBuffer\<close> paints every pixel in the colour of its tile (C32), every reachable
  page's buffer shows the map except that a wall painted on the start or finish cell
  stays visible after \<^verbatim>\<open>clearEnds\<close> has removed it (C33, C34, a bug of
  \<^verbatim>\<open>setBlock\<close>), the mouse-over preview is pixel for pixel what the click draws (C35),
  and the highlighted block is the selected one (C36); the play and pause buttons follow
  the solver under every user action, but a finished timer-driven solve leaves pause
  shown (a second bug, lemma \<open>tick_desyncs_buttons\<close>).  The divergences from the spec
  are theorems too: a second \<^verbatim>\<open>skip\<close> redraws the path (C7), \<^verbatim>\<open>step\<close> on an empty
  queue throws (C13), the page never places a slow tile (C22), and the lock lets a paint
  through while the solver is running (C17).  The lemmas \<open>skip_outcomes_overlap\<close> and
  \<open>slow_tile_distance_not_shortest\<close> run two more divergences on concrete mazes: the two
  outcomes of \<^verbatim>\<open>skip\<close> can hold together, and a slow tile makes the FIFO search
  inexact.  The queue is first-in first-out (C15).

  \<^emph>\<open>Loops, fuel and bounds.\<close>  No fuel is used.  The two unbounded loops of the source
  (\<^verbatim>\<open>skip\<close>'s \<^verbatim>\<open>while\<close> and \<^verbatim>\<open>PathViewer.draw\<close>'s \<^verbatim>\<open>while(true)\<close>) are partial
  functions into \<open>option\<close>, and that they return is a theorem: for \<open>skip\<close> by the
  measure \<open>search_measure\<close>, which each step lowers by exactly one; for the walk by the
  distance of the current cell, which drops at every move on a field with \<open>descent\<close>.
  The timer never stops firing; \<open>ticks n\<close> takes the number of firings as an argument,
  and the bound \<open>search_measure + 1\<close> is proved enough for a running solve to pause.
  Distances are \<open>nat\<close>: the source adds 1 or 2 to small integers, far from the range
  where JavaScript numbers lose precision.

  \<^emph>\<open>Not modelled.\<close>  Of the drawing, the colour semantics of theory \<open>Render\<close> leaves
  out stroke outlines, the glyphs of the A/B labels, and the alpha blending of the
  visited-tile overlay; the solver's drawing on the screen is kept as the canvas list of
  events.  The fields of the settings form hold numbers: that \<^verbatim>\<open>parseFloat\<close> reads
  back the number the constructor writes is taken, not proved, and text that does not
  parse to a natural size is outside the model.  The state a handler leaves when it
  throws part-way is not
  kept (a thrown handler is the value \<open>Inl\<close>).  Sizes are natural numbers:
  \<^verbatim>\<open>parseFloat\<close> of a non-integer or negative size is outside the model.  Block ids
  other than the two the page offers (erase, wall) are not modelled.
\<close>

section \<open>Sessions used as concrete inputs\<close>

text \<open>A sequence of user actions, stopping at the first one that throws or hangs.\<close>

fun run_events :: "ui_event list \<Rightarrow> app \<Rightarrow> (error + app) option" where
  "run_events [] a = Some (Inr a)"
| "run_events (e # es) a =
     (case handle e a of Some (Inr a') \<Rightarrow> run_events es a' | r \<Rightarrow> r)"

definition no_paint :: "ui_event \<Rightarrow> bool" where
  "no_paint e = (case e of Paint _ _ \<Rightarrow> False | _ \<Rightarrow> True)"

text \<open>The page as loaded, with every \<^verbatim>\<open>Math.random()\<close> draw equal to \<open>1\<close>.\<close>

definition start :: app where
  "start = projr (app_setup (\<lambda>_. 1))"

text \<open>The spec's open \<open>3 \<times> 3\<close> maze, set up from the settings form, before and after
  \<^verbatim>\<open>skip\<close>.\<close>

definition open3 :: app where
  "open3 = projr (the (run_events [ResetMazeBtn 3 0 (\<lambda>_. 0)] start))"

definition open3_solved :: app where
  "open3_solved = projr (the (run_events [ResetMazeBtn 3 0 (\<lambda>_. 0), SkipBtn] start))"

text \<open>A \<open>2 \<times> 2\<close> maze whose draws put walls on \<open>(0, 1)\<close> and \<open>(1, 0)\<close>.\<close>

definition blocked_draws :: "nat \<Rightarrow> real" where
  "blocked_draws k = (if k = 1 \<or> k = 2 then 0 else 1)"

definition blocked2 :: app where
  "blocked2 = projr (the (run_events [ResetMazeBtn 2 (1 / 2) blocked_draws] start))"

text \<open>The blocked maze after \<^verbatim>\<open>skip\<close>, and the open maze after two manual steps.\<close>

definition blocked2_skipped :: app where
  "blocked2_skipped = projr (the (run_events [SkipBtn] blocked2))"

definition open3_stepped :: app where
  "open3_stepped = projr (the (run_events [StepBtn, StepBtn] open3))"

text \<open>The open maze with the solver started by the play button.\<close>

definition open3_playing :: app where
  "open3_playing = projr (the (run_events [PlayBtn] open3))"

text \<open>The loaded page with its buffer, the wall block highlighted.\<close>

definition start_page :: page where
  "start_page =
     \<lparr>session = start, buffer = resetBuffer (maze (solver start)), classes = (\<lambda>b. b = WallBlock),
      play_hidden = False, pause_hidden = True,
      sizeField = real (maze_size (maze (solver start))), wallFreqField = wallFreq (maze (solver start))\<rparr>"

text \<open>A \<open>2 \<times> 2\<close> maze with a slow tile at \<open>(1, 0)\<close>; the page offers no slow block, so
  this maze is given to the solver directly.\<close>

definition slow2 :: maze where
  "slow2 = \<lparr>maze_size = 2, wallFreq = 0, maze_map = [[Empty, Empty], [Slow, Empty]],
            distances = [[\<infinity>, \<infinity>], [\<infinity>, \<infinity>]], explored = [[True, False], [False, False]]\<rparr>"

section \<open>Weighted paths\<close>

text \<open>The cost of a walk through the grid, as the spec weighs it: the cost of every tile
  entered.  A walk is open when each step is to an in-bounds, non-wall neighbour.\<close>

fun open_walk :: "maze \<Rightarrow> coord list \<Rightarrow> bool" where
  "open_walk m (p # q # rest) =
     (q \<in> set (candidates (fst p) (snd p)) \<and> inBounds m (fst q) (snd q) \<and>
      cell (maze_map m) (fst q) (snd q) \<noteq> Wall \<and> open_walk m (q # rest))"
| "open_walk m _ = True"

definition walk_cost :: "maze \<Rightarrow> coord list \<Rightarrow> nat" where
  "walk_cost m p = sum_list (map (\<lambda>(x, y). tile_cost (cell (maze_map m) x y)) (tl p))"

section \<open>Lemmas\<close>

lemma run_events_reachable:
  "reachable a \<Longrightarrow> list_all no_paint es \<Longrightarrow> run_events es a = Some (Inr a') \<Longrightarrow> reachable a'"
proof (induction es arbitrary: a)
  case Nil
  then show ?case by simp
next
  case (Cons e es)
  obtain a1 where a1: "handle e a = Some (Inr a1)" "run_events es a1 = Some (Inr a')"
    using Cons.prems(3) by (auto split: option.splits sum.splits)
  have "event_ok a e" using Cons.prems(2) by (cases e) (simp_all add: no_paint_def)
  then have "reachable a1" using reachable.step [OF Cons.prems(1) _ a1(1)] by blast
  then show ?case using Cons.IH Cons.prems(2) a1(2) by simp
qed

lemma start_setup: "app_setup (\<lambda>_. 1) = Inr start"
  unfolding start_def by code_simp

lemma reachable_start: "reachable start"
  using start_setup by (rule reachable.init)

lemma reachable_open3: "reachable open3"
proof -
  have "run_events [ResetMazeBtn 3 0 (\<lambda>_. 0)] start = Some (Inr open3)"
    unfolding open3_def start_def by code_simp
  moreover have "list_all no_paint [ResetMazeBtn 3 0 (\<lambda>_. 0)]" by (simp add: no_paint_def)
  ultimately show ?thesis using run_events_reachable [OF reachable_start] by blast
qed

lemma reachable_open3_solved: "reachable open3_solved"
proof -
  have "run_events [ResetMazeBtn 3 0 (\<lambda>_. 0), SkipBtn] start = Some (Inr open3_solved)"
    unfolding open3_solved_def start_def by code_simp
  moreover have "list_all no_paint [ResetMazeBtn 3 0 (\<lambda>_. 0), SkipBtn]" by (simp add: no_paint_def)
  ultimately show ?thesis using run_events_reachable [OF reachable_start] by blast
qed

lemma reachable_blocked2: "reachable blocked2"
proof -
  have "run_events [ResetMazeBtn 2 (1 / 2) blocked_draws] start = Some (Inr blocked2)"
    unfolding blocked2_def start_def by code_simp
  moreover have "list_all no_paint [ResetMazeBtn 2 (1 / 2) blocked_draws]" by (simp add: no_paint_def)
  ultimately show ?thesis using run_events_reachable [OF reachable_start] by blast
qed

lemma reachable_solver_inv: "reachable a \<Longrightarrow> solver_inv (solver a)"
  using reachable_app_inv by (simp add: app_inv_def)

lemma reachable_blocked2_skipped: "reachable blocked2_skipped"
proof -
  have "run_events [SkipBtn] blocked2 = Some (Inr blocked2_skipped)"
    unfolding blocked2_skipped_def blocked2_def start_def by code_simp
  moreover have "list_all no_paint [SkipBtn]" by (simp add: no_paint_def)
  ultimately show ?thesis using run_events_reachable [OF reachable_blocked2] by blast
qed

lemma reachable_open3_stepped: "reachable open3_stepped"
proof -
  have "run_events [StepBtn, StepBtn] open3 = Some (Inr open3_stepped)"
    unfolding open3_stepped_def open3_def start_def by code_simp
  moreover have "list_all no_paint [StepBtn, StepBtn]" by (simp add: no_paint_def)
  ultimately show ?thesis using run_events_reachable [OF reachable_open3] by blast
qed

lemma reachable_open3_playing: "reachable open3_playing"
proof -
  have "run_events [PlayBtn] open3 = Some (Inr open3_playing)"
    unfolding open3_playing_def open3_def start_def by code_simp
  moreover have "list_all no_paint [PlayBtn]" by (simp add: no_paint_def)
  ultimately show ?thesis using run_events_reachable [OF reachable_open3] by blast
qed

lemma reachable_start_page: "page_reachable start_page"
proof -
  have "page_setup (\<lambda>_. 1) (\<lambda>b. b = WallBlock) (False, True) = Inr start_page"
    using start_setup by (simp add: page_setup_def start_page_def)
  then show ?thesis by (rule page_reachable.init)
qed

lemma start_unlocked: "cell (distances (maze (solver start))) 0 0 = \<infinity>"
  unfolding start_def by code_simp

lemma start_width: "maze_width (maze (solver start)) = 20"
  unfolding start_def by code_simp

text \<open>The skip button from a reachable session: the loop returns a state that keeps
  both invariants and the map, and the handler draws the path exactly when the goal is
  finalised.\<close>

lemma skip_button:
  assumes "reachable a"
  shows "\<exists>s1. skip_loop (pause (solver a)) = Some (Inr s1) \<and> solver_inv s1 \<and> sp_inv s1 \<and>
           canStep s1 = Inr False \<and> maze_map (maze s1) = maze_map (maze (solver a)) \<and>
           maze_size (maze s1) = maze_size (maze (solver a)) \<and>
           (\<exists>vs. canvas s1 = canvas (solver a) @ vs \<and> visited_events vs) \<and>
           handle SkipBtn a =
             map_option (with_solver a)
               (if cell (distances (maze s1)) (fst (goal (maze s1))) (snd (goal (maze s1))) \<noteq> \<infinity>
                then pathViewer_draw s1 else Some (Inr s1))"
proof -
  have i: "solver_inv (pause (solver a))" "sp_inv (pause (solver a))"
    using reachable_session_inv [OF assms] by (simp_all add: app_inv_def pause_def)
  obtain s1 where s1: "skip_loop (pause (solver a)) = Some (Inr s1)" "solver_inv s1" "canStep s1 = Inr False"
      "maze_map (maze s1) = maze_map (maze (solver a))" "maze_size (maze s1) = maze_size (maze (solver a))"
      "\<exists>vs. canvas s1 = canvas (solver a) @ vs \<and> visited_events vs"
    using skip_loop_returns [OF i(1)] by (auto simp: pause_def)
  have "sp_inv s1"
    using skip_loop_preserves [where P = sp_inv, OF i s1(1)] sp_inv_step by blast
  moreover have "handle SkipBtn a =
             map_option (with_solver a)
               (if cell (distances (maze s1)) (fst (goal (maze s1))) (snd (goal (maze s1))) \<noteq> \<infinity>
                then pathViewer_draw s1 else Some (Inr s1))"
    using s1(1) solved_wf [OF solver_inv_wf [OF s1(2)]]
    by (simp add: controls_skip_def controls_pause_def skip_def)
  ultimately show ?thesis using s1 by blast
qed

text \<open>Timer ticks as user-level events.\<close>

lemma run_ticks:
  "ticks n (solver a) = Some (Inr s') \<Longrightarrow> run_events (replicate n Tick) a = Some (Inr (a\<lparr>solver := s'\<rparr>))"
proof (induction n arbitrary: a)
  case 0
  then show ?case by simp
next
  case (Suc n)
  then obtain s1 where s1: "solveLoop (solver a) = Some (Inr s1)" "ticks n s1 = Some (Inr s')"
    by (auto split: option.splits sum.splits)
  have "handle Tick a = Some (Inr (a\<lparr>solver := s1\<rparr>))" using s1(1) by (simp add: with_solver_def)
  then show ?case using Suc.IH [of "a\<lparr>solver := s1\<rparr>"] s1(2) by (simp del: handle.simps)
qed

section \<open>Properties of a session\<close>

text \<open>
  C3.  In every reachable session whose goal is finalised, \<^verbatim>\<open>PathViewer.draw()\<close>
  returns (it neither loops nor throws) and draws a path that starts at the goal, ends
  at the origin, moves between axis-aligned in-bounds neighbours, and strictly lowers
  the finalised distance at every move.
\<close>

theorem reachable_path_valid:
  assumes "reachable a" "solved (maze (solver a)) = Inr True"
  shows "\<exists>p. draw_path (maze (solver a)) = Some (Inr p) \<and>
             path_from (maze (solver a)) (goal (maze (solver a))) p"
proof -
  have "solver_inv (solver a)" using reachable_solver_inv [OF assms(1)] .
  then show ?thesis
    using draw_path_ok [OF solver_inv_wf solver_inv_descent assms(2)] by blast
qed

theorem reachable_path_valid_witness:
  "reachable open3_solved \<and> solved (maze (solver open3_solved)) = Inr True \<and>
   (\<exists>p. draw_path (maze (solver open3_solved)) = Some (Inr p) \<and>
        path_from (maze (solver open3_solved)) (goal (maze (solver open3_solved))) p)"
proof -
  have s: "solved (maze (solver open3_solved)) = Inr True"
    unfolding open3_solved_def start_def by code_simp
  show ?thesis
    using reachable_path_valid [OF reachable_open3_solved s] reachable_open3_solved s by blast
qed

text \<open>
  C4.  The lock \<^verbatim>\<open>BlockPlacer\<close> relies on is sound: in every reachable session in
  which \<^verbatim>\<open>distances[0][0]\<close> is \<^verbatim>\<open>Infinity\<close>, no search has started: the queue
  holds only the seed node, every distance is \<^verbatim>\<open>Infinity\<close>, and only the origin is
  explored.
\<close>

theorem reachable_lock_sound:
  assumes "reachable a" "cell (distances (maze (solver a))) 0 0 = \<infinity>"
  shows "elements (queue (solver a)) = [seed] \<and> fresh_fields (maze (solver a))"
  using reachable_solver_inv [OF assms(1)] assms(2) by (simp add: solver_inv_def lock_ok_def)

theorem reachable_lock_sound_witness:
  "reachable open3 \<and> cell (distances (maze (solver open3))) 0 0 = \<infinity> \<and>
   elements (queue (solver open3)) = [seed] \<and> fresh_fields (maze (solver open3))"
proof -
  have d: "cell (distances (maze (solver open3))) 0 0 = \<infinity>"
    unfolding open3_def start_def by code_simp
  show ?thesis using reachable_lock_sound [OF reachable_open3 d] reachable_open3 d by blast
qed

text \<open>
  C5.  On an open maze (no walls, as the spec's \<open>3 \<times> 3\<close> scenario) the skip button, from
  any reachable session, finalises the goal corner at distance \<open>2 (size - 1)\<close>, the
  Manhattan distance, and draws a path of \<open>2 size - 1\<close> tiles after the visited tiles.
\<close>

theorem open_maze_solved:
  assumes r: "reachable a"
    and op: "all_cells (maze_size (maze (solver a))) (\<lambda>x y. cell (maze_map (maze (solver a))) x y = Empty)"
  shows "\<exists>a' p. handle SkipBtn a = Some (Inr a') \<and> solved (maze (solver a')) = Inr True \<and>
           cell (distances (maze (solver a'))) (int (maze_size (maze (solver a))) - 1)
             (int (maze_size (maze (solver a))) - 1) = enat (2 * (maze_size (maze (solver a)) - 1)) \<and>
           draw_path (maze (solver a')) = Some (Inr p) \<and> length p = 2 * maze_size (maze (solver a)) - 1 \<and>
           (\<exists>vs. canvas (solver a') = canvas (solver a) @ vs @ map (\<lambda>(x, y). PathTile x y) p \<and>
                 visited_events vs)"
proof -
  let ?n = "maze_size (maze (solver a))"
  obtain s1 where s1: "skip_loop (pause (solver a)) = Some (Inr s1)" "solver_inv s1" "sp_inv s1"
      "canStep s1 = Inr False" "maze_map (maze s1) = maze_map (maze (solver a))" "maze_size (maze s1) = ?n"
      "\<exists>vs. canvas s1 = canvas (solver a) @ vs \<and> visited_events vs"
      "handle SkipBtn a = map_option (with_solver a)
         (if cell (distances (maze s1)) (fst (goal (maze s1))) (snd (goal (maze s1))) \<noteq> \<infinity>
          then pathViewer_draw s1 else Some (Inr s1))"
    using skip_button [OF r] by blast
  have n: "0 < ?n" using wf_maze_squares(1) [OF solver_inv_wf [OF s1(2)]] s1(6) by simp
  have "shortest (maze s1) (goal (maze s1)) (2 * (?n - 1))"
    using shortest_open_goal [of "maze s1"] op s1(5,6) n by (simp add: all_cells_iff)
  then have rg: "reach (maze s1) (goal (maze s1)) (2 * (?n - 1))" by (rule shortest_reach)
  have "cell (distances (maze s1)) (fst (goal (maze s1))) (snd (goal (maze s1))) \<noteq> \<infinity>"
  proof
    assume g: "cell (distances (maze s1)) (fst (goal (maze s1))) (snd (goal (maze s1))) = \<infinity>"
    then have "isEmpty (queue s1)" using canStep_inv [OF s1(2)] s1(4) by simp
    then show False using no_route [OF s1(2,3) _ g] rg by blast
  qed
  then have sv: "solved (maze s1) = Inr True" using solved_wf [OF solver_inv_wf [OF s1(2)]] by simp
  obtain p k where p: "draw_path (maze s1) = Some (Inr p)"
      "cell (distances (maze s1)) (fst (goal (maze s1))) (snd (goal (maze s1))) = enat k"
      "shortest (maze s1) (goal (maze s1)) k" "length p = Suc k"
    using draw_path_shortest [OF s1(2,3) sv] by blast
  have k: "k = 2 * (?n - 1)"
    using shortest_unique [OF p(3)] shortest_open_goal [of "maze s1"] op s1(5,6) n
    by (simp add: all_cells_iff)
  let ?a' = "a\<lparr>solver := s1\<lparr>canvas := canvas s1 @ map (\<lambda>(x, y). PathTile x y) p\<rparr>\<rparr>"
  have "handle SkipBtn a = Some (Inr ?a')"
    using s1(8) sv solved_wf [OF solver_inv_wf [OF s1(2)]] p(1)
    by (simp add: pathViewer_draw_def with_solver_def)
  then show ?thesis using s1(6,7) sv p k n by (intro exI [of _ ?a'] exI [of _ p]) auto
qed

theorem open_maze_solved_witness:
  "reachable open3 \<and>
   all_cells (maze_size (maze (solver open3))) (\<lambda>x y. cell (maze_map (maze (solver open3))) x y = Empty) \<and>
   (\<exists>a' p. handle SkipBtn open3 = Some (Inr a') \<and> solved (maze (solver a')) = Inr True \<and>
      cell (distances (maze (solver a'))) 2 2 = 4 \<and>
      draw_path (maze (solver a')) = Some (Inr p) \<and> length p = 5)"
proof -
  have o: "all_cells (maze_size (maze (solver open3))) (\<lambda>x y. cell (maze_map (maze (solver open3))) x y = Empty)"
    unfolding open3_def start_def by code_simp
  have n: "maze_size (maze (solver open3)) = 3" unfolding open3_def start_def by code_simp
  show ?thesis using open_maze_solved [OF reachable_open3 o] reachable_open3 o n
    by (simp add: enat_numeral) blast
qed

text \<open>
  C6.  The spec's unsolvable scenario, for every size: when both neighbours of the
  origin are walls, the skip button from any reachable session stops with the queue
  empty and the goal unreached, finalises no tile but the origin, and draws no path
  (only visited tiles are added to the canvas).
\<close>

theorem walled_origin_unsolvable:
  assumes r: "reachable a" and n: "1 < maze_size (maze (solver a))"
    and w: "cell (maze_map (maze (solver a))) 1 0 = Wall" "cell (maze_map (maze (solver a))) 0 1 = Wall"
  shows "\<exists>a'. handle SkipBtn a = Some (Inr a') \<and> solved (maze (solver a')) = Inr False \<and>
           isEmpty (queue (solver a')) \<and> canStep (solver a') = Inr False \<and>
           all_cells (maze_size (maze (solver a)))
             (\<lambda>x y. cell (distances (maze (solver a'))) x y \<noteq> \<infinity> \<longrightarrow> (x, y) = (0, 0)) \<and>
           (\<exists>vs. canvas (solver a') = canvas (solver a) @ vs \<and> visited_events vs)"
proof -
  let ?n = "maze_size (maze (solver a))"
  obtain s1 where s1: "skip_loop (pause (solver a)) = Some (Inr s1)" "solver_inv s1" "sp_inv s1"
      "canStep s1 = Inr False" "maze_map (maze s1) = maze_map (maze (solver a))" "maze_size (maze s1) = ?n"
      "\<exists>vs. canvas s1 = canvas (solver a) @ vs \<and> visited_events vs"
      "handle SkipBtn a = map_option (with_solver a)
         (if cell (distances (maze s1)) (fst (goal (maze s1))) (snd (goal (maze s1))) \<noteq> \<infinity>
          then pathViewer_draw s1 else Some (Inr s1))"
    using skip_button [OF r] by blast
  have fe: "final_exact (maze s1)" using s1(3) by (simp add: sp_inv_def bfs_inv_def)
  have only: "(x, y) = (0, 0)"
    if xy: "in_range ?n x y" and d: "cell (distances (maze s1)) x y \<noteq> \<infinity>" for x y
  proof -
    obtain k where "cell (distances (maze s1)) x y = enat k" using d by auto
    then have "reach (maze s1) (x, y) k"
      using final_shortest [OF fe] xy s1(6) shortest_reach by simp
    then show ?thesis using reach_walled_origin [of "maze s1"] w s1(5) by simp
  qed
  have g: "cell (distances (maze s1)) (fst (goal (maze s1))) (snd (goal (maze s1))) = \<infinity>"
  proof (rule ccontr)
    assume "cell (distances (maze s1)) (fst (goal (maze s1))) (snd (goal (maze s1))) \<noteq> \<infinity>"
    then have "(int ?n - 1, int ?n - 1) = (0, 0)"
      using only [of "int ?n - 1" "int ?n - 1"] in_range_corner [of ?n] n s1(6) by simp
    then show False using n by simp
  qed
  then have "solved (maze s1) = Inr False" "isEmpty (queue s1)"
    using solved_wf [OF solver_inv_wf [OF s1(2)]] canStep_inv [OF s1(2)] s1(4) by simp_all
  moreover have "handle SkipBtn a = Some (Inr (a\<lparr>solver := s1\<rparr>))"
    using s1(8) g by (simp add: with_solver_def)
  moreover have "all_cells ?n (\<lambda>x y. cell (distances (maze s1)) x y \<noteq> \<infinity> \<longrightarrow> (x, y) = (0, 0))"
    using only by (simp add: all_cells_iff)
  ultimately show ?thesis using s1(4,7) by auto
qed

theorem walled_origin_unsolvable_witness:
  "reachable blocked2 \<and> 1 < maze_size (maze (solver blocked2)) \<and>
   cell (maze_map (maze (solver blocked2))) 1 0 = Wall \<and> cell (maze_map (maze (solver blocked2))) 0 1 = Wall \<and>
   (\<exists>a'. handle SkipBtn blocked2 = Some (Inr a') \<and> solved (maze (solver a')) = Inr False \<and>
         isEmpty (queue (solver a')))"
proof -
  have c: "1 < maze_size (maze (solver blocked2)) \<and>
      cell (maze_map (maze (solver blocked2))) 1 0 = Wall \<and> cell (maze_map (maze (solver blocked2))) 0 1 = Wall"
    unfolding blocked2_def start_def by code_simp
  then show ?thesis using walled_origin_unsolvable [OF reachable_blocked2] reachable_blocked2 by blast
qed

text \<open>
  The spec says that running \<^verbatim>\<open>step()\<close> until \<^verbatim>\<open>canStep()\<close> fails ends either
  solved or with an empty queue, and that the two outcomes exclude each other.  They do
  not: on the open \<open>3 \<times> 3\<close> maze the goal is the last tile finalised, so \<^verbatim>\<open>skip\<close>
  ends with the goal solved and the queue empty.
\<close>

lemma skip_outcomes_overlap:
  "handle SkipBtn open3 = Some (Inr open3_solved) \<and>
   solved (maze (solver open3_solved)) = Inr True \<and> isEmpty (queue (solver open3_solved))"
  unfolding open3_def open3_solved_def start_def by code_simp

text \<open>
  With a slow tile, the distances the FIFO search finalises are not the cheapest
  weighted distances: on \<open>slow2\<close> the goal is discovered first through the slow tile
  \<open>(1, 0)\<close> and finalised at 3, while the open walk through \<open>(0, 1)\<close> costs 2.
\<close>

lemma slow_tile_distance_not_shortest:
  "\<exists>s'. skip (new_solver slow2) = Some (Inr s') \<and> cell (distances (maze s')) 1 1 = 3 \<and>
        open_walk slow2 [(0, 0), (0, 1), (1, 1)] \<and> walk_cost slow2 [(0, 0), (0, 1), (1, 1)] = 2"
proof -
  let ?s = "projr (the (skip (new_solver slow2)))"
  have "skip (new_solver slow2) = Some (Inr ?s)" unfolding slow2_def by code_simp
  moreover have "cell (distances (maze ?s)) 1 1 = 3" unfolding slow2_def by code_simp
  moreover have "open_walk slow2 [(0, 0), (0, 1), (1, 1)] \<and> walk_cost slow2 [(0, 0), (0, 1), (1, 1)] = 2"
    unfolding slow2_def by code_simp
  ultimately show ?thesis by blast
qed

text \<open>
  C8.  Once the origin is finalised, \<^verbatim>\<open>BlockPlacer.setBlock\<close> ignores the click:
  painting any cell leaves the whole session unchanged.
\<close>

theorem paint_ignored_when_locked:
  assumes "cell (distances (maze (solver a))) 0 0 \<noteq> \<infinity>"
  shows "handle (Paint x y) a = Some (Inr a)"
proof -
  have "(cell (distances (maze (solver a))) 0 0 = \<infinity>) = False" using assms by blast
  then have "setBlock x y (blockToTile (active a)) (maze (solver a)) = Inr (maze (solver a))"
    unfolding setBlock_def by (simp only: if_False)
  then show ?thesis by simp
qed

theorem paint_ignored_when_locked_witness:
  "cell (distances (maze (solver open3_solved))) 0 0 \<noteq> \<infinity> \<and>
   handle (Paint 1 1) open3_solved = Some (Inr open3_solved)"
proof -
  have d: "cell (distances (maze (solver open3_solved))) 0 0 \<noteq> \<infinity>"
    unfolding open3_solved_def start_def by code_simp
  show ?thesis using paint_ignored_when_locked [OF d] d by blast
qed

text \<open>
  C9.  Painting never blocks the start or the goal: in every reachable session, after
  any paint event the tiles at the origin and at the goal corner are empty, because
  \<^verbatim>\<open>setBlock\<close> calls \<^verbatim>\<open>clearEnds()\<close> after writing the tile.
\<close>

theorem paint_keeps_ends_clear:
  assumes "reachable a" "handle (Paint x y) a = Some (Inr a')"
  shows "cell (maze_map (maze (solver a'))) 0 0 = Empty \<and>
         cell (maze_map (maze (solver a'))) (fst (goal (maze (solver a')))) (snd (goal (maze (solver a'))))
           = Empty"
proof -
  have inv: "solver_inv (solver a)" "ends_clear (maze (solver a))"
    using reachable_app_inv [OF assms(1)] by (simp_all add: app_inv_def)
  obtain m' where m': "setBlock x y (blockToTile (active a)) (maze (solver a)) = Inr m'"
      "ends_clear m'"
    using setBlock_inv [OF inv] by blast
  then have "maze (solver a') = m'" using assms(2) by auto
  then show ?thesis using m'(2) by (simp add: ends_clear_def)
qed

theorem paint_keeps_ends_clear_witness:
  "reachable open3 \<and> handle (Paint 0 0) open3 = Some (Inr open3) \<and>
   cell (maze_map (maze (solver open3))) 0 0 = Empty \<and>
   cell (maze_map (maze (solver open3))) (fst (goal (maze (solver open3)))) (snd (goal (maze (solver open3))))
     = Empty"
proof -
  have h: "handle (Paint 0 0) open3 = Some (Inr open3)"
    unfolding open3_def start_def by code_simp
  show ?thesis using paint_keeps_ends_clear [OF reachable_open3 h] reachable_open3 h by blast
qed

text \<open>
  C10.  Before the search starts, painting a cell other than the two ends writes the
  selected tile there and changes nothing else of the session.
\<close>

theorem paint_sets_tile:
  assumes "reachable a" "cell (distances (maze (solver a))) 0 0 = \<infinity>"
    "in_range (maze_size (maze (solver a))) x y" "(x, y) \<noteq> (0, 0)" "(x, y) \<noteq> goal (maze (solver a))"
  shows "handle (Paint x y) a = Some (Inr (a\<lparr>solver := (solver a)\<lparr>maze := (maze (solver a))\<lparr>maze_map :=
           set_cell (maze_map (maze (solver a))) x y (blockToTile (active a))\<rparr>\<rparr>\<rparr>))"
  using paint_unlocked [OF reachable_app_inv [OF assms(1)] assms(2-5)] .

theorem paint_sets_tile_witness:
  "reachable open3 \<and> cell (distances (maze (solver open3))) 0 0 = \<infinity> \<and>
   in_range (maze_size (maze (solver open3))) 1 1 \<and> (1 :: int, 1 :: int) \<noteq> (0, 0) \<and>
   (1, 1) \<noteq> goal (maze (solver open3)) \<and>
   handle (Paint 1 1) open3 = Some (Inr (open3\<lparr>solver := (solver open3)\<lparr>maze := (maze (solver open3))\<lparr>maze_map :=
           set_cell (maze_map (maze (solver open3))) 1 1 (blockToTile (active open3))\<rparr>\<rparr>\<rparr>))"
proof -
  have c: "cell (distances (maze (solver open3))) 0 0 = \<infinity> \<and>
      in_range (maze_size (maze (solver open3))) 1 1 \<and> (1 :: int, 1 :: int) \<noteq> (0, 0) \<and>
      (1, 1) \<noteq> goal (maze (solver open3))"
    unfolding open3_def start_def by code_simp
  then show ?thesis
    using paint_sets_tile [of open3 1 1] reachable_open3 by blast
qed

text \<open>
  C11.  In every reachable session the restart button pauses the solver, empties the
  search back to the seed node over fresh distance and explored fields, and keeps the
  tile map, the size and the selected block.
\<close>

theorem restart_resets:
  assumes "reachable a"
  shows "\<exists>a'. handle RestartBtn a = Some (Inr a') \<and> \<not> solving (solver a') \<and>
           elements (queue (solver a')) = [seed] \<and> fresh_fields (maze (solver a')) \<and>
           maze_map (maze (solver a')) = maze_map (maze (solver a)) \<and>
           maze_size (maze (solver a')) = maze_size (maze (solver a)) \<and> active a' = active a"
proof -
  let ?s = "pause (controls_pause (solver a))"
  have "wf_maze (maze ?s)"
    using solver_inv_wf [OF reachable_solver_inv [OF assms]]
    by (simp add: controls_pause_def pause_def)
  then obtain s' where s': "reset ?s = Inr s'" "maze_map (maze s') = maze_map (maze ?s)"
      "maze_size (maze s') = maze_size (maze ?s)" "solving s' = solving ?s"
      "elements (queue s') = [seed]" "fresh_fields (maze s')"
    using reset_inv by blast
  then show ?thesis
    by (simp add: controls_restart_def with_solver_def controls_pause_def pause_def)
qed

theorem restart_resets_witness:
  "reachable open3_solved \<and>
   (\<exists>a'. handle RestartBtn open3_solved = Some (Inr a') \<and> \<not> solving (solver a') \<and>
        elements (queue (solver a')) = [seed] \<and> fresh_fields (maze (solver a')))"
  using restart_resets [OF reachable_open3_solved] reachable_open3_solved by blast

text \<open>
  C12.  The reset-maze button with a positive size builds a new maze of that size from
  the random draws, whatever the session held before: the tiles off the two ends are
  \<^verbatim>\<open>getTile\<close> of the draws in row-major order, the ends are empty, the fields are
  fresh, the solver is paused with the seed node alone in its queue, and the session
  invariant holds.
\<close>

theorem reset_maze_button:
  assumes "0 < n"
  shows "\<exists>a'. handle (ResetMazeBtn n freq rnd) a = Some (Inr a') \<and> app_inv a' \<and>
           maze_size (maze (solver a')) = n \<and> fresh_fields (maze (solver a')) \<and>
           elements (queue (solver a')) = [seed] \<and> \<not> solving (solver a') \<and>
           (\<forall>x y. in_range n x y \<longrightarrow> (x, y) \<noteq> (0, 0) \<longrightarrow> (x, y) \<noteq> (int n - 1, int n - 1) \<longrightarrow>
              cell (maze_map (maze (solver a'))) x y = getTile freq (rnd (nat x * n + nat y)))"
proof -
  obtain m where m: "setUpMaze n freq rnd (maze (solver a)) = Inr m" "maze_size m = n"
      "wf_maze m" "ends_clear m"
      "\<forall>x y. in_range n x y \<longrightarrow> (x, y) \<noteq> (0, 0) \<longrightarrow> (x, y) \<noteq> (int n - 1, int n - 1) \<longrightarrow>
         cell (maze_map m) x y = getTile freq (rnd (nat x * n + nat y))"
    using setUpMaze_Inr [OF assms] by blast
  let ?s = "pause (controls_pause ((solver a)\<lparr>maze := m\<rparr>))"
  have "wf_maze (maze ?s)" using m(3) by (simp add: controls_pause_def pause_def)
  then obtain s' where s': "reset ?s = Inr s'" "solver_inv s'"
      "maze_map (maze s') = maze_map (maze ?s)" "maze_size (maze s') = maze_size (maze ?s)"
      "solving s' = solving ?s" "elements (queue s') = [seed]" "fresh_fields (maze s')"
    using reset_inv by blast
  have "ends_clear (maze s')"
    using m(4) s'(3,4) ends_clear_cong [of "maze s'" m] by (simp add: controls_pause_def pause_def)
  then show ?thesis
    using m s' by (simp add: resetMaze_def controls_restart_def with_solver_def app_inv_def
        controls_pause_def pause_def)
qed

theorem reset_maze_button_witness:
  "0 < (2 :: nat) \<and>
   (\<exists>a'. handle (ResetMazeBtn 2 (1 / 2) blocked_draws) start = Some (Inr a') \<and> app_inv a' \<and>
        maze_size (maze (solver a')) = 2 \<and> elements (queue (solver a')) = [seed])"
proof -
  have n: "0 < (2 :: nat)" by simp
  show ?thesis using reset_maze_button [OF n, of "1 / 2" blocked_draws start] n by blast
qed

text \<open>
  C14.  The reset-maze button with size 0 throws: \<^verbatim>\<open>resetDistances\<close> reads
  \<^verbatim>\<open>explored[0]\<close> of an empty array.
\<close>

theorem reset_maze_zero_error:
  "handle (ResetMazeBtn 0 freq rnd) a = Some (Inl (TypeError ''explored[0] is undefined''))"
  by (simp add: resetMaze_def setUpMaze_zero with_solver_def)

text \<open>
  C16.  The page's \<^verbatim>\<open>setup()\<close> with the default wall frequency 0 builds an open
  \<open>20 \<times> 20\<close> maze for any non-negative random draws, with fresh fields, the seed node
  alone in the queue, the solver paused, nothing drawn and the wall block selected.
\<close>

theorem setup_open_maze:
  assumes "\<forall>k. 0 \<le> rnd k"
  shows "\<exists>a. app_setup rnd = Inr a \<and> maze_size (maze (solver a)) = 20 \<and>
           all_cells 20 (\<lambda>x y. cell (maze_map (maze (solver a))) x y = Empty) \<and>
           fresh_fields (maze (solver a)) \<and> elements (queue (solver a)) = [seed] \<and>
           \<not> solving (solver a) \<and> canvas (solver a) = [] \<and> active a = WallBlock"
proof -
  have n: "0 < DEFAULTSIZE" by (simp add: DEFAULTSIZE_def)
  obtain m where m: "new_maze DEFAULTSIZE DEFAULTWALLFREQ rnd = Inr m" "maze_size m = DEFAULTSIZE"
      "ends_clear m" "fresh_fields m"
      "\<forall>x y. in_range DEFAULTSIZE x y \<longrightarrow> (x, y) \<noteq> (0, 0) \<longrightarrow>
         (x, y) \<noteq> (int DEFAULTSIZE - 1, int DEFAULTSIZE - 1) \<longrightarrow>
         cell (maze_map m) x y = getTile DEFAULTWALLFREQ (rnd (nat x * DEFAULTSIZE + nat y))"
    using setUpMaze_Inr [OF n, of DEFAULTWALLFREQ rnd
      "\<lparr>maze_size = 0, wallFreq = 0, maze_map = [], distances = [], explored = []\<rparr>"]
    unfolding new_maze_def by blast
  have tiles: "cell (maze_map m) x y = Empty" if r: "in_range DEFAULTSIZE x y" for x y
  proof (cases "(x, y) = (0, 0) \<or> (x, y) = (int DEFAULTSIZE - 1, int DEFAULTSIZE - 1)")
    case True
    then show ?thesis using m(2,3) by (auto simp: ends_clear_def)
  next
    case False
    then show ?thesis using m(5) r assms by (auto simp: getTile_def DEFAULTWALLFREQ_def not_less)
  qed
  have "app_setup rnd = Inr \<lparr>solver = new_solver m, active = WallBlock\<rparr>"
    using m(1) by (simp add: app_setup_def)
  moreover have "all_cells DEFAULTSIZE (\<lambda>x y. cell (maze_map m) x y = Empty)"
    using tiles by (simp add: all_cells_iff)
  ultimately show ?thesis
    using m(2,4) by (simp add: new_solver_def resetQueue_def new_queue_def DEFAULTSIZE_def)
qed

theorem setup_open_maze_witness:
  "(\<forall>k::nat. 0 \<le> (1 :: real)) \<and>
   (\<exists>a. app_setup (\<lambda>_. 1) = Inr a \<and> maze_size (maze (solver a)) = 20 \<and>
        all_cells 20 (\<lambda>x y. cell (maze_map (maze (solver a))) x y = Empty))"
proof -
  have h: "\<forall>k::nat. 0 \<le> (1 :: real)" by simp
  show ?thesis using setup_open_maze [of "\<lambda>_. 1", OF h] h by blast
qed

text \<open>
  C17.  The lock is \<^verbatim>\<open>distances[0][0]\<close>, not the solver's running state: in every
  reachable session where Play has started the solver but no tick has run yet, the
  solver is \<open>Running\<close>, and a paint of any cell but the two ends still writes the
  selected tile into the map the search is about to explore, leaving it \<open>Running\<close>.
\<close>

theorem paint_while_running:
  assumes r: "reachable a" and run: "solving (solver a)" and u: "cell (distances (maze (solver a))) 0 0 = \<infinity>"
    and c: "in_range (maze_size (maze (solver a))) x y" "(x, y) \<noteq> (0, 0)" "(x, y) \<noteq> goal (maze (solver a))"
  shows "phase_of (solver a) = Running \<and>
         (\<exists>a'. handle (Paint x y) a = Some (Inr a') \<and> phase_of (solver a') = Running \<and>
               cell (maze_map (maze (solver a'))) x y = blockToTile (active a))"
proof -
  have inv: "app_inv a" using reachable_app_inv [OF r] .
  have si: "solver_inv (solver a)" using inv by (simp add: app_inv_def)
  have q: "elements (queue (solver a)) = [seed]" "fresh_fields (maze (solver a))"
    using si u by (simp_all add: solver_inv_def lock_ok_def)
  have n: "0 < maze_size (maze (solver a))" using wf_maze_squares(1) [OF solver_inv_wf [OF si]] .
  have "cell (distances (maze (solver a))) (fst (goal (maze (solver a)))) (snd (goal (maze (solver a)))) = \<infinity>"
    using q(2) in_range_corner [OF n] by (simp add: fresh_fields_def all_cells_iff)
  then have ph: "phase_of (solver a) = Running"
    using q(1) run by (simp add: phase_of_def isEmpty_def)
  let ?a' = "a\<lparr>solver := (solver a)\<lparr>maze := (maze (solver a))\<lparr>maze_map :=
           set_cell (maze_map (maze (solver a))) x y (blockToTile (active a))\<rparr>\<rparr>\<rparr>"
  have h: "handle (Paint x y) a = Some (Inr ?a')" using paint_unlocked [OF inv u c] .
  have "phase_of (solver ?a') = phase_of (solver a)" by (simp add: phase_of_def)
  then show ?thesis using ph h paint_unlocked_cell [OF inv u c h] by auto
qed

theorem paint_while_running_witness:
  "reachable open3_playing \<and> solving (solver open3_playing) \<and>
   cell (distances (maze (solver open3_playing))) 0 0 = \<infinity> \<and>
   in_range (maze_size (maze (solver open3_playing))) 1 1 \<and> (1 :: int, 1 :: int) \<noteq> (0, 0) \<and>
   (1, 1) \<noteq> goal (maze (solver open3_playing)) \<and> phase_of (solver open3_playing) = Running \<and>
   (\<exists>a'. handle (Paint 1 1) open3_playing = Some (Inr a') \<and> phase_of (solver a') = Running \<and>
         cell (maze_map (maze (solver a'))) 1 1 = Wall)"
proof -
  have c: "solving (solver open3_playing) \<and> cell (distances (maze (solver open3_playing))) 0 0 = \<infinity> \<and>
      in_range (maze_size (maze (solver open3_playing))) 1 1 \<and> (1 :: int, 1 :: int) \<noteq> (0, 0) \<and>
      (1, 1) \<noteq> goal (maze (solver open3_playing)) \<and> blockToTile (active open3_playing) = Wall"
    unfolding open3_playing_def open3_def start_def by code_simp
  then show ?thesis using paint_while_running [OF reachable_open3_playing] reachable_open3_playing by auto
qed

text \<open>
  C27.  A timer-driven solve is short: from every reachable session, at most
  \<open>size * size + 1\<close> timer ticks lead to a paused session (401 ticks for the default
  \<open>20 \<times> 20\<close> page), because each step explores one cell or dequeues one node.
\<close>

theorem reachable_timer_bound:
  assumes "reachable a"
  shows "\<exists>n a'. n \<le> Suc (maze_size (maze (solver a)) * maze_size (maze (solver a))) \<and>
           run_events (replicate n Tick) a = Some (Inr a') \<and> \<not> solving (solver a')"
proof -
  obtain n s' where s': "n \<le> Suc (search_measure (solver a))" "ticks n (solver a) = Some (Inr s')"
      "\<not> solving s'"
    using ticks_stop [OF reachable_solver_inv [OF assms]] by blast
  have "search_measure (solver a) \<le> maze_size (maze (solver a)) * maze_size (maze (solver a))"
    using reachable_measure_bounded [OF assms] by (simp add: measure_bounded_def)
  then show ?thesis using s' run_ticks [OF s'(2)] by (intro exI [of _ n]) auto
qed

theorem reachable_timer_bound_witness:
  "reachable open3_playing \<and> maze_size (maze (solver open3_playing)) = 3 \<and>
   (\<exists>n a'. n \<le> 10 \<and> run_events (replicate n Tick) open3_playing = Some (Inr a') \<and>
      \<not> solving (solver a'))"
proof -
  have s: "maze_size (maze (solver open3_playing)) = 3"
    unfolding open3_playing_def open3_def start_def by code_simp
  show ?thesis using reachable_timer_bound [OF reachable_open3_playing] s reachable_open3_playing by simp
qed

text \<open>
  C28.  The shape of the data: in every reachable session the size is positive and the
  tile map, the distance field and the explored flags are all \<open>size \<times> size\<close> arrays,
  so every read the code guards with \<^verbatim>\<open>inBounds\<close> is defined.
\<close>

theorem reachable_grids_square:
  assumes "reachable a"
  shows "0 < maze_size (maze (solver a)) \<and>
         square (maze_size (maze (solver a))) (maze_map (maze (solver a))) \<and>
         square (maze_size (maze (solver a))) (distances (maze (solver a))) \<and>
         square (maze_size (maze (solver a))) (explored (maze (solver a)))"
  using wf_maze_squares [OF solver_inv_wf [OF reachable_solver_inv [OF assms]]] by simp

theorem reachable_grids_square_witness:
  "reachable blocked2_skipped \<and> 0 < maze_size (maze (solver blocked2_skipped)) \<and>
   square (maze_size (maze (solver blocked2_skipped))) (maze_map (maze (solver blocked2_skipped)))"
  using reachable_grids_square [OF reachable_blocked2_skipped] reachable_blocked2_skipped by simp

text \<open>
  C31.  A running solve finishes: from every reachable session in which the solver is
  \<open>Running\<close>, within one tick more than the termination measure the timer brings it to
  \<open>Solved\<close> or \<open>Unsolvable\<close> (never back to \<open>Paused\<close> or \<open>Idle\<close>).
\<close>

theorem running_solve_finishes:
  assumes "reachable a" "phase_of (solver a) = Running"
  shows "\<exists>n a'. n \<le> Suc (search_measure (solver a)) \<and>
           run_events (replicate n Tick) a = Some (Inr a') \<and>
           phase_of (solver a') \<in> {Solved, Unsolvable}"
proof -
  have i: "solver_inv (solver a)" using reachable_solver_inv [OF assms(1)] .
  obtain n s' where s': "n \<le> Suc (search_measure (solver a))" "ticks n (solver a) = Some (Inr s')"
      "\<not> solving s'"
    using ticks_stop [OF i] by blast
  have "phase_of s' \<in> {Running, Solved, Unsolvable}" using ticks_phase [OF i _ s'(2)] assms(2) by simp
  then have "phase_of s' \<in> {Solved, Unsolvable}" using phase_running_solving [of s'] s'(3) by auto
  then show ?thesis using run_ticks [OF s'(2)] s'(1) by auto
qed

theorem running_solve_finishes_witness:
  "reachable open3_playing \<and> phase_of (solver open3_playing) = Running \<and>
   (\<exists>n a'. run_events (replicate n Tick) open3_playing = Some (Inr a') \<and>
          phase_of (solver a') \<in> {Solved, Unsolvable})"
proof -
  have p: "phase_of (solver open3_playing) = Running" unfolding open3_playing_def open3_def start_def by code_simp
  show ?thesis using running_solve_finishes [OF reachable_open3_playing p] reachable_open3_playing p by blast
qed

section \<open>Instances of the component theorems\<close>

theorem step_keeps_invariant_witness:
  "solver_inv (solver open3) \<and> \<not> isEmpty (queue (solver open3)) \<and>
   (\<exists>s'. step (solver open3) = Inr s' \<and> solver_inv s' \<and>
        search_measure s' < search_measure (solver open3))"
proof -
  have i: "solver_inv (solver open3)" using reachable_solver_inv [OF reachable_open3] .
  have e: "\<not> isEmpty (queue (solver open3))" unfolding open3_def start_def by code_simp
  show ?thesis using step_keeps_invariant [OF i e] i e by blast
qed

theorem skip_terminates_witness:
  "solver_inv (solver open3) \<and>
   (\<exists>s'. skip (solver open3) = Some (Inr s') \<and> solver_inv s' \<and> canStep s' = Inr False)"
proof -
  have i: "solver_inv (solver open3)" using reachable_solver_inv [OF reachable_open3] .
  show ?thesis using skip_terminates [OF i] i by blast
qed

theorem skip_redraws_path_witness:
  "solver_inv (solver open3_solved) \<and> solved (maze (solver open3_solved)) = Inr True \<and>
   (\<exists>p. p \<noteq> [] \<and> skip (solver open3_solved) =
      Some (Inr ((solver open3_solved)\<lparr>canvas := canvas (solver open3_solved) @ map (\<lambda>(x, y). PathTile x y) p\<rparr>)))"
proof -
  have i: "solver_inv (solver open3_solved)" using reachable_solver_inv [OF reachable_open3_solved] .
  have s: "solved (maze (solver open3_solved)) = Inr True"
    unfolding open3_solved_def start_def by code_simp
  show ?thesis using skip_redraws_path [OF i s] i s by blast
qed

theorem step_empty_error_witness:
  "isEmpty (queue (solver open3_solved)) \<and>
   step (solver open3_solved) = Inl (TypeError ''node is undefined'')"
proof -
  have e: "isEmpty (queue (solver open3_solved))" unfolding open3_solved_def start_def by code_simp
  show ?thesis using step_empty_error [OF e] e by blast
qed

theorem reachable_distances_shortest_witness:
  "reachable open3_solved \<and> in_range (maze_size (maze (solver open3_solved))) 2 2 \<and>
   cell (distances (maze (solver open3_solved))) 2 2 = enat 4 \<and>
   shortest (maze (solver open3_solved)) (2, 2) 4"
proof -
  have c: "in_range (maze_size (maze (solver open3_solved))) 2 2 \<and>
      cell (distances (maze (solver open3_solved))) 2 2 = enat 4"
    unfolding open3_solved_def start_def by code_simp
  then show ?thesis
    using reachable_distances_shortest [OF reachable_open3_solved] reachable_open3_solved by blast
qed

theorem reachable_path_shortest_witness:
  "reachable open3_solved \<and> solved (maze (solver open3_solved)) = Inr True \<and>
   (\<exists>p k. draw_path (maze (solver open3_solved)) = Some (Inr p) \<and> length p = Suc k \<and>
      shortest (maze (solver open3_solved)) (goal (maze (solver open3_solved))) k)"
proof -
  have s: "solved (maze (solver open3_solved)) = Inr True"
    unfolding open3_solved_def start_def by code_simp
  show ?thesis
    using reachable_path_shortest [OF reachable_open3_solved s] reachable_open3_solved s by blast
qed

theorem reachable_no_route_witness:
  "reachable blocked2_skipped \<and> isEmpty (queue (solver blocked2_skipped)) \<and>
   cell (distances (maze (solver blocked2_skipped))) (fst (goal (maze (solver blocked2_skipped))))
     (snd (goal (maze (solver blocked2_skipped)))) = \<infinity> \<and>
   \<not> reach (maze (solver blocked2_skipped)) (goal (maze (solver blocked2_skipped))) 2"
proof -
  have c: "isEmpty (queue (solver blocked2_skipped)) \<and>
      cell (distances (maze (solver blocked2_skipped))) (fst (goal (maze (solver blocked2_skipped))))
        (snd (goal (maze (solver blocked2_skipped)))) = \<infinity>"
    unfolding blocked2_skipped_def blocked2_def start_def by code_simp
  then show ?thesis
    using reachable_no_route [OF reachable_blocked2_skipped] reachable_blocked2_skipped by blast
qed

theorem reachable_queue_layered_witness:
  "reachable open3_stepped \<and> map node_distance (elements (queue (solver open3_stepped))) = [1, 2, 2] \<and>
   layered (elements (queue (solver open3_stepped)))"
proof -
  have c: "map node_distance (elements (queue (solver open3_stepped))) = [1, 2, 2]"
    unfolding open3_stepped_def open3_def start_def by code_simp
  then show ?thesis
    using reachable_queue_layered [OF reachable_open3_stepped] reachable_open3_stepped by blast
qed

theorem reachable_no_slow_tile_witness:
  "reachable open3 \<and> in_range (maze_size (maze (solver open3))) 1 1 \<and>
   cell (maze_map (maze (solver open3))) 1 1 \<noteq> Slow"
proof -
  have r: "in_range (maze_size (maze (solver open3))) 1 1" unfolding open3_def start_def by code_simp
  show ?thesis using reachable_no_slow_tile [OF reachable_open3 r] reachable_open3 r by blast
qed

theorem bfs_step_witness:
  "solver_inv (solver open3_stepped) \<and> sp_inv (solver open3_stepped) \<and>
   \<not> isEmpty (queue (solver open3_stepped)) \<and>
   (\<exists>s'. step (solver open3_stepped) = Inr s' \<and> sp_inv s')"
proof -
  have i: "solver_inv (solver open3_stepped)" using reachable_solver_inv [OF reachable_open3_stepped] .
  have sp: "sp_inv (solver open3_stepped)" using reachable_sp_inv [OF reachable_open3_stepped] .
  have e: "\<not> isEmpty (queue (solver open3_stepped))"
    unfolding open3_stepped_def open3_def start_def by code_simp
  show ?thesis using bfs_step [OF i sp e] i sp e by blast
qed

theorem tick_run_matches_skip_witness:
  "solver_inv (solver open3_playing) \<and> solving (solver open3_playing) \<and>
   (\<exists>n s' t. ticks n (solver open3_playing) = Some (Inr s') \<and> skip (solver open3_playing) = Some (Inr t) \<and>
      maze s' = maze t \<and> \<not> solving s')"
proof -
  have i: "solver_inv (solver open3_playing)" using reachable_solver_inv [OF reachable_open3_playing] .
  have p: "solving (solver open3_playing)" unfolding open3_playing_def open3_def start_def by code_simp
  obtain n s' t where w: "ticks n (solver open3_playing) = Some (Inr s')"
      "skip (solver open3_playing) = Some (Inr t)"
      "s' = pause (t\<lparr>canvas := canvas t @ (if solved (maze t) = Inr True then [] else [NoSolution])\<rparr>)"
    using tick_run_matches_skip [OF i p] by blast
  have "maze s' = maze t" "\<not> solving s'" using w(3) by (simp_all add: pause_def)
  then show ?thesis using w(1,2) i p by blast
qed

theorem getInfo_bounds_witness:
  "0 < maze_size (maze (solver open3)) \<and>
   getInfo (maze (solver open3)) WallBlock 150 (3999 / 10) = (400 / 3, 1, 2, Wall) \<and>
   inBounds (maze (solver open3)) 1 2"
proof -
  have n: "0 < maze_size (maze (solver open3))" unfolding open3_def start_def by code_simp
  have g: "getInfo (maze (solver open3)) WallBlock 150 (3999 / 10) = (400 / 3, 1, 2, Wall)"
    unfolding open3_def start_def by code_simp
  have "on_canvas 150 (3999 / 10)" by (simp add: on_canvas_def CANVASSIZE_def)
  then show ?thesis using getInfo_bounds [OF n, of 150 "3999 / 10" WallBlock] n g by simp
qed

theorem mouse_click_paints_cell_witness:
  "reachable open3 \<and> on_canvas 150 150 \<and>
   (\<exists>a'. handleBlockDrawing True 150 150 open3 = Inr a' \<and> reachable a' \<and>
         handle (Paint 1 1) open3 = Some (Inr a') \<and> cell (maze_map (maze (solver a'))) 1 1 = Wall)"
proof -
  let ?a = "projr (handleBlockDrawing True 150 150 open3)"
  have h: "handleBlockDrawing True 150 150 open3 = Inr ?a"
    unfolding open3_def start_def by code_simp
  have g: "getInfo (maze (solver open3)) (active open3) 150 150 = (400 / 3, 1, 1, Wall)"
    unfolding open3_def start_def by code_simp
  have u: "cell (distances (maze (solver open3))) 0 0 = \<infinity> \<and> (1 :: int, 1 :: int) \<noteq> (0, 0) \<and>
      (1, 1) \<noteq> goal (maze (solver open3))"
    unfolding open3_def start_def by code_simp
  have c: "on_canvas 150 150" by (simp add: on_canvas_def CANVASSIZE_def)
  show ?thesis using mouse_click_paints_cell [OF reachable_open3 c h] g u c h reachable_open3 by auto
qed

theorem session_refines_phases_witness:
  "app_setup (\<lambda>_. 1) = Inr start \<and> phase_of (solver start) = Idle \<and>
   reachable open3 \<and> handle PlayBtn open3 = Some (Inr open3_playing) \<and>
   spec_trans (phase_of (solver open3)) OpPlay (phase_of (solver open3_playing))"
proof -
  have h: "handle PlayBtn open3 = Some (Inr open3_playing)"
    unfolding open3_playing_def open3_def start_def by code_simp
  show ?thesis
    using session_refines_phases [of "\<lambda>_. 1" start open3 PlayBtn open3_playing] start_setup h reachable_open3
    by simp
qed

theorem terminal_phase_frozen_witness:
  "reachable open3_solved \<and> phase_of (solver open3_solved) = Solved \<and> op_of StepBtn \<noteq> OpReset \<and>
   (\<exists>a'. handle StepBtn open3_solved = Some (Inr a') \<and> phase_of (solver a') = Solved \<and>
         maze (solver a') = maze (solver open3_solved) \<and> \<not> solving (solver a'))"
proof -
  let ?a = "projr (the (handle StepBtn open3_solved))"
  have h: "handle StepBtn open3_solved = Some (Inr ?a)"
    unfolding open3_solved_def open3_def start_def by code_simp
  have p: "phase_of (solver open3_solved) = Solved \<and> \<not> solving (solver open3_solved)"
    unfolding open3_solved_def open3_def start_def by code_simp
  have o: "op_of StepBtn \<noteq> OpReset" by simp
  have "phase_of (solver ?a) = Solved \<and> maze (solver ?a) = maze (solver open3_solved) \<and> \<not> solving (solver ?a)"
    using terminal_phase_frozen [OF reachable_open3_solved _ h o] p by simp
  then show ?thesis using h p o reachable_open3_solved by blast
qed

theorem resetBuffer_shows_map_witness:
  "0 < maze_size (maze (solver open3)) \<and> on_canvas 10 150 \<and>
   colour_at (resetBuffer (maze (solver open3))) 10 150 = Some (tile_colour Empty)"
proof -
  have n: "0 < maze_size (maze (solver open3))" unfolding open3_def start_def by code_simp
  have c: "on_canvas 10 150" by (simp add: on_canvas_def CANVASSIZE_def)
  have "cell (maze_map (maze (solver open3))) \<lfloor>10 / maze_width (maze (solver open3))\<rfloor>
          \<lfloor>150 / maze_width (maze (solver open3))\<rfloor> = Empty"
    unfolding open3_def start_def by code_simp
  then show ?thesis using resetBuffer_shows_map [OF n c] n c by simp
qed

theorem reachable_buffer_shows_map_witness:
  "page_reachable start_page \<and> on_canvas 10 10 \<and>
   buffer_shows (maze (solver (session start_page))) (buffer start_page) 10 10"
proof -
  have c: "on_canvas 10 10" by (simp add: on_canvas_def CANVASSIZE_def)
  show ?thesis using reachable_buffer_shows_map [OF reachable_start_page c] reachable_start_page c by simp
qed

theorem paint_end_shows_wall_witness:
  "page_reachable start_page \<and>
   (\<exists>p'. page_handle (UI (Paint 0 0)) start_page = Some (Inr p') \<and>
         colour_at (buffer p') 5 5 = Some (tile_colour Wall) \<and>
         cell (maze_map (maze (solver (session p')))) 0 0 = Empty)"
proof -
  have "handle (Paint 0 0) start = Some (Inr (projr (the (handle (Paint 0 0) start))))"
    unfolding start_def by code_simp
  then obtain a' where h: "handle (Paint 0 0) start = Some (Inr a')" by blast
  obtain p' where ph: "page_handle (UI (Paint 0 0)) start_page = Some (Inr p')"
    using h by (simp add: page_ui_def start_page_def del: handle.simps)
  have act: "active (session start_page) = WallBlock" unfolding start_page_def start_def by code_simp
  have "colour_at (buffer p') 5 5 = Some (tile_colour Wall) \<and>
        cell (maze_map (maze (solver (session p')))) 0 0 = Empty"
    using paint_end_shows_wall [OF reachable_start_page _ act _ ph, where px = 5 and py = 5] start_unlocked start_width
    by (simp add: start_page_def)
  then show ?thesis using ph reachable_start_page by blast
qed

theorem preview_matches_click_witness:
  "0 < maze_size (maze (solver (session start_page))) \<and>
   (\<exists>p'. page_handle (UI (Paint 1 2)) start_page = Some (Inr p') \<and>
         screen_colour (buffer start_page) (drawBlock 30 50 (session start_page)) 35 45 = colour_at (buffer p') 35 45)"
proof -
  have "handle (Paint 1 2) start = Some (Inr (projr (the (handle (Paint 1 2) start))))"
    unfolding start_def by code_simp
  then obtain a' where h: "handle (Paint 1 2) start = Some (Inr a')" by blast
  obtain p' where ph: "page_handle (UI (Paint 1 2)) start_page = Some (Inr p')"
    using h by (simp add: page_ui_def start_page_def del: handle.simps)
  have n: "0 < maze_size (maze (solver (session start_page)))"
    unfolding start_page_def start_def by code_simp
  have "\<lfloor>30 / maze_width (maze (solver (session start_page)))\<rfloor> = 1"
    "\<lfloor>50 / maze_width (maze (solver (session start_page)))\<rfloor> = 2"
    using start_width by (simp_all add: start_page_def)
  then have "screen_colour (buffer start_page) (drawBlock 30 50 (session start_page)) 35 45 = colour_at (buffer p') 35 45"
    using preview_matches_click [OF n, of 30 50 p' 35 45] ph start_unlocked by (simp add: start_page_def)
  then show ?thesis using ph n by blast
qed

theorem selector_highlights_active_witness:
  "\<exists>p'. page_handle (UI (ClickBlock EraseBlock)) start_page = Some (Inr p') \<and> selector_ok p' \<and>
        classes p' EraseBlock \<and> \<not> classes p' WallBlock"
proof -
  let ?p = "projr (the (page_handle (UI (ClickBlock EraseBlock)) start_page))"
  have ph: "page_handle (UI (ClickBlock EraseBlock)) start_page = Some (Inr ?p)"
    by (simp add: page_ui_def start_page_def)
  have "selector_ok ?p" using selector_highlights_active [OF ph] by simp
  then show ?thesis using ph by (simp add: selector_ok_def page_ui_def start_page_def activate_def)
qed

end
